(* ===== verification/Delta_Prelude.thy ===== *)
theory Delta_Prelude
  imports Complex_Main "HOL-Library.Word"
begin

text \<open>
  The shared vocabulary of the development: the byte strings the store keeps,
  the collections of simplification rules the component theories fill
  (\<^verbatim>\<open>codec\<close> for encoders and decoders, \<^verbatim>\<open>wf\<close> for well-formedness
  facts, \<^verbatim>\<open>ordered\<close> for facts about sorted sequences), and generic lemmas
  on words, lists and options that several components use.
\<close>

unbundle bit_operations_syntax

type_synonym byte = "8 word"
type_synonym bytes = "byte list"
type_synonym u32 = "32 word"
type_synonym u64 = "64 word"

named_theorems codec \<open>round trips and lengths of encoders and decoders\<close>
named_theorems wf \<open>well-formedness of states\<close>
named_theorems ordered \<open>facts about sorted sequences\<close>

section \<open>Words\<close>

lemma push_bit_join:
  fixes v :: "'a::len word"
  shows "push_bit s (take_bit k v) OR push_bit (s + k) (drop_bit k v) = push_bit s v"
proof (rule bit_eqI)
  fix n
  show "bit (push_bit s (take_bit k v) OR push_bit (s + k) (drop_bit k v)) n = bit (push_bit s v) n"
    by (cases "s + k \<le> n") (auto simp: bit_simps)
qed

lemma unat_drop_bit_div: "unat (drop_bit k (v::'a::len word)) = unat v div 2 ^ k"
  by (simp only: unat_drop_bit_eq) (simp only: drop_bit_eq_div)

lemma take_bit_word_small: "unat (v::'a::len word) < 2 ^ k \<Longrightarrow> take_bit k v = v"
  by (metis take_bit_nat_eq_self unsigned_take_bit_eq word_eq_iff_unsigned)

lemma bit_word_128: "bit (128::'a::semiring_bits) n \<longleftrightarrow> possible_bit TYPE('a) 7 \<and> n = 7"
proof -
  have "(128::'a) = 2 ^ 7" by simp
  then show ?thesis by (auto simp only: bit_exp_iff)
qed

lemma word_127_mask: "(127::'a::len word) = mask 7"
  by (simp add: mask_eq_exp_minus_1)

lemma ucast_u64_u32 [simp]: "(ucast (ucast (v::u32) :: u64) :: u32) = v"
  by (rule bit_eqI) (auto simp: bit_simps)

lemma unat_u32_less: "unat (v::u32) < 4294967296"
  using unsigned_less [of v, where ?'a = nat] by simp

lemma unat_u64_less: "unat (v::u64) < 18446744073709551616"
  using unsigned_less [of v, where ?'a = nat] by simp

lemma unat_byte_less: "unat (v::byte) < 256"
  using unsigned_less [of v, where ?'a = nat] by simp

section \<open>Sets\<close>

lemma disjoint_inside: "F \<subseteq> X \<Longrightarrow> X \<inter> M = {} \<Longrightarrow> N \<subseteq> M \<Longrightarrow> N \<inter> F = {}"
  by blast

section \<open>Lists and options\<close>

lemma sorted_wrt_distinct: "sorted_wrt R xs \<Longrightarrow> (\<And>x. \<not> R x x) \<Longrightarrow> distinct xs"
  by (induction xs) auto

lemma set_takeWhile_dropWhile: "set (takeWhile P xs) \<union> set (dropWhile P xs) = set xs"
  by (metis set_append takeWhile_dropWhile_id)

text \<open>
  The loop that counts how many leading elements two strings share; the byte
  comparator and the block builder both run it.
\<close>

fun shared_prefix :: "'a list \<Rightarrow> 'a list \<Rightarrow> nat" where
  "shared_prefix (x # xs) (y # ys) = (if x = y then Suc (shared_prefix xs ys) else 0)"
| "shared_prefix _ _ = 0"

lemma shared_prefix_le: "shared_prefix xs ys \<le> length xs" "shared_prefix xs ys \<le> length ys"
  by (induction xs ys rule: shared_prefix.induct) auto

lemma take_shared_prefix: "take (shared_prefix xs ys) xs = take (shared_prefix xs ys) ys"
  by (induction xs ys rule: shared_prefix.induct) auto

lemma nth_shared_prefix:
  "shared_prefix xs ys < min (length xs) (length ys) \<Longrightarrow>
   xs ! shared_prefix xs ys \<noteq> ys ! shared_prefix xs ys"
  by (induction xs ys rule: shared_prefix.induct) auto

lemma split_shared_prefix:
  assumes "shared_prefix xs ys < min (length xs) (length ys)"
  obtains p x xs' y ys' where "xs = p @ x # xs'" "ys = p @ y # ys'" "x \<noteq> y"
    "shared_prefix xs ys = length p"
proof
  let ?n = "shared_prefix xs ys"
  show "xs = take ?n xs @ xs ! ?n # drop (Suc ?n) xs"
    using assms by (simp add: id_take_nth_drop)
  show "ys = take ?n xs @ ys ! ?n # drop (Suc ?n) ys"
    using id_take_nth_drop [of ?n ys] assms take_shared_prefix [of xs ys] by simp
  show "xs ! ?n \<noteq> ys ! ?n" using assms by (rule nth_shared_prefix)
  show "?n = length (take ?n xs)" using assms by simp
qed

end
