(* ===== verification/Coding.thy ===== *)
theory Coding
  imports Delta_Prelude
begin

text \<open>
  The byte codecs of \<^verbatim>\<open>src/utils/coding.cc\<close> and
  \<^verbatim>\<open>src/utils/include/coding.h\<close>: little-endian fixed-width integers,
  base-128 variable-length integers and length-prefixed slices.  A pointer pair
  \<^verbatim>\<open>[p, limit)\<close> is the list of the bytes it delimits; a decoder returns the
  value together with the bytes after it, or \<^verbatim>\<open>None\<close> where the code returns
  \<^verbatim>\<open>nullptr\<close> or \<^verbatim>\<open>false\<close>.
\<close>

section \<open>Fixed-width integers\<close>

definition EncodeFixed32 :: "u32 \<Rightarrow> bytes" where
  "EncodeFixed32 v =
     [ucast v, ucast (drop_bit 8 v), ucast (drop_bit 16 v), ucast (drop_bit 24 v)]"

definition EncodeFixed64 :: "u64 \<Rightarrow> bytes" where
  "EncodeFixed64 v =
     [ucast v, ucast (drop_bit 8 v), ucast (drop_bit 16 v), ucast (drop_bit 24 v),
      ucast (drop_bit 32 v), ucast (drop_bit 40 v), ucast (drop_bit 48 v), ucast (drop_bit 56 v)]"

definition DecodeFixed32 :: "bytes \<Rightarrow> u32" where
  "DecodeFixed32 b =
     ucast (b ! 0) OR push_bit 8 (ucast (b ! 1)) OR push_bit 16 (ucast (b ! 2))
     OR push_bit 24 (ucast (b ! 3))"

definition DecodeFixed64 :: "bytes \<Rightarrow> u64" where
  "DecodeFixed64 b =
     ucast (b ! 0) OR push_bit 8 (ucast (b ! 1)) OR push_bit 16 (ucast (b ! 2))
     OR push_bit 24 (ucast (b ! 3)) OR push_bit 32 (ucast (b ! 4)) OR push_bit 40 (ucast (b ! 5))
     OR push_bit 48 (ucast (b ! 6)) OR push_bit 56 (ucast (b ! 7))"

definition PutFixed32 :: "bytes \<Rightarrow> u32 \<Rightarrow> bytes" where
  "PutFixed32 dst value = dst @ EncodeFixed32 value"

definition PutFixed64 :: "bytes \<Rightarrow> u64 \<Rightarrow> bytes" where
  "PutFixed64 dst value = dst @ EncodeFixed64 value"

section \<open>Variable-length integers\<close>

definition EncodeVarint32 :: "u32 \<Rightarrow> bytes" where
  "EncodeVarint32 v =
     (if v < 2 ^ 7 then [ucast v]
      else if v < 2 ^ 14 then [ucast (v OR 128), ucast (drop_bit 7 v)]
      else if v < 2 ^ 21 then
        [ucast (v OR 128), ucast (drop_bit 7 v OR 128), ucast (drop_bit 14 v)]
      else if v < 2 ^ 28 then
        [ucast (v OR 128), ucast (drop_bit 7 v OR 128), ucast (drop_bit 14 v OR 128),
         ucast (drop_bit 21 v)]
      else
        [ucast (v OR 128), ucast (drop_bit 7 v OR 128), ucast (drop_bit 14 v OR 128),
         ucast (drop_bit 21 v OR 128), ucast (drop_bit 28 v)])"

definition PutVarint32 :: "bytes \<Rightarrow> u32 \<Rightarrow> bytes" where
  "PutVarint32 dst v = dst @ EncodeVarint32 v"

lemma varint_measure: "\<not> v < 128 \<Longrightarrow> unat (drop_bit 7 (v::u64)) < unat v"
  by (simp add: unat_drop_bit_div word_less_nat_alt)

function EncodeVarint64 :: "u64 \<Rightarrow> bytes" where
  "EncodeVarint64 v =
     (if v < 128 then [ucast v] else ucast (v OR 128) # EncodeVarint64 (drop_bit 7 v))"
  by auto
termination by (relation "measure unat") (simp_all add: varint_measure)

definition PutVarint64 :: "bytes \<Rightarrow> u64 \<Rightarrow> bytes" where
  "PutVarint64 dst v = dst @ EncodeVarint64 v"

function VarintLength :: "u64 \<Rightarrow> nat" where
  "VarintLength v = (if v < 128 then 1 else Suc (VarintLength (drop_bit 7 v)))"
  by auto
termination by (relation "measure unat") (simp_all add: varint_measure)

declare EncodeVarint64.simps [simp del] VarintLength.simps [simp del]

text \<open>The loops of the two decoders; \<^verbatim>\<open>shift\<close> and \<^verbatim>\<open>result\<close> are the loop variables.\<close>

fun GetVarint32PtrFallback_loop :: "bytes \<Rightarrow> nat \<Rightarrow> u32 \<Rightarrow> (u32 \<times> bytes) option" where
  "GetVarint32PtrFallback_loop [] shift result = None"
| "GetVarint32PtrFallback_loop (b # p) shift result =
     (if shift \<le> 28 then
        let byte = ucast b :: u32 in
        if byte AND 128 \<noteq> 0
        then GetVarint32PtrFallback_loop p (shift + 7) (result OR push_bit shift (byte AND 127))
        else Some (result OR push_bit shift byte, p)
      else None)"

definition GetVarint32PtrFallback :: "bytes \<Rightarrow> (u32 \<times> bytes) option" where
  "GetVarint32PtrFallback p = GetVarint32PtrFallback_loop p 0 0"

definition GetVarint32Ptr :: "bytes \<Rightarrow> (u32 \<times> bytes) option" where
  "GetVarint32Ptr p =
     (case p of
        [] \<Rightarrow> GetVarint32PtrFallback p
      | b # q \<Rightarrow>
          (let result = ucast b :: u32 in
           if result AND 128 = 0 then Some (result, q) else GetVarint32PtrFallback p))"

definition GetVarint32 :: "bytes \<Rightarrow> (u32 \<times> bytes) option" where
  "GetVarint32 input = GetVarint32Ptr input"

fun GetVarint64Ptr_loop :: "bytes \<Rightarrow> nat \<Rightarrow> u64 \<Rightarrow> (u64 \<times> bytes) option" where
  "GetVarint64Ptr_loop [] shift result = None"
| "GetVarint64Ptr_loop (b # p) shift result =
     (if shift \<le> 63 then
        let byte = ucast b :: u64 in
        if byte AND 128 \<noteq> 0
        then GetVarint64Ptr_loop p (shift + 7) (result OR push_bit shift (byte AND 127))
        else Some (result OR push_bit shift byte, p)
      else None)"

definition GetVarint64Ptr :: "bytes \<Rightarrow> (u64 \<times> bytes) option" where
  "GetVarint64Ptr p = GetVarint64Ptr_loop p 0 0"

definition GetVarint64 :: "bytes \<Rightarrow> (u64 \<times> bytes) option" where
  "GetVarint64 input = GetVarint64Ptr input"

section \<open>Length-prefixed slices\<close>

text \<open>
  \<^verbatim>\<open>value.size()\<close> is passed to a \<^verbatim>\<open>uint32_t\<close> parameter, so the prefix is the
  length modulo \<^verbatim>\<open>2^32\<close>.  A failing \<^verbatim>\<open>GetLengthPrefixedSlice\<close> may have advanced
  its input past the length; every caller gives up on failure, so the model
  returns \<^verbatim>\<open>None\<close>.
\<close>

definition PutLengthPrefixedSlice :: "bytes \<Rightarrow> bytes \<Rightarrow> bytes" where
  "PutLengthPrefixedSlice dst value = PutVarint32 dst (of_nat (length value)) @ value"

definition GetLengthPrefixedSlice :: "bytes \<Rightarrow> (bytes \<times> bytes) option" where
  "GetLengthPrefixedSlice input =
     (case GetVarint32 input of
        None \<Rightarrow> None
      | Some (len, rest) \<Rightarrow>
          if unat len \<le> length rest then Some (take (unat len) rest, drop (unat len) rest)
          else None)"

section \<open>Round trips of the fixed-width codecs\<close>

lemma length_EncodeFixed32 [simp, codec]: "length (EncodeFixed32 v) = 4"
  by (simp add: EncodeFixed32_def)

lemma length_EncodeFixed64 [simp, codec]: "length (EncodeFixed64 v) = 8"
  by (simp add: EncodeFixed64_def)

lemma fixed_join:
  fixes v :: "'a::len word"
  assumes "8 \<le> LENGTH('a)"
  shows "push_bit k (ucast (ucast (drop_bit k v) :: byte)) OR push_bit (k + 8) (drop_bit (k + 8) v)
    = push_bit k (drop_bit k v)"
proof -
  have "(ucast (ucast (drop_bit k v) :: byte) :: 'a word) = take_bit 8 (drop_bit k v)"
    using assms by (intro bit_eqI) (auto simp: bit_simps)
  then show ?thesis
    using push_bit_join [of k 8 "drop_bit k v"] by (simp add: add.commute)
qed

lemma fixed_last:
  fixes v :: "'a::len word"
  assumes "k + 8 = LENGTH('a)"
  shows "push_bit k (ucast (ucast (drop_bit k v) :: byte)) = push_bit k (drop_bit k v)"
  using assms by (intro bit_eqI) (auto simp: bit_simps)

lemma DecodeFixed32_Encode [simp, codec]: "DecodeFixed32 (EncodeFixed32 v @ rest) = v"
  using fixed_join [of 0 v] fixed_join [of 8 v] fixed_join [of 16 v] fixed_last [of 24 v]
  by (simp add: DecodeFixed32_def EncodeFixed32_def)

lemma DecodeFixed64_Encode [simp, codec]: "DecodeFixed64 (EncodeFixed64 v @ rest) = v"
  using fixed_join [of 0 v] fixed_join [of 8 v] fixed_join [of 16 v] fixed_join [of 24 v]
    fixed_join [of 32 v] fixed_join [of 40 v] fixed_join [of 48 v] fixed_last [of 56 v]
  by (simp add: DecodeFixed64_def EncodeFixed64_def)

lemma DecodeFixed32_Encode' [simp, codec]: "DecodeFixed32 (EncodeFixed32 v) = v"
  using DecodeFixed32_Encode [of v "[]"] by simp

lemma DecodeFixed64_Encode' [simp, codec]: "DecodeFixed64 (EncodeFixed64 v) = v"
  using DecodeFixed64_Encode [of v "[]"] by simp

section \<open>Round trips of the variable-length codecs\<close>

lemma varint_cont_bit32: "(ucast (ucast ((v::u64) OR 128) :: byte) :: u32) AND 128 \<noteq> 0"
proof -
  have "bit ((ucast (ucast (v OR 128) :: byte) :: u32) AND 128) 7"
    by (simp add: bit_simps bit_word_128)
  then show ?thesis by (rule contrapos_pn) simp
qed

lemma varint_cont_bit64: "(ucast (ucast ((v::u64) OR 128) :: byte) :: u64) AND 128 \<noteq> 0"
proof -
  have "bit ((ucast (ucast (v OR 128) :: byte) :: u64) AND 128) 7"
    by (simp add: bit_simps bit_word_128)
  then show ?thesis by (rule contrapos_pn) simp
qed

lemma varint_payload: "(ucast (ucast ((v::u64) OR 128) :: byte) :: u64) AND 127 = take_bit 7 v"
  unfolding word_127_mask take_bit_eq_mask [symmetric]
  by (rule bit_eqI) (auto simp: bit_simps bit_word_128)

lemma varint_payload32:
  "(ucast (ucast ((v::u64) OR 128) :: byte) :: u32) AND 127 = take_bit 7 (ucast v)"
  unfolding word_127_mask take_bit_eq_mask [symmetric]
  by (rule bit_eqI) (auto simp: bit_simps bit_word_128)

lemma varint_last_bits:
  assumes "(v::u64) < 128"
  shows "\<not> (ucast (ucast v :: byte) :: u64) AND 128 \<noteq> 0" "(ucast (ucast v :: byte) :: u64) = v"
    and "\<not> (ucast (ucast v :: byte) :: u32) AND 128 \<noteq> 0" "(ucast (ucast v :: byte) :: u32) = ucast v"
proof -
  have t: "take_bit 7 v = v"
    using assms by (intro take_bit_word_small) (simp add: word_less_nat_alt)
  have b: "bit v n \<Longrightarrow> n < 7" for n
    using arg_cong [OF t, of "\<lambda>w. bit w n"] by (simp add: bit_simps)
  show "\<not> (ucast (ucast v :: byte) :: u64) AND 128 \<noteq> 0"
    and "\<not> (ucast (ucast v :: byte) :: u32) AND 128 \<noteq> 0"
    unfolding not_not
    by (rule bit_eqI, auto simp: bit_simps bit_word_128 dest: b)+
  show "(ucast (ucast v :: byte) :: u64) = v" "(ucast (ucast v :: byte) :: u32) = ucast v"
    by (rule bit_eqI, force simp: bit_simps dest: b)+
qed

lemma GetVarint64Ptr_loop_Encode:
  "s \<le> 63 \<Longrightarrow> unat v < 2 ^ (64 - s) \<Longrightarrow>
   GetVarint64Ptr_loop (EncodeVarint64 v @ rest) s r = Some (r OR push_bit s v, rest)"
proof (induction v arbitrary: s r rule: EncodeVarint64.induct)
  case (1 v)
  show ?case
  proof (cases "v < 128")
    case True
    with 1 varint_last_bits [OF True] show ?thesis
      by (subst EncodeVarint64.simps) (simp add: Let_def)
  next
    case False
    then have big: "2 ^ 7 \<le> unat v" by (simp add: word_less_nat_alt)
    with "1.prems"(2) have "(2::nat) ^ 7 < 2 ^ (64 - s)" by linarith
    then have s: "s + 7 < 64" by (subst (asm) power_strict_increasing_iff) auto
    have "64 - s = 64 - (s + 7) + 7" using s by simp
    then have eq: "(2::nat) ^ (64 - s) = 2 ^ (64 - (s + 7)) * 2 ^ 7"
      by (simp only: power_add)
    have "unat (drop_bit 7 v) < 2 ^ (64 - (s + 7))"
      using "1.prems"(2) unfolding unat_drop_bit_div eq by (rule less_mult_imp_div_less)
    then have "GetVarint64Ptr_loop (EncodeVarint64 (drop_bit 7 v) @ rest) (s + 7)
        (r OR push_bit s (take_bit 7 v)) =
      Some ((r OR push_bit s (take_bit 7 v)) OR push_bit (s + 7) (drop_bit 7 v), rest)"
      using s "1.IH" [OF False, of "s + 7"] by simp
    then show ?thesis
      using False s by (subst EncodeVarint64.simps)
        (simp add: Let_def varint_cont_bit64 varint_payload push_bit_join or.assoc)
  qed
qed

lemma GetVarint32PtrFallback_loop_Encode:
  "s \<le> 28 \<Longrightarrow> unat v < 2 ^ (32 - s) \<Longrightarrow> s mod 7 = 0 \<Longrightarrow>
   GetVarint32PtrFallback_loop (EncodeVarint64 v @ rest) s r =
     Some (r OR push_bit s (ucast v), rest)"
proof (induction v arbitrary: s r rule: EncodeVarint64.induct)
  case (1 v)
  show ?case
  proof (cases "v < 128")
    case True
    with 1 varint_last_bits [OF True] show ?thesis
      by (subst EncodeVarint64.simps) (simp add: Let_def)
  next
    case False
    then have big: "2 ^ 7 \<le> unat v" by (simp add: word_less_nat_alt)
    with "1.prems"(2) have "(2::nat) ^ 7 < 2 ^ (32 - s)" by linarith
    then have "s + 7 < 32" by (subst (asm) power_strict_increasing_iff) auto
    then have s: "s + 7 \<le> 28" "(s + 7) mod 7 = 0" using "1.prems"(3) by presburger+
    have "32 - s = 32 - (s + 7) + 7" using s by simp
    then have eq: "(2::nat) ^ (32 - s) = 2 ^ (32 - (s + 7)) * 2 ^ 7"
      by (simp only: power_add)
    have "unat (drop_bit 7 v) < 2 ^ (32 - (s + 7))"
      using "1.prems"(2) unfolding unat_drop_bit_div eq by (rule less_mult_imp_div_less)
    then have "GetVarint32PtrFallback_loop (EncodeVarint64 (drop_bit 7 v) @ rest) (s + 7)
        (r OR push_bit s (take_bit 7 (ucast v))) =
      Some ((r OR push_bit s (take_bit 7 (ucast v))) OR push_bit (s + 7) (ucast (drop_bit 7 v)), rest)"
      using s "1.IH" [OF False, of "s + 7"] by simp
    moreover have "unat v < 2 ^ 32"
      using "1.prems"(2) power_increasing [of "32 - s" 32 "2::nat"] by simp
    then have "take_bit 32 v = v" by (rule take_bit_word_small)
    then have "bit v n \<Longrightarrow> n < 32" for n by (metis bit_take_bit_iff)
    then have "(ucast (drop_bit 7 v) :: u32) = drop_bit 7 (ucast v)"
      by (intro bit_eqI) (fastforce simp: bit_simps)
    ultimately show ?thesis
      using False s by (subst EncodeVarint64.simps)
        (simp add: Let_def varint_cont_bit32 varint_payload32 push_bit_join or.assoc)
  qed
qed

lemma unat_ucast_u64 [simp]: "unat (ucast (v::u32) :: u64) = unat v"
  by (simp add: unsigned_ucast_eq take_bit_nat_eq_self unsigned_less
      order.strict_trans [OF unsigned_less])

lemma EncodeVarint64_step:
  "unat w < 128 \<Longrightarrow> EncodeVarint64 w = [ucast w]"
  "128 \<le> unat w \<Longrightarrow> EncodeVarint64 w = ucast (w OR 128) # EncodeVarint64 (drop_bit 7 w)"
  by (subst EncodeVarint64.simps, simp add: word_less_nat_alt)+

lemma EncodeVarint32_eq: "EncodeVarint32 v = EncodeVarint64 (ucast v)"
proof -
  have d: "(ucast (drop_bit k v OR 128) :: byte) = ucast (drop_bit k (ucast v :: u64) OR 128)"
    "(ucast (drop_bit k v) :: byte) = ucast (drop_bit k (ucast v :: u64))" 
    "(ucast (v OR 128) :: byte) = ucast ((ucast v :: u64) OR 128)"
    "(ucast v :: byte) = ucast (ucast v :: u64)" for k
    by (rule bit_eqI, auto simp: bit_simps bit_word_128 dest: bit_imp_le_length)+
  have u: "unat (drop_bit k (ucast v :: u64)) = unat v div 2 ^ k" for k
    by (simp add: unat_drop_bit_div)
  have l: "unat v < 2 ^ 32" using unsigned_less [of v] by simp
  note rules = d u EncodeVarint64_step word_less_nat_alt div_less_iff_less_mult
    less_eq_div_iff_mult_less_eq EncodeVarint32_def
  consider "unat v < 2 ^ 7" | "2 ^ 7 \<le> unat v" "unat v < 2 ^ 14"
    | "2 ^ 14 \<le> unat v" "unat v < 2 ^ 21" | "2 ^ 21 \<le> unat v" "unat v < 2 ^ 28"
    | "2 ^ 28 \<le> unat v" by linarith
  then show ?thesis
    using l by cases (simp_all add: rules)
qed

lemma GetVarint32Ptr_eq: "GetVarint32Ptr p = GetVarint32PtrFallback p"
  by (cases p) (auto simp: GetVarint32Ptr_def GetVarint32PtrFallback_def Let_def)

lemma GetVarint32_Encode [simp, codec]: "GetVarint32 (EncodeVarint32 v @ rest) = Some (v, rest)"
  using unat_u32_less [of v] by (simp add: GetVarint32_def GetVarint32Ptr_eq
      GetVarint32PtrFallback_def EncodeVarint32_eq GetVarint32PtrFallback_loop_Encode)

lemma GetVarint64_Encode [simp, codec]: "GetVarint64 (EncodeVarint64 v @ rest) = Some (v, rest)"
  using unat_u64_less [of v] by (simp add: GetVarint64_def GetVarint64Ptr_def
      GetVarint64Ptr_loop_Encode)

lemma GetVarint32_Encode' [simp, codec]: "GetVarint32 (EncodeVarint32 v) = Some (v, [])"
  using GetVarint32_Encode [of v "[]"] by simp

lemma GetVarint64_Encode' [simp, codec]: "GetVarint64 (EncodeVarint64 v) = Some (v, [])"
  using GetVarint64_Encode [of v "[]"] by simp

lemma GetLengthPrefixedSlice_Put [simp, codec]:
  "length x < 2 ^ 32 \<Longrightarrow>
   GetLengthPrefixedSlice (EncodeVarint32 (of_nat (length x)) @ x @ rest) = Some (x, rest)"
  by (simp add: GetLengthPrefixedSlice_def unat_of_nat take_bit_nat_eq_self)

section \<open>Lengths\<close>

lemma length_EncodeVarint64 [codec]: "length (EncodeVarint64 v) = VarintLength v"
  by (induction v rule: EncodeVarint64.induct)
    (simp add: EncodeVarint64.simps VarintLength.simps)

lemma length_EncodeVarint32 [codec]: "length (EncodeVarint32 v) = VarintLength (ucast v)"
  by (simp add: EncodeVarint32_eq length_EncodeVarint64)

lemma VarintLength_bound: "unat v < 2 ^ (7 * k) \<Longrightarrow> 0 < k \<Longrightarrow> VarintLength v \<le> k"
proof (induction v arbitrary: k rule: VarintLength.induct)
  case (1 v)
  show ?case
  proof (cases "v < 128")
    case False
    then have "k \<noteq> 1" using 1 by (auto simp: word_less_nat_alt)
    with "1.prems" obtain j where j: "k = Suc j" "0 < j" by (cases k) auto
    have "unat (drop_bit 7 v) < 2 ^ (7 * j)"
      using "1.prems" j by (simp add: unat_drop_bit_div div_less_iff_less_mult power_add)
    with 1 False j show ?thesis by (subst VarintLength.simps) simp
  qed (use 1 in \<open>simp add: VarintLength.simps\<close>)
qed

lemma length_EncodeVarint64_le: "length (EncodeVarint64 v) \<le> 10"
  using unat_u64_less [of v] VarintLength_bound [of v 10] by (simp add: length_EncodeVarint64)

lemma length_EncodeVarint32_le: "length (EncodeVarint32 v) \<le> 5"
  using unat_u32_less [of v] VarintLength_bound [of "ucast v" 5]
  by (simp add: length_EncodeVarint32)

lemma VarintLength_pos [simp]: "0 < VarintLength v"
  by (subst VarintLength.simps) simp

lemma EncodeVarint_not_Nil [simp]: "EncodeVarint32 v \<noteq> []" "EncodeVarint64 w \<noteq> []"
  by (simp_all add: EncodeVarint32_def EncodeVarint64.simps [of w])

section \<open>Decoding stays inside its input\<close>

lemma GetVarint32PtrFallback_loop_suffix:
  "GetVarint32PtrFallback_loop p s r = Some (v, rest) \<Longrightarrow> \<exists>used. p = used @ rest \<and> used \<noteq> []"
  by (induction p s r rule: GetVarint32PtrFallback_loop.induct)
    (auto simp: Let_def split: if_splits intro: exI [of _ "_ # _"])

lemma GetVarint64Ptr_loop_suffix:
  "GetVarint64Ptr_loop p s r = Some (v, rest) \<Longrightarrow> \<exists>used. p = used @ rest \<and> used \<noteq> []"
  by (induction p s r rule: GetVarint64Ptr_loop.induct)
    (auto simp: Let_def split: if_splits intro: exI [of _ "_ # _"])

lemma GetVarint32_suffix: "GetVarint32 p = Some (v, rest) \<Longrightarrow> \<exists>used. p = used @ rest \<and> used \<noteq> []"
  by (simp add: GetVarint32_def GetVarint32Ptr_eq GetVarint32PtrFallback_def
      GetVarint32PtrFallback_loop_suffix)

lemma GetVarint64_suffix: "GetVarint64 p = Some (v, rest) \<Longrightarrow> \<exists>used. p = used @ rest \<and> used \<noteq> []"
  by (simp add: GetVarint64_def GetVarint64Ptr_def GetVarint64Ptr_loop_suffix)

lemma GetVarint32_shorter: "GetVarint32 p = Some (v, rest) \<Longrightarrow> length rest < length p"
  using GetVarint32_suffix by fastforce

lemma GetVarint64_shorter: "GetVarint64 p = Some (v, rest) \<Longrightarrow> length rest < length p"
  using GetVarint64_suffix by fastforce

lemma GetVarint_Nil [simp]: "GetVarint32 [] = None" "GetVarint64 [] = None"
  by (simp_all add: GetVarint32_def GetVarint32Ptr_def GetVarint32PtrFallback_def
      GetVarint64_def GetVarint64Ptr_def)

lemma GetLengthPrefixedSlice_suffix:
  assumes "GetLengthPrefixedSlice p = Some (x, rest)"
  shows "\<exists>used. p = used @ x @ rest \<and> used \<noteq> []"
proof -
  obtain len q where q: "GetVarint32 p = Some (len, q)" "unat len \<le> length q"
    "x = take (unat len) q" "rest = drop (unat len) q"
    using assms by (auto simp: GetLengthPrefixedSlice_def split: option.splits if_splits)
  then have "q = x @ rest" by simp
  with GetVarint32_suffix [OF q(1)] show ?thesis by auto
qed

lemma GetLengthPrefixedSlice_shorter:
  "GetLengthPrefixedSlice p = Some (x, rest) \<Longrightarrow> length rest < length p"
  using GetLengthPrefixedSlice_suffix by fastforce

section \<open>More input does not change a decoded value\<close>

lemma GetVarint32PtrFallback_loop_more:
  "GetVarint32PtrFallback_loop p s r = Some (v, rest) \<Longrightarrow>
   GetVarint32PtrFallback_loop (p @ q) s r = Some (v, rest @ q)"
  by (induction p s r rule: GetVarint32PtrFallback_loop.induct) (auto simp: Let_def split: if_splits)

lemma GetVarint32_more: "GetVarint32 p = Some (v, rest) \<Longrightarrow> GetVarint32 (p @ q) = Some (v, rest @ q)"
  unfolding GetVarint32_def GetVarint32Ptr_eq GetVarint32PtrFallback_def
  by (rule GetVarint32PtrFallback_loop_more)

lemma GetVarint64Ptr_loop_more:
  "GetVarint64Ptr_loop p s r = Some (v, rest) \<Longrightarrow>
   GetVarint64Ptr_loop (p @ q) s r = Some (v, rest @ q)"
  by (induction p s r rule: GetVarint64Ptr_loop.induct) (auto simp: Let_def split: if_splits)

lemma GetVarint64_more: "GetVarint64 p = Some (v, rest) \<Longrightarrow> GetVarint64 (p @ q) = Some (v, rest @ q)"
  unfolding GetVarint64_def GetVarint64Ptr_def by (rule GetVarint64Ptr_loop_more)

lemma GetLengthPrefixedSlice_more:
  assumes "GetLengthPrefixedSlice p = Some (x, rest)"
  shows "GetLengthPrefixedSlice (p @ q) = Some (x, rest @ q)"
proof -
  obtain len r where r: "GetVarint32 p = Some (len, r)" "unat len \<le> length r"
      "x = take (unat len) r" "rest = drop (unat len) r"
    using assms by (auto simp: GetLengthPrefixedSlice_def split: option.splits if_splits)
  from GetVarint32_more [OF r(1), of q] r(2-4) show ?thesis
    by (simp add: GetLengthPrefixedSlice_def)
qed

text \<open>A slice whose encoding is cut short is not decoded.\<close>

lemma GetLengthPrefixedSlice_cut:
  assumes "length x < 2 ^ 32" "n < length (PutLengthPrefixedSlice [] x)"
  shows "GetLengthPrefixedSlice (take n (PutLengthPrefixedSlice [] x)) = None"
proof (cases "GetLengthPrefixedSlice (take n (PutLengthPrefixedSlice [] x))")
  case (Some y)
  obtain z rest where y: "y = (z, rest)" by (cases y)
  have "GetLengthPrefixedSlice (PutLengthPrefixedSlice [] x) =
      Some (z, rest @ drop n (PutLengthPrefixedSlice [] x))"
    using GetLengthPrefixedSlice_more [OF Some [unfolded y], of "drop n (PutLengthPrefixedSlice [] x)"]
    by simp
  moreover have "GetLengthPrefixedSlice (PutLengthPrefixedSlice [] x) = Some (x, [])"
    using GetLengthPrefixedSlice_Put [OF assms(1), of "[]"]
    by (simp add: PutLengthPrefixedSlice_def PutVarint32_def)
  ultimately show ?thesis using assms(2) by simp
qed

lemma PutLengthPrefixedSlice_eq:
  "PutLengthPrefixedSlice dst x = dst @ EncodeVarint32 (of_nat (length x)) @ x"
  by (simp add: PutLengthPrefixedSlice_def PutVarint32_def)

text \<open>
  C12: The variable-length integers round-trip: whatever follows, a decoder gives
  back the encoded value and exactly the bytes after it, a 32-bit value may be
  read by either decoder, the encoding has the length \<^verbatim>\<open>VarintLength\<close> announces,
  at most five or ten bytes, and no proper prefix of a slice decodes.
\<close>

theorem codec_roundtrip:
  "GetVarint32 (PutVarint32 [] v @ rest) = Some (v, rest)
   \<and> GetVarint64 (PutVarint64 [] w @ rest) = Some (w, rest)
   \<and> GetVarint64 (PutVarint32 [] v @ rest) = Some (ucast v, rest)
   \<and> length (PutVarint64 [] w) = VarintLength w \<and> length (PutVarint32 [] v) = VarintLength (ucast v)
   \<and> VarintLength w \<le> 10 \<and> VarintLength (ucast v) \<le> 5
   \<and> (length x < 2 ^ 32 \<longrightarrow>
        GetLengthPrefixedSlice (PutLengthPrefixedSlice [] x @ rest) = Some (x, rest)
        \<and> (\<forall>n < length (PutLengthPrefixedSlice [] x).
              GetLengthPrefixedSlice (take n (PutLengthPrefixedSlice [] x)) = None))"
proof (intro conjI impI)
  show "GetVarint64 (PutVarint32 [] v @ rest) = Some (ucast v, rest)"
    by (simp add: PutVarint32_def EncodeVarint32_eq)
  show "VarintLength w \<le> 10" "VarintLength (ucast v) \<le> 5"
    using length_EncodeVarint64_le [of w] length_EncodeVarint32_le [of v]
    by (simp_all add: length_EncodeVarint64 length_EncodeVarint32)
  assume x: "length x < 2 ^ 32"
  show "GetLengthPrefixedSlice (PutLengthPrefixedSlice [] x @ rest) = Some (x, rest)"
    using GetLengthPrefixedSlice_Put [OF x] by (simp add: PutLengthPrefixedSlice_def PutVarint32_def)
  show "\<forall>n < length (PutLengthPrefixedSlice [] x).
      GetLengthPrefixedSlice (take n (PutLengthPrefixedSlice [] x)) = None"
    using GetLengthPrefixedSlice_cut [OF x] by blast
qed (simp_all add: PutVarint32_def PutVarint64_def length_EncodeVarint64 length_EncodeVarint32)

lemma codec_roundtrip_witness:
  "GetLengthPrefixedSlice (PutLengthPrefixedSlice [] [1, 2] @ [3]) = Some ([1, 2], [3])
   \<and> GetLengthPrefixedSlice (take 2 (PutLengthPrefixedSlice [] [1, 2])) = None"
proof -
  have "length (PutLengthPrefixedSlice [] [1::byte, 2]) = 3" by code_simp
  then show ?thesis using codec_roundtrip [of 0 "[3]" 0 "[1, 2]"] by simp
qed

end
