(* ===== verification/Comparator.thy ===== *)
theory Comparator
  imports Delta_Prelude
begin

text \<open>
  Key comparators: \<^verbatim>\<open>src/utils/comparator.cc\<close> and
  \<^verbatim>\<open>src/utils/include/comparator.h\<close>.  \<^verbatim>\<open>Comparator\<close> is an abstract class; its
  contract is the locale \<^verbatim>\<open>key_comparator\<close> (a three-way comparison that is a
  total preorder) and its extension \<^verbatim>\<open>short_comparator\<close> (the two functions that
  shorten index keys).  \<^verbatim>\<open>BytewiseComparatorImpl\<close> is the implementation.
\<close>

section \<open>The contract\<close>

locale key_comparator =
  fixes cmp :: "'k \<Rightarrow> 'k \<Rightarrow> int"
  assumes cmp_swap: "0 < cmp a b \<longleftrightarrow> cmp b a < 0"
    and cmp_le_trans: "cmp a b \<le> 0 \<Longrightarrow> cmp b c \<le> 0 \<Longrightarrow> cmp a c \<le> 0"
begin

lemma cmp_refl: "cmp a a = 0"
  using cmp_swap [of a a] by linarith

lemma cmp_total: "cmp a b \<le> 0 \<or> cmp b a \<le> 0"
  using cmp_swap [of a b] by linarith

lemma cmp_zero_sym: "cmp a b = 0 \<longleftrightarrow> cmp b a = 0"
  using cmp_swap [of a b] cmp_swap [of b a] by linarith

lemma cmp_le_iff: "cmp a b \<le> 0 \<longleftrightarrow> \<not> cmp b a < 0"
  using cmp_swap [of a b] by linarith

lemma cmp_less_le_trans: "cmp a b < 0 \<Longrightarrow> cmp b c \<le> 0 \<Longrightarrow> cmp a c < 0"
  using cmp_le_trans [of b c a] cmp_le_iff [of c a] cmp_swap [of b a] cmp_le_iff by force

lemma cmp_le_less_trans: "cmp a b \<le> 0 \<Longrightarrow> cmp b c < 0 \<Longrightarrow> cmp a c < 0"
  using cmp_le_trans [of c a b] cmp_le_iff by force

lemma cmp_less_trans: "cmp a b < 0 \<Longrightarrow> cmp b c < 0 \<Longrightarrow> cmp a c < 0"
  using cmp_less_le_trans by force

lemma cmp_zero_left: "cmp a b = 0 \<Longrightarrow> (cmp a c < 0) = (cmp b c < 0)"
  using cmp_zero_sym [of a b] cmp_le_less_trans by force

lemma cmp_zero_right: "cmp a b = 0 \<Longrightarrow> (cmp c a < 0) = (cmp c b < 0)"
  using cmp_zero_sym [of a b] cmp_less_le_trans by force

lemma cmp_zero_trans: "cmp a b = 0 \<Longrightarrow> cmp b c = 0 \<Longrightarrow> cmp a c = 0"
  using cmp_le_trans [of a b c] cmp_le_trans [of c b a] cmp_le_iff [of c a]
    cmp_zero_sym [of a b] cmp_zero_sym [of b c] by linarith

text \<open>A list whose successive elements the comparison keeps strictly increasing.\<close>

abbreviation increasing :: "'k list \<Rightarrow> bool" where
  "increasing \<equiv> sorted_wrt (\<lambda>a b. cmp a b < 0)"

lemma increasing_distinct: "increasing xs \<Longrightarrow> distinct xs"
  by (induction xs) (auto simp: cmp_refl)

lemma increasing_filter_split:
  assumes "increasing (xs @ ys)" "x \<in> set xs" "y \<in> set ys"
  shows "cmp x y < 0"
  using assms by (auto simp: sorted_wrt_append)

end

locale short_comparator = key_comparator cmp
  for cmp :: "bytes \<Rightarrow> bytes \<Rightarrow> int" +
  fixes sep :: "bytes \<Rightarrow> bytes \<Rightarrow> bytes"
    and succ :: "bytes \<Rightarrow> bytes"
  assumes sep_ge: "cmp start limit < 0 \<Longrightarrow> cmp start (sep start limit) \<le> 0"
    and sep_less: "cmp start limit < 0 \<Longrightarrow> cmp (sep start limit) limit < 0"
    and sep_id: "0 \<le> cmp start limit \<Longrightarrow> sep start limit = start"
    and succ_ge: "cmp key (succ key) \<le> 0"
begin

text \<open>
  Why an index block may keep the separator instead of the last key of a data
  block: a target not above a key of the block is not above the separator, and
  a target from the next block on is above it.
\<close>

lemma sep_routes_left:
  "cmp start limit < 0 \<Longrightarrow> cmp t start \<le> 0 \<Longrightarrow> cmp t (sep start limit) \<le> 0"
  using sep_ge cmp_le_trans by blast

lemma sep_routes_right:
  "cmp start limit < 0 \<Longrightarrow> cmp limit t \<le> 0 \<Longrightarrow> cmp (sep start limit) t < 0"
  using sep_less cmp_less_le_trans by blast

end

section \<open>The bytewise comparator\<close>

text \<open>
  \<^verbatim>\<open>std::string_view::compare\<close>: unsigned bytes in order, then the lengths.
  Only the sign of the result is specified; the model returns -1, 0 or 1.
\<close>

fun BytewiseComparatorImpl_Compare :: "bytes \<Rightarrow> bytes \<Rightarrow> int" where
  "BytewiseComparatorImpl_Compare [] [] = 0"
| "BytewiseComparatorImpl_Compare [] (y # ys) = -1"
| "BytewiseComparatorImpl_Compare (x # xs) [] = 1"
| "BytewiseComparatorImpl_Compare (x # xs) (y # ys) =
     (if x < y then -1 else if y < x then 1 else BytewiseComparatorImpl_Compare xs ys)"

definition BytewiseComparatorImpl_FindShortestSeparator :: "bytes \<Rightarrow> bytes \<Rightarrow> bytes" where
  "BytewiseComparatorImpl_FindShortestSeparator start limit =
     (let min_length = min (length start) (length limit);
          diff_index = shared_prefix start limit
      in if diff_index \<ge> min_length then start
         else let diff_byte = start ! diff_index in
              if diff_byte < 0xff \<and> unat diff_byte + 1 < unat (limit ! diff_index)
              then take diff_index start @ [diff_byte + 1]
              else start)"

fun BytewiseComparatorImpl_FindShortSuccessor :: "bytes \<Rightarrow> bytes" where
  "BytewiseComparatorImpl_FindShortSuccessor [] = []"
| "BytewiseComparatorImpl_FindShortSuccessor (b # key) =
     (if b \<noteq> 0xff then [b + 1] else b # BytewiseComparatorImpl_FindShortSuccessor key)"

lemma Bytewise_swap:
  "BytewiseComparatorImpl_Compare b a = - BytewiseComparatorImpl_Compare a b"
  by (induction a b rule: BytewiseComparatorImpl_Compare.induct) auto

lemma Bytewise_eq_0 [simp]: "BytewiseComparatorImpl_Compare a b = 0 \<longleftrightarrow> a = b"
  by (induction a b rule: BytewiseComparatorImpl_Compare.induct) auto

lemma Bytewise_refl [simp]: "BytewiseComparatorImpl_Compare a a = 0"
  by simp

lemma Bytewise_le_trans:
  "BytewiseComparatorImpl_Compare a b \<le> 0 \<Longrightarrow> BytewiseComparatorImpl_Compare b c \<le> 0 \<Longrightarrow>
   BytewiseComparatorImpl_Compare a c \<le> 0"
proof (induction a b arbitrary: c rule: BytewiseComparatorImpl_Compare.induct)
  case (4 x xs y ys)
  then show ?case
    by (cases c) (auto split: if_splits)
qed (case_tac c; auto)+

lemma Bytewise_append [simp]:
  "BytewiseComparatorImpl_Compare (p @ a) (p @ b) = BytewiseComparatorImpl_Compare a b"
  by (induction p) auto

lemma Bytewise_prefix: "BytewiseComparatorImpl_Compare p (p @ a) \<le> 0"
  by (induction p) (cases a; simp)+

lemma byte_plus_one: "b \<noteq> 0xff \<Longrightarrow> unat ((b::byte) + 1) = unat b + 1"
proof -
  assume "b \<noteq> 0xff"
  then have "unat b \<noteq> 255" by (simp add: word_unat_eq_iff)
  with unat_byte_less [of b] show ?thesis by (simp add: unat_word_ariths)
qed

lemma BytewiseComparatorImpl_FindShortestSeparator_cases:
  assumes "BytewiseComparatorImpl_Compare start limit < 0"
  shows "BytewiseComparatorImpl_Compare start
           (BytewiseComparatorImpl_FindShortestSeparator start limit) \<le> 0 \<and>
         BytewiseComparatorImpl_Compare
           (BytewiseComparatorImpl_FindShortestSeparator start limit) limit < 0"
proof (cases "shared_prefix start limit < min (length start) (length limit)")
  case False
  then have "BytewiseComparatorImpl_FindShortestSeparator start limit = start"
    by (auto simp: BytewiseComparatorImpl_FindShortestSeparator_def Let_def not_less min_le_iff_disj)
  with assms show ?thesis by simp
next
  case True
  then obtain p x xs y ys where split: "start = p @ x # xs" "limit = p @ y # ys" "x \<noteq> y"
    "shared_prefix start limit = length p"
    by (rule split_shared_prefix)
  show ?thesis
  proof (cases "x < 0xff \<and> unat x + 1 < unat y")
    case c: True
    then have "unat (x + 1) = unat x + 1" by (intro byte_plus_one) auto
    with c have lt: "x < x + 1" "x + 1 < y" by (simp_all add: word_less_nat_alt)
    have sep: "BytewiseComparatorImpl_FindShortestSeparator start limit = p @ [x + 1]"
      using True c split(4)
      by (simp add: BytewiseComparatorImpl_FindShortestSeparator_def Let_def not_le split(1,2))
    show ?thesis by (simp only: sep) (simp add: split(1,2) lt)
  next
    case False
    then have "BytewiseComparatorImpl_FindShortestSeparator start limit = start"
      using split(4) unfolding BytewiseComparatorImpl_FindShortestSeparator_def Let_def
      by (auto simp: split(1,2))
    with assms show ?thesis by simp
  qed
qed

lemma BytewiseComparatorImpl_FindShortestSeparator_id:
  assumes "0 \<le> BytewiseComparatorImpl_Compare start limit"
  shows "BytewiseComparatorImpl_FindShortestSeparator start limit = start"
proof (cases "shared_prefix start limit < min (length start) (length limit)")
  case True
  then obtain p x xs y ys where split: "start = p @ x # xs" "limit = p @ y # ys" "x \<noteq> y"
    "shared_prefix start limit = length p"
    by (rule split_shared_prefix)
  then have "y < x" using assms by (auto simp: split: if_splits)
  then have "\<not> unat x + 1 < unat y" by (simp add: word_less_nat_alt)
  then show ?thesis
    using split(4) unfolding BytewiseComparatorImpl_FindShortestSeparator_def Let_def
    by (auto simp: split(1,2))
qed (auto simp: BytewiseComparatorImpl_FindShortestSeparator_def Let_def not_less min_le_iff_disj)

lemma BytewiseComparatorImpl_FindShortSuccessor_ge:
  "BytewiseComparatorImpl_Compare key (BytewiseComparatorImpl_FindShortSuccessor key) \<le> 0"
proof (induction key)
  case (Cons b key)
  show ?case
  proof (cases "b = 0xff")
    case False
    then have "b < b + 1" using byte_plus_one [OF False] by (simp add: word_less_nat_alt)
    then show ?thesis using False by simp
  qed (use Cons in simp)
qed simp

lemma length_FindShortest:
  "length (BytewiseComparatorImpl_FindShortestSeparator start limit) \<le> length start"
  "length (BytewiseComparatorImpl_FindShortSuccessor key) \<le> length key"
  by (auto simp: BytewiseComparatorImpl_FindShortestSeparator_def Let_def)
    (induction key; simp)

interpretation bytewise: short_comparator BytewiseComparatorImpl_Compare
    BytewiseComparatorImpl_FindShortestSeparator BytewiseComparatorImpl_FindShortSuccessor
proof unfold_locales
  fix a b c :: bytes
  show "0 < BytewiseComparatorImpl_Compare a b \<longleftrightarrow> BytewiseComparatorImpl_Compare b a < 0"
    by (subst Bytewise_swap) linarith
  show "BytewiseComparatorImpl_Compare a b \<le> 0 \<Longrightarrow> BytewiseComparatorImpl_Compare b c \<le> 0 \<Longrightarrow>
      BytewiseComparatorImpl_Compare a c \<le> 0"
    by (rule Bytewise_le_trans)
qed (simp_all add: BytewiseComparatorImpl_FindShortestSeparator_cases
    BytewiseComparatorImpl_FindShortestSeparator_id BytewiseComparatorImpl_FindShortSuccessor_ge)

end
