(* ===== verification/Dbformat.thy ===== *)
theory Dbformat
  imports Coding Comparator
begin

text \<open>
  Internal keys: \<^verbatim>\<open>src/utils/dbformat.cc\<close> and
  \<^verbatim>\<open>src/utils/include/dbformat.h\<close>.  An internal key is a user key followed by
  an eight byte tag holding a 56-bit sequence number and the value type; the
  internal order is the user order, and for one user key the newest first.
\<close>

section \<open>Data\<close>

datatype ValueType = kTypeDeletion | kTypeValue

primrec ValueType_code :: "ValueType \<Rightarrow> u64" where
  "ValueType_code kTypeDeletion = 0"
| "ValueType_code kTypeValue = 1"

definition kValueTypeForSeek :: ValueType where
  "kValueTypeForSeek = kTypeValue"

definition kMaxSequenceNumber :: u64 where
  "kMaxSequenceNumber = push_bit 56 1 - 1"

record ParsedInternalKey =
  pk_user_key :: bytes
  pk_sequence :: u64
  pk_type :: ValueType

section \<open>Encoding and parsing\<close>

text \<open>
  The two \<^verbatim>\<open>assert\<close>s of \<^verbatim>\<open>PackSequenceAndType\<close> are preconditions: without them
  the shift drops the top byte of the sequence number, as it does here.
\<close>

definition PackSequenceAndType :: "u64 \<Rightarrow> ValueType \<Rightarrow> u64" where
  "PackSequenceAndType seq t = push_bit 8 seq OR ValueType_code t"

definition AppendInternalKey :: "bytes \<Rightarrow> ParsedInternalKey \<Rightarrow> bytes" where
  "AppendInternalKey result key =
     PutFixed64 (result @ pk_user_key key) (PackSequenceAndType (pk_sequence key) (pk_type key))"

text \<open>
  \<^verbatim>\<open>ParseInternalKey\<close>: \<^verbatim>\<open>None\<close> where the code returns \<^verbatim>\<open>false\<close>.  The user key of
  the result is the bytes before the tag; the code makes \<^verbatim>\<open>user_key\<close>, a
  \<^verbatim>\<open>string_view\<close>, point into a temporary \<^verbatim>\<open>std::string\<close> holding these bytes.
\<close>

definition ParseInternalKey :: "bytes \<Rightarrow> ParsedInternalKey option" where
  "ParseInternalKey internal_key =
     (let n = length internal_key in
      if n < 8 then None
      else
        let num = DecodeFixed64 (drop (n - 8) internal_key);
            c = num AND 0xff
        in if c \<le> 1
           then Some \<lparr> pk_user_key = take (n - 8) internal_key,
                       pk_sequence = drop_bit 8 num,
                       pk_type = (if c = 0 then kTypeDeletion else kTypeValue) \<rparr>
           else None)"

definition InternalKeyEncodingLength :: "ParsedInternalKey \<Rightarrow> nat" where
  "InternalKeyEncodingLength key = length (pk_user_key key) + 8"

definition ExtractUserKey :: "bytes \<Rightarrow> bytes" where
  "ExtractUserKey internal_key = take (length internal_key - 8) internal_key"

definition ExtractTag :: "bytes \<Rightarrow> u64" where
  "ExtractTag internal_key = DecodeFixed64 (drop (length internal_key - 8) internal_key)"

text \<open>
  The constructor, \<^verbatim>\<open>DecodeFrom\<close> and \<^verbatim>\<open>SetFrom\<close> of class \<^verbatim>\<open>InternalKey\<close>, whose
  state is the encoded string \<^verbatim>\<open>rep_\<close>.
\<close>

definition InternalKey :: "bytes \<Rightarrow> u64 \<Rightarrow> ValueType \<Rightarrow> bytes" where
  "InternalKey user_key s t =
     AppendInternalKey [] \<lparr> pk_user_key = user_key, pk_sequence = s, pk_type = t \<rparr>"

definition InternalKey_DecodeFrom :: "bytes \<Rightarrow> bytes option" where
  "InternalKey_DecodeFrom s = (if s \<noteq> [] then Some s else None)"

definition InternalKey_SetFrom :: "ParsedInternalKey \<Rightarrow> bytes" where
  "InternalKey_SetFrom p = AppendInternalKey [] p"

section \<open>The internal comparator\<close>

definition InternalKeyComparator_Compare ::
    "(bytes \<Rightarrow> bytes \<Rightarrow> int) \<Rightarrow> bytes \<Rightarrow> bytes \<Rightarrow> int" where
  "InternalKeyComparator_Compare user_compare akey bkey =
     (let r = user_compare (ExtractUserKey akey) (ExtractUserKey bkey) in
      if r = 0 then
        let anum = DecodeFixed64 (drop (length akey - 8) akey);
            bnum = DecodeFixed64 (drop (length bkey - 8) bkey)
        in if anum > bnum then -1 else if anum < bnum then 1 else r
      else r)"

definition InternalKeyComparator_FindShortestSeparator ::
    "(bytes \<Rightarrow> bytes \<Rightarrow> int) \<Rightarrow> (bytes \<Rightarrow> bytes \<Rightarrow> bytes) \<Rightarrow> bytes \<Rightarrow> bytes \<Rightarrow> bytes" where
  "InternalKeyComparator_FindShortestSeparator user_compare user_separator start limit =
     (let user_start = ExtractUserKey start;
          user_limit = ExtractUserKey limit;
          tmp = user_separator user_start user_limit
      in if length tmp < length user_start \<and> user_compare user_start tmp < 0
         then PutFixed64 tmp (PackSequenceAndType kMaxSequenceNumber kValueTypeForSeek)
         else start)"

definition InternalKeyComparator_FindShortSuccessor ::
    "(bytes \<Rightarrow> bytes \<Rightarrow> int) \<Rightarrow> (bytes \<Rightarrow> bytes) \<Rightarrow> bytes \<Rightarrow> bytes" where
  "InternalKeyComparator_FindShortSuccessor user_compare user_successor key =
     (let user_key = ExtractUserKey key;
          tmp = user_successor user_key
      in if length tmp < length user_key \<and> user_compare user_key tmp < 0
         then PutFixed64 tmp (PackSequenceAndType kMaxSequenceNumber kValueTypeForSeek)
         else key)"

section \<open>Lookup keys\<close>

record LookupKey =
  lk_start :: bytes
  lk_kstart :: nat

definition LookupKey_new :: "bytes \<Rightarrow> u64 \<Rightarrow> LookupKey" where
  "LookupKey_new user_key s =
     (let usize = length user_key;
          prefix = EncodeVarint32 (of_nat (usize + 8))
      in \<lparr> lk_start = prefix @ user_key @ EncodeFixed64 (PackSequenceAndType s kValueTypeForSeek),
           lk_kstart = length prefix \<rparr>)"

definition LookupKey_memtable_key :: "LookupKey \<Rightarrow> bytes" where
  "LookupKey_memtable_key k = lk_start k"

definition LookupKey_internal_key :: "LookupKey \<Rightarrow> bytes" where
  "LookupKey_internal_key k = drop (lk_kstart k) (lk_start k)"

definition LookupKey_user_key :: "LookupKey \<Rightarrow> bytes" where
  "LookupKey_user_key k =
     take (length (lk_start k) - lk_kstart k - 8) (drop (lk_kstart k) (lk_start k))"

section \<open>The internal filter policy\<close>

text \<open>
  \<^verbatim>\<open>InternalFilterPolicy\<close> hands the user keys to the wrapped policy.
\<close>

definition InternalFilterPolicy_CreateFilter ::
    "(bytes list \<Rightarrow> bytes \<Rightarrow> bytes) \<Rightarrow> bytes list \<Rightarrow> bytes \<Rightarrow> bytes" where
  "InternalFilterPolicy_CreateFilter user_create keys dst =
     user_create (map ExtractUserKey keys) dst"

definition InternalFilterPolicy_KeyMayMatch ::
    "(bytes \<Rightarrow> bytes \<Rightarrow> bool) \<Rightarrow> bytes \<Rightarrow> bytes \<Rightarrow> bool" where
  "InternalFilterPolicy_KeyMayMatch user_may_match key flt =
     user_may_match (ExtractUserKey key) flt"

section \<open>The parts of an encoded key\<close>

lemma AppendInternalKey_eq:
  "AppendInternalKey result key =
     result @ pk_user_key key @ EncodeFixed64 (PackSequenceAndType (pk_sequence key) (pk_type key))"
  by (simp add: AppendInternalKey_def PutFixed64_def)

lemma InternalKey_eq: "InternalKey u s t = u @ EncodeFixed64 (PackSequenceAndType s t)"
  by (simp add: InternalKey_def AppendInternalKey_eq)

lemma ExtractUserKey_append [simp, codec]: "ExtractUserKey (u @ EncodeFixed64 t) = u"
  by (simp add: ExtractUserKey_def)

lemma ExtractTag_append [simp, codec]: "ExtractTag (u @ EncodeFixed64 t) = t"
  by (simp add: ExtractTag_def)

lemma ExtractUserKey_InternalKey [simp, codec]: "ExtractUserKey (InternalKey u s t) = u"
  by (simp add: InternalKey_eq)

lemma ExtractTag_InternalKey [simp, codec]:
  "ExtractTag (InternalKey u s t) = PackSequenceAndType s t"
  by (simp add: InternalKey_eq)

lemma length_InternalKey [simp, codec]: "length (InternalKey u s t) = length u + 8"
  by (simp add: InternalKey_eq)

lemma length_AppendInternalKey [codec]:
  "length (AppendInternalKey [] key) = InternalKeyEncodingLength key"
  by (simp add: AppendInternalKey_eq InternalKeyEncodingLength_def)

lemma kMaxSequenceNumber_mask: "kMaxSequenceNumber = mask 56"
  by (simp add: kMaxSequenceNumber_def mask_eq_exp_minus_1)

lemma unat_kMaxSequenceNumber: "unat kMaxSequenceNumber = 2 ^ 56 - 1"
  by (simp add: kMaxSequenceNumber_def)

lemma sequence_small: "s \<le> kMaxSequenceNumber \<Longrightarrow> take_bit 56 s = s"
  by (rule take_bit_word_small) (simp add: word_le_nat_alt unat_kMaxSequenceNumber)

lemma ValueType_code_bits: "bit (ValueType_code t) n \<longleftrightarrow> t = kTypeValue \<and> n = 0"
  by (cases t) (simp_all add: bit_1_iff)

lemma Pack_drop [codec]: "s \<le> kMaxSequenceNumber \<Longrightarrow> drop_bit 8 (PackSequenceAndType s t) = s"
proof -
  assume "s \<le> kMaxSequenceNumber"
  then have t: "take_bit 56 s = s" by (rule sequence_small)
  have "bit s n \<Longrightarrow> n < 56" for n
    using arg_cong [OF t, of "\<lambda>w. bit w n"] by (simp add: bit_simps)
  then show ?thesis
    by (intro bit_eqI) (force simp: PackSequenceAndType_def bit_simps ValueType_code_bits)
qed

lemma Pack_type [codec]: "PackSequenceAndType s t AND 0xff = ValueType_code t"
proof -
  have "(0xff::u64) = mask 8" by (simp add: mask_eq_exp_minus_1)
  then show ?thesis
    by (simp only:, intro bit_eqI)
      (auto simp only: PackSequenceAndType_def bit_simps ValueType_code_bits)
qed

lemma unat_Pack:
  assumes "s \<le> kMaxSequenceNumber"
  shows "unat (PackSequenceAndType s t) = unat s * 256 + unat (ValueType_code t)"
proof -
  let ?p = "PackSequenceAndType s t"
  have "unat ?p div 2 ^ 8 = unat s"
    using unat_drop_bit_div [of 8 ?p] Pack_drop [OF assms, of t] by argo
  moreover have "unat ?p mod 2 ^ 8 = unat (ValueType_code t)"
  proof -
    have "(0xff::u64) = mask 8" by (simp add: mask_eq_exp_minus_1)
    then have "take_bit 8 ?p = ValueType_code t"
      using Pack_type [of s t] by (simp add: take_bit_eq_mask)
    then show ?thesis by (metis take_bit_eq_mod unsigned_take_bit_eq)
  qed
  ultimately show ?thesis using div_mult_mod_eq [of "unat ?p" "2 ^ 8"] by simp
qed

lemma Pack_less:
  assumes "s \<le> kMaxSequenceNumber" "s' \<le> kMaxSequenceNumber" "s < s'"
  shows "PackSequenceAndType s t < PackSequenceAndType s' t'"
proof -
  have "unat (ValueType_code t) \<le> 1" by (cases t) simp_all
  with assms show ?thesis by (simp add: word_less_nat_alt unat_Pack)
qed

lemma Pack_le_seek:
  assumes "s \<le> s'" "s' \<le> kMaxSequenceNumber"
  shows "PackSequenceAndType s t \<le> PackSequenceAndType s' kValueTypeForSeek"
proof -
  have "unat (ValueType_code t) \<le> 1" by (cases t) simp_all
  moreover have "unat s \<le> unat s'" using assms by (simp add: word_le_nat_alt)
  ultimately show ?thesis
    using assms by (simp add: word_le_nat_alt unat_Pack kValueTypeForSeek_def)
qed

lemma ParseInternalKey_InternalKey [simp, codec]:
  "s \<le> kMaxSequenceNumber \<Longrightarrow> ParseInternalKey (InternalKey u s t) =
     Some \<lparr> pk_user_key = u, pk_sequence = s, pk_type = t \<rparr>"
  by (cases t) (simp_all add: ParseInternalKey_def InternalKey_eq Let_def Pack_type Pack_drop)

lemma ParseInternalKey_None_iff:
  "ParseInternalKey k = None \<longleftrightarrow> length k < 8 \<or> 1 < ExtractTag k AND 0xff"
  by (auto simp: ParseInternalKey_def ExtractTag_def Let_def)

section \<open>The internal order\<close>

lemma InternalKeyComparator_Compare_eq:
  "InternalKeyComparator_Compare c a b =
     (let r = c (ExtractUserKey a) (ExtractUserKey b) in
      if r \<noteq> 0 then r else if ExtractTag b < ExtractTag a then -1
      else if ExtractTag a < ExtractTag b then 1 else 0)"
  by (simp add: InternalKeyComparator_Compare_def ExtractTag_def Let_def)

lemma internal_key_comparator:
  assumes "key_comparator c"
  shows "key_comparator (InternalKeyComparator_Compare c)"
proof -
  note swap = key_comparator.cmp_swap [OF assms] and zero = key_comparator.cmp_zero_sym [OF assms]
  show ?thesis
  proof
    fix a b k :: bytes
    show "0 < InternalKeyComparator_Compare c a b \<longleftrightarrow> InternalKeyComparator_Compare c b a < 0"
      using swap [of "ExtractUserKey a" "ExtractUserKey b"]
        zero [of "ExtractUserKey a" "ExtractUserKey b"]
      by (auto simp: InternalKeyComparator_Compare_eq Let_def)
    assume "InternalKeyComparator_Compare c a b \<le> 0" "InternalKeyComparator_Compare c b k \<le> 0"
    then show "InternalKeyComparator_Compare c a k \<le> 0"
      using key_comparator.cmp_less_le_trans [OF assms, of "ExtractUserKey a" "ExtractUserKey b" "ExtractUserKey k"]
        key_comparator.cmp_le_less_trans [OF assms, of "ExtractUserKey a" "ExtractUserKey b" "ExtractUserKey k"]
        key_comparator.cmp_zero_trans [OF assms, of "ExtractUserKey a" "ExtractUserKey b" "ExtractUserKey k"]
      by (auto simp: InternalKeyComparator_Compare_eq Let_def split: if_splits)
  qed
qed

lemma internal_short_comparator:
  assumes "short_comparator c sep suc"
  shows "short_comparator (InternalKeyComparator_Compare c)
    (InternalKeyComparator_FindShortestSeparator c sep)
    (InternalKeyComparator_FindShortSuccessor c suc)"
proof -
  have kc: "key_comparator c" using assms by (rule short_comparator.axioms)
  note ik = internal_key_comparator [OF kc] and [simp] = key_comparator.cmp_refl [OF kc]
  have refl: "InternalKeyComparator_Compare c a a = 0" for a
    using key_comparator.cmp_refl [OF ik] .
  show ?thesis
  proof (intro short_comparator.intro ik short_comparator_axioms.intro)
    fix start limit :: bytes
    let ?s = "ExtractUserKey start" and ?l = "ExtractUserKey limit"
    let ?sep = "InternalKeyComparator_FindShortestSeparator c sep start limit"
    assume less: "InternalKeyComparator_Compare c start limit < 0"
    show "InternalKeyComparator_Compare c start ?sep \<le> 0"
      by (auto simp: InternalKeyComparator_FindShortestSeparator_def Let_def refl PutFixed64_def
          InternalKeyComparator_Compare_eq)
    have "c ?s ?l < 0 \<or> c ?s ?l = 0"
      using less by (auto simp: InternalKeyComparator_Compare_eq Let_def split: if_splits)
    then show "InternalKeyComparator_Compare c ?sep limit < 0"
      using less short_comparator.sep_less [OF assms, of ?s ?l]
        short_comparator.sep_id [OF assms, of ?s ?l]
      by (auto simp: InternalKeyComparator_FindShortestSeparator_def Let_def PutFixed64_def
          InternalKeyComparator_Compare_eq)
  next
    fix start limit :: bytes
    assume "0 \<le> InternalKeyComparator_Compare c start limit"
    then have "0 \<le> c (ExtractUserKey start) (ExtractUserKey limit)"
      by (auto simp: InternalKeyComparator_Compare_eq Let_def split: if_splits)
    then show "InternalKeyComparator_FindShortestSeparator c sep start limit = start"
      using short_comparator.sep_id [OF assms]
      by (simp add: InternalKeyComparator_FindShortestSeparator_def Let_def)
  next
    fix key :: bytes
    show "InternalKeyComparator_Compare c key (InternalKeyComparator_FindShortSuccessor c suc key) \<le> 0"
      by (auto simp: InternalKeyComparator_FindShortSuccessor_def Let_def refl PutFixed64_def
          InternalKeyComparator_Compare_eq)
  qed
qed

text \<open>
  The comparators of the configuration: \<^verbatim>\<open>gDBConfig->comparator\<close> is the
  bytewise one and \<^verbatim>\<open>gDBConfig->internal_comparator\<close> wraps it.
\<close>

abbreviation ucmp :: "bytes \<Rightarrow> bytes \<Rightarrow> int" where
  "ucmp \<equiv> BytewiseComparatorImpl_Compare"

abbreviation icmp :: "bytes \<Rightarrow> bytes \<Rightarrow> int" where
  "icmp \<equiv> InternalKeyComparator_Compare BytewiseComparatorImpl_Compare"

abbreviation isep :: "bytes \<Rightarrow> bytes \<Rightarrow> bytes" where
  "isep \<equiv> InternalKeyComparator_FindShortestSeparator BytewiseComparatorImpl_Compare
     BytewiseComparatorImpl_FindShortestSeparator"

abbreviation isucc :: "bytes \<Rightarrow> bytes" where
  "isucc \<equiv> InternalKeyComparator_FindShortSuccessor BytewiseComparatorImpl_Compare
     BytewiseComparatorImpl_FindShortSuccessor"

interpretation internal: short_comparator icmp isep isucc
  by (rule internal_short_comparator) (rule bytewise.short_comparator_axioms)

lemma icmp_InternalKey [simp]:
  "icmp (InternalKey u s t) (InternalKey u s' t') =
     (if PackSequenceAndType s' t' < PackSequenceAndType s t then -1
      else if PackSequenceAndType s t < PackSequenceAndType s' t' then 1 else 0)"
  by (simp add: InternalKeyComparator_Compare_eq Let_def)

lemma icmp_user_less: "ucmp (ExtractUserKey a) (ExtractUserKey b) < 0 \<Longrightarrow> icmp a b < 0"
  by (auto simp: InternalKeyComparator_Compare_eq Let_def simp del: Bytewise_eq_0)

lemma icmp_user_le: "icmp a b \<le> 0 \<Longrightarrow> ucmp (ExtractUserKey a) (ExtractUserKey b) \<le> 0"
  by (auto simp: InternalKeyComparator_Compare_eq Let_def split: if_splits)

lemma ValueType_code_inject [simp]: "ValueType_code t = ValueType_code t' \<longleftrightarrow> t = t'"
  by (cases t; cases t') simp_all

lemma Pack_inject:
  "s \<le> kMaxSequenceNumber \<Longrightarrow> s' \<le> kMaxSequenceNumber \<Longrightarrow>
   PackSequenceAndType s t = PackSequenceAndType s' t' \<longleftrightarrow> s = s' \<and> t = t'"
  by (metis Pack_drop Pack_type ValueType_code_inject)

lemma icmp_zero_InternalKey:
  "icmp (InternalKey u s t) (InternalKey u' s' t') = 0 \<longleftrightarrow> InternalKey u s t = InternalKey u' s' t'"
proof
  assume "icmp (InternalKey u s t) (InternalKey u' s' t') = 0"
  then have "u = u'" "PackSequenceAndType s t = PackSequenceAndType s' t'"
    by (auto simp: InternalKeyComparator_Compare_eq Let_def split: if_splits)
  then show "InternalKey u s t = InternalKey u' s' t'" by (simp add: InternalKey_eq)
qed (simp add: internal.cmp_refl)

lemma InternalKey_inject:
  assumes "s \<le> kMaxSequenceNumber" "s' \<le> kMaxSequenceNumber"
  shows "InternalKey u s t = InternalKey u' s' t' \<longleftrightarrow> u = u' \<and> s = s' \<and> t = t'"
proof
  assume eq: "InternalKey u s t = InternalKey u' s' t'"
  have "u = u'" using arg_cong [OF eq, of ExtractUserKey] by simp
  moreover have "PackSequenceAndType s t = PackSequenceAndType s' t'"
    using arg_cong [OF eq, of ExtractTag] by simp
  ultimately show "u = u' \<and> s = s' \<and> t = t'" using Pack_inject [OF assms] by simp
qed simp

section \<open>Lookup keys\<close>

lemma LookupKey_memtable_key_eq [codec]:
  "LookupKey_memtable_key (LookupKey_new u s) =
     EncodeVarint32 (of_nat (length u + 8)) @ InternalKey u s kValueTypeForSeek"
  by (simp add: LookupKey_memtable_key_def LookupKey_new_def Let_def InternalKey_eq)

lemma LookupKey_internal_key_eq [simp, codec]:
  "LookupKey_internal_key (LookupKey_new u s) = InternalKey u s kValueTypeForSeek"
  by (simp add: LookupKey_internal_key_def LookupKey_new_def Let_def InternalKey_eq)

lemma LookupKey_user_key_eq [simp, codec]: "LookupKey_user_key (LookupKey_new u s) = u"
  by (simp add: LookupKey_user_key_def LookupKey_new_def Let_def)

text \<open>
  The point of the tag order: for one user key, the entries a snapshot sees
  are exactly those at or after its lookup key.
\<close>

lemma lookup_key_visible:
  assumes "s \<le> kMaxSequenceNumber" "snap \<le> kMaxSequenceNumber"
  shows "icmp (LookupKey_internal_key (LookupKey_new u snap)) (InternalKey u s t) \<le> 0
    \<longleftrightarrow> s \<le> snap"
proof
  assume "s \<le> snap"
  then have "PackSequenceAndType s t \<le> PackSequenceAndType snap kValueTypeForSeek"
    using assms by (intro Pack_le_seek) auto
  then show "icmp (LookupKey_internal_key (LookupKey_new u snap)) (InternalKey u s t) \<le> 0"
    by (auto simp: not_less)
next
  assume le: "icmp (LookupKey_internal_key (LookupKey_new u snap)) (InternalKey u s t) \<le> 0"
  show "s \<le> snap"
  proof (rule ccontr)
    assume "\<not> s \<le> snap"
    then have "PackSequenceAndType snap kValueTypeForSeek < PackSequenceAndType s t"
      using assms by (intro Pack_less) auto
    with le show False using order.asym by fastforce
  qed
qed

text \<open>
  C10: The keys an index block stores route every lookup.  For internal keys with
  \<^verbatim>\<open>start\<close> before \<^verbatim>\<open>limit\<close>, the shortened separator is not before a target that
  is not after \<^verbatim>\<open>start\<close> and before every target from \<^verbatim>\<open>limit\<close> on, its user key
  is not longer than that of \<^verbatim>\<open>start\<close>, and the short successor is not before
  its key.
\<close>

theorem internal_separator:
  assumes "icmp start limit < 0"
  shows "(icmp t start \<le> 0 \<longrightarrow> icmp t (isep start limit) \<le> 0)
    \<and> (icmp limit t \<le> 0 \<longrightarrow> icmp (isep start limit) t < 0)
    \<and> length (ExtractUserKey (isep start limit)) \<le> length (ExtractUserKey start)
    \<and> icmp start (isucc start) \<le> 0"
proof -
  have "length (ExtractUserKey (isep start limit)) \<le> length (ExtractUserKey start)"
    using length_FindShortest(1) [of "ExtractUserKey start" "ExtractUserKey limit"]
    by (simp add: InternalKeyComparator_FindShortestSeparator_def Let_def PutFixed64_def)
  then show ?thesis
    using internal.sep_routes_left [OF assms] internal.sep_routes_right [OF assms] internal.succ_ge
    by blast
qed

lemma internal_separator_witness:
  "let a = InternalKey [1, 5, 9] 7 kTypeValue; b = InternalKey [1, 8] 3 kTypeValue
   in icmp a (isep a b) \<le> 0 \<and> icmp (isep a b) b < 0 \<and> length (ExtractUserKey (isep a b)) \<le> 3"
proof -
  let ?a = "InternalKey [1, 5, 9] 7 kTypeValue" and ?b = "InternalKey [1, 8] 3 kTypeValue"
  have "icmp ?a ?b < 0" by (simp add: InternalKeyComparator_Compare_eq Let_def)
  from internal_separator [OF this, of ?a] internal_separator [OF this, of ?b]
    internal.cmp_refl [of ?a] internal.cmp_refl [of ?b]
  show ?thesis by (simp add: Let_def)
qed

end
