(* ===== verification/Status.thy ===== *)
theory Status
  imports Coding
begin

text \<open>
  The result codes of \<^verbatim>\<open>src/utils/status.cc\<close> and
  \<^verbatim>\<open>src/utils/include/status.h\<close>.  The rest of the development uses the
  datatype \<^verbatim>\<open>Status\<close>; the packed string \<^verbatim>\<open>state_\<close> the class keeps is modelled
  here and related to it.  Messages are byte strings.
\<close>

datatype Code = kNotFound | kCorruption | kNotSupported | kInvalidArgument | kIOError

datatype Status = Status_OK | Status_Error Code bytes

primrec Code_value :: "Code \<Rightarrow> byte" where
  "Code_value kNotFound = 1"
| "Code_value kCorruption = 2"
| "Code_value kNotSupported = 3"
| "Code_value kInvalidArgument = 4"
| "Code_value kIOError = 5"

definition text_bytes :: "string \<Rightarrow> bytes" where
  "text_bytes s = map of_char s"

definition Status_new :: "Code \<Rightarrow> bytes \<Rightarrow> bytes \<Rightarrow> Status" where
  "Status_new c msg msg2 =
     Status_Error c (msg @ (if 0 < length msg2 then 0x3A # msg2 else []))"

definition ok :: "Status \<Rightarrow> bool" where
  "ok s = (s = Status_OK)"

definition Status_code :: "Status \<Rightarrow> Code option" where
  "Status_code s = (case s of Status_OK \<Rightarrow> None | Status_Error c m \<Rightarrow> Some c)"

definition IsNotFound :: "Status \<Rightarrow> bool" where
  "IsNotFound s = (Status_code s = Some kNotFound)"

definition IsCorruption :: "Status \<Rightarrow> bool" where
  "IsCorruption s = (Status_code s = Some kCorruption)"

definition IsIOError :: "Status \<Rightarrow> bool" where
  "IsIOError s = (Status_code s = Some kIOError)"

abbreviation NotFound :: "string \<Rightarrow> Status" where
  "NotFound msg \<equiv> Status_new kNotFound (text_bytes msg) []"

abbreviation Corruption :: "string \<Rightarrow> Status" where
  "Corruption msg \<equiv> Status_new kCorruption (text_bytes msg) []"

abbreviation InvalidArgument :: "string \<Rightarrow> Status" where
  "InvalidArgument msg \<equiv> Status_new kInvalidArgument (text_bytes msg) []"

abbreviation IOError :: "string \<Rightarrow> Status" where
  "IOError msg \<equiv> Status_new kIOError (text_bytes msg) []"

text \<open>
  An operating-system error: the error number is either \<^verbatim>\<open>ENOENT\<close> or another
  one, whose text \<^verbatim>\<open>strerror\<close> gives.
\<close>

datatype errno = ENOENT | Errno bytes

definition PosixError :: "bytes \<Rightarrow> errno \<Rightarrow> Status" where
  "PosixError ctxt error_number =
     (case error_number of
        ENOENT \<Rightarrow> Status_new kNotFound ctxt (text_bytes ''No such file or directory'')
      | Errno m \<Rightarrow> Status_new kIOError ctxt m)"

lemma ok_simps [simp]: "ok Status_OK" "\<not> ok (Status_Error c m)" "\<not> ok (Status_new c a b)"
  "\<not> ok (PosixError x e)"
  by (simp_all add: ok_def Status_new_def PosixError_def split: errno.split)

lemma not_ok_cases: "\<not> ok s \<Longrightarrow> \<exists>c m. s = Status_Error c m"
  by (cases s) simp_all

section \<open>The packed representation\<close>

text \<open>
  \<^verbatim>\<open>state_\<close>: a code byte, the length of the message as four little-endian
  bytes, the message.  \<^verbatim>\<open>nullptr\<close>, the state of success, is \<^verbatim>\<open>None\<close>.
\<close>

definition Status_state :: "Code \<Rightarrow> bytes \<Rightarrow> bytes \<Rightarrow> bytes" where
  "Status_state c msg msg2 =
     (let len1 = of_nat (length msg) :: u32;
          len2 = of_nat (length msg2) :: u32;
          total_len = len1 + (if len2 > 0 then 1 + len2 else 0)
      in Code_value c #
         [ucast (total_len AND 0xff), ucast (drop_bit 8 total_len AND 0xff),
          ucast (drop_bit 16 total_len AND 0xff), ucast (drop_bit 24 total_len AND 0xff)]
         @ take (unat len1) msg @ (if len2 > 0 then 0x3A # take (unat len2) msg2 else []))"

definition CopyState :: "bytes \<Rightarrow> bytes" where
  "CopyState s = take (unat (1 + 4 + DecodeFixed32 (drop 1 s))) s"

definition Status_ToString :: "bytes option \<Rightarrow> bytes" where
  "Status_ToString state =
     (case state of
        None \<Rightarrow> text_bytes ''OK''
      | Some s \<Rightarrow>
          (let c = s ! 0;
               code_name = (if c = 0 then ''OK'' else if c = 1 then ''NotFound''
                 else if c = 2 then ''Corruption'' else if c = 3 then ''NotSupported''
                 else if c = 4 then ''InvalidArgument'' else if c = 5 then ''IOError''
                 else ''Unknown'')
           in text_bytes code_name @ 0x5B # take (unat (DecodeFixed32 (drop 1 s))) (drop 5 s)
              @ [0x5D]))"

definition Status_abs :: "bytes option \<Rightarrow> Status" where
  "Status_abs state =
     (case state of
        None \<Rightarrow> Status_OK
      | Some s \<Rightarrow>
          Status_Error
            (if s ! 0 = 1 then kNotFound else if s ! 0 = 2 then kCorruption
             else if s ! 0 = 3 then kNotSupported else if s ! 0 = 4 then kInvalidArgument
             else kIOError)
            (take (unat (DecodeFixed32 (drop 1 s))) (drop 5 s)))"

lemma ucast_and_ff: "(ucast ((w::u32) AND 0xff) :: byte) = ucast w"
proof -
  have "(0xff::u32) = mask 8" by (simp add: mask_eq_exp_minus_1)
  then show ?thesis by (simp only:) (rule bit_eqI, auto simp only: bit_simps, auto)
qed

lemma Status_state_eq:
  assumes "length msg + 1 + length msg2 < 2 ^ 32"
  shows "Status_state c msg msg2 =
    (let m = msg @ (if 0 < length msg2 then 0x3A # msg2 else [])
     in Code_value c # EncodeFixed32 (of_nat (length m)) @ m)"
proof -
  have "unat (of_nat (length msg) :: u32) = length msg"
    "unat (of_nat (length msg2) :: u32) = length msg2"
    using assms by (simp_all add: unat_of_nat take_bit_nat_eq_self)
  moreover from this have "0 < (of_nat (length msg2) :: u32) \<longleftrightarrow> msg2 \<noteq> []"
    by (metis length_0_conv unat_gt_0 word_gt_0_no unsigned_0 gr_zeroI word_neq_0_conv)
  ultimately show ?thesis
    by (auto simp: Status_state_def Let_def EncodeFixed32_def ucast_and_ff ac_simps)
qed

lemma Status_state_refines:
  assumes "length msg + 1 + length msg2 < 2 ^ 32"
  shows "Status_abs (Some (Status_state c msg msg2)) = Status_new c msg msg2"
proof -
  let ?m = "msg @ (if 0 < length msg2 then 0x3A # msg2 else [])"
  have l: "unat (of_nat (length ?m) :: u32) = length ?m"
    using assms by (auto simp: unat_of_nat take_bit_nat_eq_self simp del: of_nat_add of_nat_Suc)
  have "drop 5 (Code_value c # EncodeFixed32 n @ ?m) = ?m" for n
    by (simp add: EncodeFixed32_def)
  then show ?thesis
    unfolding Status_state_eq [OF assms] Let_def Status_abs_def
    using l by (cases c) (simp_all add: Status_new_def)
qed

lemma CopyState_Status_state:
  assumes "length msg + 6 + length msg2 < 2 ^ 32"
  shows "CopyState (Status_state c msg msg2) = Status_state c msg msg2"
proof -
  let ?m = "msg @ (if 0 < length msg2 then 0x3A # msg2 else [])"
  have "1 + 4 + of_nat (length ?m) = (of_nat (5 + length ?m) :: u32)" by simp
  then have l: "unat (1 + 4 + of_nat (length ?m) :: u32) = 5 + length ?m"
    using assms by (auto simp: unat_of_nat take_bit_nat_eq_self simp del: of_nat_add of_nat_Suc)
  have a: "length msg + 1 + length msg2 < 2 ^ 32" using assms by simp
  show ?thesis
    unfolding Status_state_eq [OF a] Let_def CopyState_def
    using l by simp
qed

end
