(* ===== verification/Util.thy ===== *)
theory Util
  imports Status
begin

text \<open>
  Helpers of \<^verbatim>\<open>src/utils/include/util.h\<close>: the decimal parser of file names, the
  hash of the caches and bloom filters, the pseudo-random generator, and the
  atomic-file writer.
\<close>

section \<open>Decimal numbers\<close>

definition kMaxUint64 :: u64 where "kMaxUint64 = - 1"

text \<open>
  The loop of \<^verbatim>\<open>ConsumeDecimalNumber\<close>: \<^verbatim>\<open>None\<close> is the return on overflow, and
  otherwise the value and the bytes not consumed.  53 is the character of the
  last digit of the largest value, 48 plus 18446744073709551615 mod 10.
\<close>

fun ConsumeDecimalNumber_loop :: "bytes \<Rightarrow> u64 \<Rightarrow> (u64 \<times> bytes) option" where
  "ConsumeDecimalNumber_loop [] v = Some (v, [])"
| "ConsumeDecimalNumber_loop (ch # cs) v =
     (if ch < 48 \<or> ch > 57 then Some (v, ch # cs)
      else if v > kMaxUint64 div 10 \<or> (v = kMaxUint64 div 10 \<and> ch > 53) then None
      else ConsumeDecimalNumber_loop cs (v * 10 + ucast (ch - 48)))"

text \<open>
  \<^verbatim>\<open>ConsumeDecimalNumber\<close> returns whether a digit was consumed; on overflow it
  returns \<^verbatim>\<open>false\<close> and leaves its input alone.
\<close>

definition ConsumeDecimalNumber :: "bytes \<Rightarrow> bool \<times> u64 option \<times> bytes" where
  "ConsumeDecimalNumber inp =
     (case ConsumeDecimalNumber_loop inp 0 of
        None \<Rightarrow> (False, None, inp)
      | Some (v, rest) \<Rightarrow> (length rest \<noteq> length inp, Some v, rest))"

section \<open>Hash\<close>

function Hash_loop :: "bytes \<Rightarrow> u32 \<Rightarrow> u32 \<times> bytes" where
  "Hash_loop data h =
     (if 4 \<le> length data then
        let h1 = (h + DecodeFixed32 data) * 0xc6a4a793
        in Hash_loop (drop 4 data) (h1 XOR drop_bit 16 h1)
      else (h, data))"
  by auto
termination by (relation "measure (\<lambda>(data, h). length data)") auto

declare Hash_loop.simps [simp del]

definition Hash :: "bytes \<Rightarrow> u32 \<Rightarrow> u32" where
  "Hash data seed =
     (let m = 0xc6a4a793;
          (h, tail) = Hash_loop data (seed XOR (of_nat (length data) * m));
          h3 = (if length tail = 3 then h + push_bit 16 (ucast (tail ! 2)) else h);
          h2 = (if 2 \<le> length tail then h3 + push_bit 8 (ucast (tail ! 1)) else h3);
          h1 = (if 1 \<le> length tail then
                  (let g = (h2 + ucast (tail ! 0)) * m in g XOR drop_bit 24 g)
                else h2)
      in h1)"

section \<open>Pseudo-random numbers\<close>

definition Random_new :: "u32 \<Rightarrow> u32" where
  "Random_new s =
     (let seed = s AND 0x7fffffff in if seed = 0 \<or> seed = 2147483647 then 1 else seed)"

text \<open>\<^verbatim>\<open>Next\<close> returns the new seed, which is also its state.\<close>

definition Random_Next :: "u32 \<Rightarrow> u32" where
  "Random_Next seed =
     (let M = 2147483647 :: u32;
          product = ucast seed * 16807 :: u64;
          s = ucast (drop_bit 31 product + (product AND ucast M)) :: u32
      in if s > M then s - M else s)"

definition Random_OneIn :: "u32 \<Rightarrow> u32 \<Rightarrow> bool \<times> u32" where
  "Random_OneIn n seed = (let s = Random_Next seed in (s mod n = 0, s))"

definition Random_Uniform :: "u32 \<Rightarrow> u32 \<Rightarrow> u32 \<times> u32" where
  "Random_Uniform n seed = (let s = Random_Next seed in (s mod n, s))"

section \<open>Decimal numbers: correctness\<close>

definition decimal_value :: "bytes \<Rightarrow> nat" where
  "decimal_value ds = foldl (\<lambda>v d. 10 * v + (unat d - 48)) 0 ds"

definition is_digit :: "byte \<Rightarrow> bool" where
  "is_digit c \<longleftrightarrow> 48 \<le> c \<and> c \<le> 57"

lemma foldl_decimal_mono:
  "foldl (\<lambda>v d. 10 * v + (unat (d::byte) - 48)) v ds \<ge> v"
proof (induction ds arbitrary: v)
  case (Cons d ds)
  from Cons.IH [of "10 * v + (unat d - 48)"] show ?case by simp
qed simp

lemma ConsumeDecimalNumber_loop_value:
  assumes "\<forall>d\<in>set ds. is_digit d" "rest = [] \<or> \<not> is_digit (hd rest)"
  shows "ConsumeDecimalNumber_loop (ds @ rest) v =
    (if foldl (\<lambda>v d. 10 * v + (unat d - 48)) (unat v) ds < 2 ^ 64
     then Some (of_nat (foldl (\<lambda>v d. 10 * v + (unat d - 48)) (unat v) ds), rest) else None)"
  using assms(1)
proof (induction ds arbitrary: v)
  case Nil
  then show ?case
    using assms(2) unat_u64_less [of v]
    by (cases rest) (auto simp: is_digit_def not_le)
next
  case (Cons d ds)
  have d: "48 \<le> unat d" "unat d \<le> 57" "\<not> d < 48" "\<not> 57 < d"
    using Cons.prems by (auto simp: is_digit_def word_le_nat_alt word_less_nat_alt)
  have m: "unat (kMaxUint64 div 10) = 1844674407370955161"
    by (simp add: kMaxUint64_def unat_div unsigned_minus_1_eq_mask mask_eq_exp_minus_1)
  have over: "(v > kMaxUint64 div 10 \<or> (v = kMaxUint64 div 10 \<and> d > 53)) \<longleftrightarrow>
      2 ^ 64 \<le> 10 * unat v + (unat d - 48)"
    using d m by (auto simp: word_less_nat_alt word_unat_eq_iff)
  show ?case
  proof (cases "2 ^ 64 \<le> 10 * unat v + (unat d - 48)")
    case True
    moreover have "foldl (\<lambda>v d. 10 * v + (unat d - 48)) (10 * unat v + (unat d - 48)) ds
        \<ge> 10 * unat v + (unat d - 48)" by (rule foldl_decimal_mono)
    ultimately show ?thesis using over d by simp
  next
    case False
    have u: "unat (v * 10 + ucast (d - 48) :: u64) = 10 * unat v + (unat d - 48)"
    proof -
      have "unat (d - 48) = unat d - 48" using d by (simp add: unat_sub_if_size word_le_nat_alt)
      then show ?thesis
        using False unat_byte_less [of "d - 48"]
        by (simp add: unat_word_ariths unsigned_ucast_eq take_bit_nat_eq_self)
    qed
    have no: "\<not> (v > kMaxUint64 div 10 \<or> (v = kMaxUint64 div 10 \<and> d > 53))"
      using False over by blast
    have "ConsumeDecimalNumber_loop (d # ds @ rest) v =
        ConsumeDecimalNumber_loop (ds @ rest) (v * 10 + ucast (d - 48))"
      by (simp only: ConsumeDecimalNumber_loop.simps d(3,4) no simp_thms if_False)
    then show ?thesis
      using Cons.IH [of "v * 10 + ucast (d - 48)"] Cons.prems by (simp add: u)
  qed
qed

lemma ConsumeDecimalNumber_digits:
  assumes "\<forall>d\<in>set ds. is_digit d" "rest = [] \<or> \<not> is_digit (hd rest)"
  shows "ConsumeDecimalNumber (ds @ rest) =
    (if decimal_value ds < 2 ^ 64 then (ds \<noteq> [], Some (of_nat (decimal_value ds)), rest)
     else (False, None, ds @ rest))"
  using ConsumeDecimalNumber_loop_value [OF assms, of 0]
  by (simp add: ConsumeDecimalNumber_def decimal_value_def)

lemma ConsumeDecimalNumber_no_digit:
  "inp = [] \<or> \<not> is_digit (hd inp) \<Longrightarrow> ConsumeDecimalNumber inp = (False, Some 0, inp)"
  using ConsumeDecimalNumber_digits [of "[]" inp] by (simp add: decimal_value_def)

section \<open>Random numbers: correctness\<close>

text \<open>
  The reduction with shift, mask and one conditional subtraction computes the
  remainder modulo 2147483647, and never leaves the range of valid seeds.
\<close>

lemma mult_16807_mod:
  assumes "0 < s" "s < 2147483647"
  shows "(16807 * s) mod 2147483647 \<noteq> (0::nat)"
proof
  assume "(16807 * s) mod 2147483647 = (0::nat)"
  then have "2147483647 dvd (16807 * s)" by (simp only: mod_eq_0_iff_dvd)
  then have "2147483647 dvd (16807 * s) * 1407677000 - 2147483647 * (11017 * s)"
    by (intro dvd_diff_nat dvd_mult2 [of _ "16807 * s"] dvd_triv_left)
  also have "(16807 * s) * 1407677000 - 2147483647 * (11017 * s) = s" by simp
  finally show False using assms nat_dvd_not_less by blast
qed

lemma Random_Next_mod:
  assumes "0 < seed" "seed < 2147483647"
  shows "unat (Random_Next seed) = (16807 * unat seed) mod 2147483647"
proof -
  define p where "p = 16807 * unat seed"
  have seed: "0 < unat seed" "unat seed < 2147483647"
    using assms by (simp_all add: word_less_nat_alt)
  define P where "P = (ucast seed * 16807 :: u64)"
  have up: "unat P = p"
    using seed by (simp add: P_def unat_word_ariths p_def mult.commute)
  have mask: "(ucast (2147483647::u32) :: u64) = mask 31" by (simp add: mask_eq_exp_minus_1)
  define q r where "q = p div 2 ^ 31" and "r = p mod 2 ^ 31"
  have q: "q < 2 ^ 15" and r: "r < 2 ^ 31" and pqr: "p = q * 2 ^ 31 + r"
    using seed by (simp_all add: q_def r_def p_def div_less_iff_less_mult)
  have a: "unat (drop_bit 31 P) = q" by (simp add: unat_drop_bit_div up q_def)
  have b: "unat (P AND ucast (2147483647::u32)) = r"
    unfolding mask take_bit_eq_mask [symmetric] unsigned_take_bit_eq up by (simp add: take_bit_eq_mod r_def)
  have "unat (drop_bit 31 P + (P AND ucast (2147483647::u32))) = q + r"
    using q r by (simp only: unat_word_ariths a b) simp
  then have s: "unat (ucast (drop_bit 31 P + (P AND ucast (2147483647::u32))) :: u32) = q + r"
    using q r by (simp only: unsigned_ucast_eq) (simp add: take_bit_nat_eq_self)
  have modM: "p mod 2147483647 = (q + r) mod 2147483647"
  proof -
    have "p = q + r + q * 2147483647" using pqr by simp
    then show ?thesis by (simp only: mod_mult_self1)
  qed
  have "q + r \<noteq> 2147483647"
    using mult_16807_mod [OF seed] modM by (auto simp: p_def)
  moreover define w where "w = (ucast (drop_bit 31 P + (P AND ucast (2147483647::u32))) :: u32)"
  ultimately have "unat (if w > 2147483647 then w - 2147483647 else w) = (q + r) mod 2147483647"
    using q r s by (simp add: word_less_nat_alt unat_sub_if_size mod_if)
  then have "unat (Random_Next seed) = (q + r) mod 2147483647"
    unfolding Random_Next_def Let_def P_def [symmetric] w_def .
  then show ?thesis using modM by (simp add: p_def)
qed

section \<open>Properties\<close>

text \<open>
  C13: \<^verbatim>\<open>ConsumeDecimalNumber\<close> computes the value of the leading digits and stops at
  the first other byte; when the value does not fit in 64 bits it returns false
  and consumes nothing.
\<close>

theorem ConsumeDecimalNumber_exact:
  assumes "\<forall>d\<in>set ds. is_digit d" "rest = [] \<or> \<not> is_digit (hd rest)"
  shows "ConsumeDecimalNumber (ds @ rest) =
    (if decimal_value ds < 2 ^ 64 then (ds \<noteq> [], Some (of_nat (decimal_value ds)), rest)
     else (False, None, ds @ rest))"
  by (rule ConsumeDecimalNumber_digits [OF assms])

lemma ConsumeDecimalNumber_exact_witness:
  "ConsumeDecimalNumber [48, 49, 50, 46, 55] = (True, Some 12, [46, 55])
   \<and> ConsumeDecimalNumber [57, 57, 57, 57, 57, 57, 57, 57, 57, 57, 57, 57, 57, 57, 57, 57, 57, 57, 57, 57] =
     (False, None, [57, 57, 57, 57, 57, 57, 57, 57, 57, 57, 57, 57, 57, 57, 57, 57, 57, 57, 57, 57])"
proof -
  have "ConsumeDecimalNumber ([48, 49, 50] @ [46, 55]) = (True, Some 12, [46, 55])"
    by (subst ConsumeDecimalNumber_exact) (simp_all add: is_digit_def decimal_value_def)
  moreover have "ConsumeDecimalNumber ([57, 57, 57, 57, 57, 57, 57, 57, 57, 57, 57, 57, 57, 57, 57, 57, 57, 57, 57, 57] @ []) =
     (False, None, [57, 57, 57, 57, 57, 57, 57, 57, 57, 57, 57, 57, 57, 57, 57, 57, 57, 57, 57, 57] @ [])"
    by (subst ConsumeDecimalNumber_exact) (simp_all add: is_digit_def decimal_value_def)
  ultimately show ?thesis by simp
qed

text \<open>
  C14: The shift-and-add reduction of \<^verbatim>\<open>Random::Next\<close> is the remainder modulo
  2147483647, and a generator never leaves the range of valid seeds, whatever
  number it was created with.
\<close>

theorem Random_Next_exact:
  "0 < Random_new s \<and> Random_new s < 2147483647
   \<and> (0 < seed \<and> seed < 2147483647 \<longrightarrow>
        unat (Random_Next seed) = (16807 * unat seed) mod 2147483647
        \<and> 0 < Random_Next seed \<and> Random_Next seed < 2147483647)"
proof (intro conjI impI)
  let ?r = "s AND 0x7fffffff"
  have "?r = take_bit 31 s" by (simp add: take_bit_eq_mask mask_eq_exp_minus_1)
  then have "unat ?r < 2 ^ 31" by (simp only: unsigned_take_bit_eq take_bit_nat_less_exp)
  then have "?r \<noteq> 2147483647 \<Longrightarrow> ?r < 2147483647"
    unfolding word_less_nat_alt word_unat_eq_iff by simp
  then have "0 < Random_new s \<and> Random_new s < 2147483647"
    by (simp add: Random_new_def Let_def word_gt_0)
  then show "0 < Random_new s" "Random_new s < 2147483647" by blast+
next
  assume s: "0 < seed \<and> seed < 2147483647"
  then show eq: "unat (Random_Next seed) = (16807 * unat seed) mod 2147483647"
    by (intro Random_Next_mod) auto
  show "Random_Next seed < 2147483647" using eq by (simp add: word_less_nat_alt)
  have "(16807 * unat seed) mod 2147483647 \<noteq> 0"
    using s by (intro mult_16807_mod) (auto simp: word_less_nat_alt)
  then show "0 < Random_Next seed" using eq by (simp add: word_less_nat_alt)
qed

lemma Random_Next_exact_witness:
  "unat (Random_Next 1000000007) = (16807 * 1000000007) mod 2147483647 \<and> 0 < Random_Next 1000000007"
  using Random_Next_exact [of 0 1000000007] by simp

end
