(* ===== verification/Skiplist.thy ===== *)
theory Skiplist
  imports Comparator Util
begin

text \<open>
  The skip list of \<^verbatim>\<open>src/utils/include/skiplist.h\<close>.  Nodes are numbered in the
  order they are created, 0 is \<^verbatim>\<open>head_\<close>; \<^verbatim>\<open>sk_next n i\<close> is \<^verbatim>\<open>next_[i]\<close> of node
  \<^verbatim>\<open>n\<close>, \<^verbatim>\<open>None\<close> the null pointer.  The searches run along pointers that could
  form a cycle, so they are partial functions: \<^verbatim>\<open>None\<close> means that the loop does
  not end, and the lemmas show that on a well-formed list it does.  Memory
  ordering between threads is not modelled.
\<close>

section \<open>The structure and its operations\<close>

record 'k SkipList =
  sk_next :: "nat \<Rightarrow> nat \<Rightarrow> nat option"
  sk_keys :: "'k list"
  sk_max_height :: nat
  sk_rnd :: u32

definition kMaxHeight :: nat where "kMaxHeight = 12"

definition node_key :: "'k SkipList \<Rightarrow> nat \<Rightarrow> 'k" where
  "node_key sl n = sk_keys sl ! (n - 1)"

definition SkipList_new :: "'k SkipList" where
  "SkipList_new =
     \<lparr> sk_next = (\<lambda>n i. None), sk_keys = [], sk_max_height = 1, sk_rnd = Random_new 0xdeadbeef \<rparr>"

function RandomHeight_loop :: "nat \<Rightarrow> u32 \<Rightarrow> nat \<times> u32" where
  "RandomHeight_loop height rnd =
     (if height < kMaxHeight then
        let r = Random_Next rnd in
        if r mod 4 = 0 then RandomHeight_loop (height + 1) r else (height, r)
      else (height, rnd))"
  by auto
termination by (relation "measure (\<lambda>(height, rnd). kMaxHeight - height)") auto

declare RandomHeight_loop.simps [simp del]

definition RandomHeight :: "u32 \<Rightarrow> nat \<times> u32" where
  "RandomHeight rnd = RandomHeight_loop 1 rnd"

definition KeyIsAfterNode :: "('k \<Rightarrow> 'k \<Rightarrow> int) \<Rightarrow> 'k SkipList \<Rightarrow> 'k \<Rightarrow> nat option \<Rightarrow> bool" where
  "KeyIsAfterNode compare sl key n =
     (case n of None \<Rightarrow> False | Some m \<Rightarrow> compare (node_key sl m) key < 0)"

partial_function (option) FindGreaterOrEqual_loop ::
    "('k \<Rightarrow> 'k \<Rightarrow> int) \<Rightarrow> 'k SkipList \<Rightarrow> 'k \<Rightarrow> nat \<Rightarrow> nat \<Rightarrow> (nat \<Rightarrow> nat) \<Rightarrow>
     (nat option \<times> (nat \<Rightarrow> nat)) option"
where
  "FindGreaterOrEqual_loop compare sl key x level prev =
     (let nxt = sk_next sl x level in
      if KeyIsAfterNode compare sl key nxt
      then FindGreaterOrEqual_loop compare sl key (the nxt) level prev
      else if level = 0 then Some (nxt, prev(level := x))
      else FindGreaterOrEqual_loop compare sl key x (level - 1) (prev(level := x)))"

definition FindGreaterOrEqual ::
    "('k \<Rightarrow> 'k \<Rightarrow> int) \<Rightarrow> 'k SkipList \<Rightarrow> 'k \<Rightarrow> (nat option \<times> (nat \<Rightarrow> nat)) option" where
  "FindGreaterOrEqual compare sl key =
     FindGreaterOrEqual_loop compare sl key 0 (sk_max_height sl - 1) (\<lambda>i. 0)"

partial_function (option) FindLessThan_loop ::
    "('k \<Rightarrow> 'k \<Rightarrow> int) \<Rightarrow> 'k SkipList \<Rightarrow> 'k \<Rightarrow> nat \<Rightarrow> nat \<Rightarrow> nat option" where
  "FindLessThan_loop compare sl key x level =
     (let nxt = sk_next sl x level in
      if nxt = None \<or> compare (node_key sl (the nxt)) key \<ge> 0
      then if level = 0 then Some x else FindLessThan_loop compare sl key x (level - 1)
      else FindLessThan_loop compare sl key (the nxt) level)"

definition FindLessThan :: "('k \<Rightarrow> 'k \<Rightarrow> int) \<Rightarrow> 'k SkipList \<Rightarrow> 'k \<Rightarrow> nat option" where
  "FindLessThan compare sl key = FindLessThan_loop compare sl key 0 (sk_max_height sl - 1)"

partial_function (option) FindLast_loop :: "'k SkipList \<Rightarrow> nat \<Rightarrow> nat \<Rightarrow> nat option" where
  "FindLast_loop sl x level =
     (let nxt = sk_next sl x level in
      if nxt = None then if level = 0 then Some x else FindLast_loop sl x (level - 1)
      else FindLast_loop sl (the nxt) level)"

definition FindLast :: "'k SkipList \<Rightarrow> nat option" where
  "FindLast sl = FindLast_loop sl 0 (sk_max_height sl - 1)"

text \<open>Linking the new node into the levels below its height.\<close>

fun link_levels :: "nat \<Rightarrow> (nat \<Rightarrow> nat) \<Rightarrow> nat list \<Rightarrow> (nat \<Rightarrow> nat \<Rightarrow> nat option) \<Rightarrow> (nat \<Rightarrow> nat \<Rightarrow> nat option)"
where
  "link_levels x prev [] nx = nx"
| "link_levels x prev (i # is) nx =
     (let nx1 = nx(x := (nx x)(i := nx (prev i) i));
          nx2 = nx1(prev i := (nx1 (prev i))(i := Some x))
      in link_levels x prev is nx2)"

definition SkipList_Insert :: "('k \<Rightarrow> 'k \<Rightarrow> int) \<Rightarrow> 'k SkipList \<Rightarrow> 'k \<Rightarrow> 'k SkipList option" where
  "SkipList_Insert compare sl key =
     (case FindGreaterOrEqual compare sl key of
        None \<Rightarrow> None
      | Some (x0, prev) \<Rightarrow>
          (let (height, rnd) = RandomHeight (sk_rnd sl);
               prev1 = (\<lambda>i. if sk_max_height sl \<le> i \<and> i < height then 0 else prev i);
               x = length (sk_keys sl) + 1
           in Some (sl\<lparr>sk_next := link_levels x prev1 [0..<height] (sk_next sl),
                       sk_keys := sk_keys sl @ [key],
                       sk_max_height := max (sk_max_height sl) height,
                       sk_rnd := rnd\<rparr>)))"

definition SkipList_Contains :: "('k \<Rightarrow> 'k \<Rightarrow> int) \<Rightarrow> 'k SkipList \<Rightarrow> 'k \<Rightarrow> bool option" where
  "SkipList_Contains compare sl key =
     (case FindGreaterOrEqual compare sl key of
        None \<Rightarrow> None
      | Some (x, prev) \<Rightarrow>
          Some (case x of None \<Rightarrow> False | Some n \<Rightarrow> compare key (node_key sl n) = 0))"

text \<open>The iterator: its state is the node it stands at.\<close>

definition SkipIter_Next :: "'k SkipList \<Rightarrow> nat \<Rightarrow> nat option" where
  "SkipIter_Next sl n = sk_next sl n 0"

definition SkipIter_Prev :: "('k \<Rightarrow> 'k \<Rightarrow> int) \<Rightarrow> 'k SkipList \<Rightarrow> nat \<Rightarrow> nat option option" where
  "SkipIter_Prev compare sl n =
     (case FindLessThan compare sl (node_key sl n) of
        None \<Rightarrow> None
      | Some m \<Rightarrow> Some (if m = 0 then None else Some m))"

definition SkipIter_Seek :: "('k \<Rightarrow> 'k \<Rightarrow> int) \<Rightarrow> 'k SkipList \<Rightarrow> 'k \<Rightarrow> nat option option" where
  "SkipIter_Seek compare sl target =
     (case FindGreaterOrEqual compare sl target of None \<Rightarrow> None | Some (x, prev) \<Rightarrow> Some x)"

definition SkipIter_SeekToFirst :: "'k SkipList \<Rightarrow> nat option" where
  "SkipIter_SeekToFirst sl = sk_next sl 0 0"

definition SkipIter_SeekToLast :: "'k SkipList \<Rightarrow> nat option option" where
  "SkipIter_SeekToLast sl =
     (case FindLast sl of None \<Rightarrow> None | Some m \<Rightarrow> Some (if m = 0 then None else Some m))"

section \<open>Chains of nodes\<close>

definition opt_hd :: "'a list \<Rightarrow> 'a option" where
  "opt_hd xs = (case xs of [] \<Rightarrow> None | x # _ \<Rightarrow> Some x)"

lemma opt_hd_simps [simp]: "opt_hd [] = None" "opt_hd (x # xs) = Some x"
  by (simp_all add: opt_hd_def)

fun chain :: "(nat \<Rightarrow> nat option) \<Rightarrow> nat \<Rightarrow> nat list \<Rightarrow> bool" where
  "chain nx x [] \<longleftrightarrow> nx x = None"
| "chain nx x (y # ys) \<longleftrightarrow> nx x = Some y \<and> chain nx y ys"

lemma chain_suffix: "chain nx x (us @ y # vs) \<Longrightarrow> chain nx y vs"
  by (induction us arbitrary: x) auto

lemma chain_next: "chain nx x vs \<Longrightarrow> nx (last (x # takeWhile P vs)) = opt_hd (dropWhile P vs)"
proof (induction vs arbitrary: x)
  case (Cons v vs)
  then show ?case by (cases "P v") auto
qed simp

lemma chain_unique: "chain nx x xs \<Longrightarrow> chain nx x ys \<Longrightarrow> xs = ys"
proof (induction xs arbitrary: x ys)
  case Nil then show ?case by (cases ys) auto
next
  case (Cons a xs) then show ?case by (cases ys) auto
qed

lemma chain_cong:
  "chain nx x xs \<Longrightarrow> (\<And>n. n \<in> set (x # xs) \<Longrightarrow> nx' n = nx n) \<Longrightarrow> chain nx' x xs"
  by (induction xs arbitrary: x) auto

text \<open>Inserting a fresh node behind a prefix.\<close>

lemma chain_insert:
  assumes "chain nx x (us @ vs)" "distinct (x # us @ vs)" "z \<notin> set (x # us @ vs)"
    and "nx' z = opt_hd vs" "nx' (last (x # us)) = Some z"
    and "\<And>n. n \<noteq> z \<Longrightarrow> n \<noteq> last (x # us) \<Longrightarrow> nx' n = nx n"
  shows "chain nx' x (us @ z # vs)"
  using assms
proof (induction us arbitrary: x)
  case Nil
  have "chain nx' z vs"
  proof (cases vs)
    case (Cons v vs')
    with Nil have "chain nx v vs'" by simp
    moreover have "nx' n = nx n" if "n \<in> set vs" for n
      using Nil.prems(6) [of n] Nil.prems(2,3) that by auto
    ultimately have "chain nx' v vs'" using Cons by (auto elim: chain_cong)
    with Cons Nil show ?thesis by simp
  qed (use Nil in simp)
  with Nil show ?case by simp
next
  case (Cons u us)
  have "chain nx' u (us @ z # vs)"
    by (rule Cons.IH) (use Cons.prems in auto)
  moreover have "x \<noteq> last (u # us)" using Cons.prems(2) last_in_set [of "u # us"] by auto
  ultimately show ?case using Cons.prems by auto
qed

section \<open>The invariant\<close>

text \<open>
  \<^verbatim>\<open>L i\<close> is the list of the nodes of level \<^verbatim>\<open>i\<close>: each level is a chain from the
  head in strictly increasing key order, a part of the level below, and empty
  from the current height on.
\<close>

definition skip_inv :: "('k \<Rightarrow> 'k \<Rightarrow> int) \<Rightarrow> 'k SkipList \<Rightarrow> (nat \<Rightarrow> nat list) \<Rightarrow> bool" where
  "skip_inv compare sl L \<longleftrightarrow>
     1 \<le> sk_max_height sl \<and> sk_max_height sl \<le> kMaxHeight
     \<and> (\<forall>i. chain (\<lambda>n. sk_next sl n i) 0 (L i))
     \<and> (\<forall>i. set (L (Suc i)) \<subseteq> set (L i))
     \<and> (\<forall>i. sk_max_height sl \<le> i \<longrightarrow> L i = [])
     \<and> (\<forall>n\<in>set (L 0). 1 \<le> n \<and> n \<le> length (sk_keys sl))
     \<and> (\<forall>i. sorted_wrt (\<lambda>a b. compare (node_key sl a) (node_key sl b) < 0) (L i))"

definition skip_keys :: "'k SkipList \<Rightarrow> (nat \<Rightarrow> nat list) \<Rightarrow> 'k list" where
  "skip_keys sl L = map (node_key sl) (L 0)"

lemma skip_inv_new [wf]: "skip_inv compare SkipList_new (\<lambda>i. [])"
  by (simp add: skip_inv_def SkipList_new_def kMaxHeight_def)

lemma RandomHeight_loop_bounds:
  "h \<le> kMaxHeight \<Longrightarrow> RandomHeight_loop h r = (h', r') \<Longrightarrow> h \<le> h' \<and> h' \<le> kMaxHeight"
proof (induction h r rule: RandomHeight_loop.induct)
  case (1 h r)
  then show ?case
    by (subst (asm) (2) RandomHeight_loop.simps)
      (fastforce simp: Let_def split: if_splits)
qed

lemma RandomHeight_bounds: "RandomHeight r = (h, r') \<Longrightarrow> 1 \<le> h \<and> h \<le> kMaxHeight"
  using RandomHeight_loop_bounds [of 1 r h r'] by (simp add: RandomHeight_def kMaxHeight_def)

lemma skip_inv_level:
  assumes "skip_inv compare sl L"
  shows "set (L (i + j)) \<subseteq> set (L i)" "0 \<notin> set (L i)"
proof -
  show sub: "set (L (i + j)) \<subseteq> set (L i)" for i j
    using assms by (induction j) (auto simp: skip_inv_def)
  show "0 \<notin> set (L i)"
    using sub [of 0 i] assms by (auto simp: skip_inv_def)
qed

section \<open>The searches\<close>

lemma FindGreaterOrEqual_walk:
  assumes "chain (\<lambda>n. sk_next sl n level) x vs"
  shows "FindGreaterOrEqual_loop compare sl key x level prev =
    (let P = (\<lambda>n. compare (node_key sl n) key < 0); y = last (x # takeWhile P vs)
     in if level = 0 then Some (opt_hd (dropWhile P vs), prev(level := y))
        else FindGreaterOrEqual_loop compare sl key y (level - 1) (prev(level := y)))"
  using assms
proof (induction vs arbitrary: x)
  case Nil
  then show ?case
    by (subst FindGreaterOrEqual_loop.simps) (simp add: KeyIsAfterNode_def Let_def)
next
  case (Cons v vs)
  then have c: "chain (\<lambda>n. sk_next sl n level) v vs" and v: "sk_next sl x level = Some v" by simp_all
  show ?case
    using v by (subst FindGreaterOrEqual_loop.simps)
      (cases "compare (node_key sl v) key < 0";
        simp only: KeyIsAfterNode_def Let_def option.case option.sel if_True if_False
          Cons.IH [OF c, unfolded Let_def] takeWhile.simps dropWhile.simps opt_hd_simps last_ConsR
          list.distinct simp_thms last.simps)
qed

lemma FindLessThan_walk:
  assumes "chain (\<lambda>n. sk_next sl n level) x vs"
  shows "FindLessThan_loop compare sl key x level =
    (let y = last (x # takeWhile (\<lambda>n. compare (node_key sl n) key < 0) vs)
     in if level = 0 then Some y else FindLessThan_loop compare sl key y (level - 1))"
  using assms
proof (induction vs arbitrary: x)
  case Nil
  then show ?case by (subst FindLessThan_loop.simps) (simp add: Let_def)
next
  case (Cons v vs)
  then have c: "chain (\<lambda>n. sk_next sl n level) v vs" and v: "sk_next sl x level = Some v" by simp_all
  have "\<not> compare (node_key sl v) key < 0 \<Longrightarrow> 0 \<le> compare (node_key sl v) key"
    "compare (node_key sl v) key < 0 \<Longrightarrow> \<not> 0 \<le> compare (node_key sl v) key" by simp_all
  with v show ?case
    by (subst FindLessThan_loop.simps)
      (cases "compare (node_key sl v) key < 0";
        simp only: Let_def option.sel if_True if_False option.distinct
          Cons.IH [OF c, unfolded Let_def] takeWhile.simps list.distinct simp_thms last.simps)
qed

lemma FindLast_walk:
  assumes "chain (\<lambda>n. sk_next sl n level) x vs"
  shows "FindLast_loop sl x level =
    (if level = 0 then Some (last (x # vs)) else FindLast_loop sl (last (x # vs)) (level - 1))"
  using assms
proof (induction vs arbitrary: x)
  case Nil
  then show ?case by (subst FindLast_loop.simps) simp
next
  case (Cons v vs)
  then show ?case by (subst FindLast_loop.simps) simp
qed

text \<open>
  A node of a level whose key is below the target: the search from it stops
  where the search from the head would.
\<close>

lemma takeWhile_from:
  assumes "xs = us @ x # vs" "\<forall>u\<in>set (us @ [x]). P u"
  shows "last (x # takeWhile P vs) = last (y # takeWhile P xs)"
    and "dropWhile P vs = dropWhile P xs"
proof -
  have "takeWhile P xs = us @ x # takeWhile P vs" "dropWhile P xs = dropWhile P vs"
    using assms by (simp_all add: dropWhile_append3)
  then show "last (x # takeWhile P vs) = last (y # takeWhile P xs)" "dropWhile P vs = dropWhile P xs"
    by simp_all
qed

lemma last_takeWhile_cases:
  "last (y # takeWhile P xs) = y \<or> last (y # takeWhile P xs) \<in> set xs \<and> P (last (y # takeWhile P xs))"
proof (cases "takeWhile P xs")
  case (Cons a as)
  then have "last (y # takeWhile P xs) \<in> set (takeWhile P xs)" by (metis last_ConsR last_in_set list.discI)
  then show ?thesis by (metis set_takeWhileD)
qed simp

lemma chain_from: "chain nx 0 (us @ x # vs) \<Longrightarrow> chain nx x vs"
  by (rule chain_suffix)

section \<open>Insertion\<close>

lemma link_levels_apply:
  "distinct is \<Longrightarrow> (\<And>i. i \<in> set is \<Longrightarrow> prev i \<noteq> x) \<Longrightarrow>
   link_levels x prev is nx n i =
     (if i \<in> set is then (if n = x then nx (prev i) i else if n = prev i then Some x else nx n i)
      else nx n i)"
proof (induction "is" arbitrary: nx)
  case (Cons j js)
  then have "prev j \<noteq> x" by simp
  then show ?case
    using Cons by (auto simp: Let_def)
qed simp

lemma sorted_wrt_insert:
  assumes "sorted_wrt R (as @ bs)" "\<forall>a\<in>set as. R a x" "\<forall>b\<in>set bs. R x b"
  shows "sorted_wrt R (as @ x # bs)"
  using assms by (auto simp: sorted_wrt_append)

section \<open>The abstract view\<close>

text \<open>
  \<^verbatim>\<open>skip_list compare sl ks\<close>: the list holds the keys \<^verbatim>\<open>ks\<close> in this order;
  \<^verbatim>\<open>skip_at compare sl node i\<close>: an iterator at \<^verbatim>\<open>node\<close> is at position \<^verbatim>\<open>i\<close> of
  them, past the end when \<^verbatim>\<open>node\<close> is the null pointer.
\<close>

definition skip_list :: "('k \<Rightarrow> 'k \<Rightarrow> int) \<Rightarrow> 'k SkipList \<Rightarrow> 'k list \<Rightarrow> bool" where
  "skip_list compare sl ks \<longleftrightarrow> (\<exists>L. skip_inv compare sl L \<and> skip_keys sl L = ks)"

definition skip_at :: "('k \<Rightarrow> 'k \<Rightarrow> int) \<Rightarrow> 'k SkipList \<Rightarrow> nat option \<Rightarrow> nat \<Rightarrow> bool" where
  "skip_at compare sl node i \<longleftrightarrow>
     (\<exists>L. skip_inv compare sl L \<and> node = (if i < length (L 0) then Some (L 0 ! i) else None))"

section \<open>Correctness for every comparator\<close>

context key_comparator begin

abbreviation below :: "'k SkipList \<Rightarrow> 'k \<Rightarrow> nat \<Rightarrow> bool" where
  "below sl key \<equiv> (\<lambda>n. cmp (node_key sl n) key < 0)"

text \<open>The start of a search on one level: the head or a node below the target.\<close>

lemma level_split:
  assumes inv: "skip_inv cmp sl L" and x: "x = 0 \<or> x \<in> set (L level) \<and> below sl key x"
  obtains vs where "chain (\<lambda>n. sk_next sl n level) x vs"
    "last (x # takeWhile (below sl key) vs) = last (0 # takeWhile (below sl key) (L level))"
    "dropWhile (below sl key) vs = dropWhile (below sl key) (L level)"
    "last (x # vs) = last (0 # L level)"
proof (cases "x = 0")
  case True
  show ?thesis
    by (rule that [of "L level"]) (use inv True in \<open>simp_all add: skip_inv_def\<close>)
next
  case False
  then have "x \<in> set (L level)" "below sl key x" using x by auto
  then obtain us vs where split: "L level = us @ x # vs" by (meson split_list)
  have "sorted_wrt (\<lambda>a b. cmp (node_key sl a) (node_key sl b) < 0) (us @ x # vs)"
    using inv unfolding skip_inv_def split [symmetric] by blast
  then have "\<forall>u\<in>set (us @ [x]). below sl key u"
    using \<open>below sl key x\<close> cmp_less_trans by (auto simp: sorted_wrt_append)
  note t = takeWhile_from(1) [OF split this, of 0] takeWhile_from(2) [OF split this]
  have "chain (\<lambda>n. sk_next sl n level) 0 (us @ x # vs)"
    using inv unfolding skip_inv_def split [symmetric] by blast
  from chain_from [OF this] show ?thesis
    by (rule that [OF _ t]) (simp add: split)
qed

lemma FindGreaterOrEqual_descend:
  assumes inv: "skip_inv cmp sl L"
  shows "x = 0 \<or> x \<in> set (L level) \<and> below sl key x \<Longrightarrow>
    FindGreaterOrEqual_loop cmp sl key x level prev =
      Some (opt_hd (dropWhile (below sl key) (L 0)),
        \<lambda>i. if i \<le> level then last (0 # takeWhile (below sl key) (L i)) else prev i)"
proof (induction level arbitrary: x prev)
  case 0
  then obtain vs where vs: "chain (\<lambda>n. sk_next sl n 0) x vs"
    "last (x # takeWhile (below sl key) vs) = last (0 # takeWhile (below sl key) (L 0))"
    "dropWhile (below sl key) vs = dropWhile (below sl key) (L 0)"
    by (rule level_split [OF inv]) auto
  show ?case by (subst FindGreaterOrEqual_walk [OF vs(1)]) (auto simp: vs(2,3) Let_def fun_eq_iff simp del: last.simps)
next
  case (Suc level)
  let ?y = "last (0 # takeWhile (below sl key) (L (Suc level)))"
  obtain vs where vs: "chain (\<lambda>n. sk_next sl n (Suc level)) x vs"
    "last (x # takeWhile (below sl key) vs) = ?y"
    using Suc.prems by (rule level_split [OF inv]) auto
  have y: "?y = 0 \<or> ?y \<in> set (L level) \<and> below sl key ?y"
    using last_takeWhile_cases [of 0 "below sl key" "L (Suc level)"] inv
    unfolding skip_inv_def by blast
  show ?case
    using Suc.IH [OF y] vs by (subst FindGreaterOrEqual_walk [OF vs(1)]) (auto simp: Let_def fun_eq_iff le_Suc_eq)
qed

lemma FindGreaterOrEqual_result:
  assumes "skip_inv cmp sl L"
  obtains prev where "FindGreaterOrEqual cmp sl key = Some (opt_hd (dropWhile (below sl key) (L 0)), prev)"
    "\<And>i. i < sk_max_height sl \<Longrightarrow> prev i = last (0 # takeWhile (below sl key) (L i))"
  using assms FindGreaterOrEqual_descend [OF assms, of 0 "sk_max_height sl - 1" key "\<lambda>i. 0"]
  by (auto simp: FindGreaterOrEqual_def skip_inv_def)

lemma FindLessThan_descend:
  assumes inv: "skip_inv cmp sl L"
  shows "x = 0 \<or> x \<in> set (L level) \<and> below sl key x \<Longrightarrow>
    FindLessThan_loop cmp sl key x level = Some (last (0 # takeWhile (below sl key) (L 0)))"
proof (induction level arbitrary: x)
  case 0
  then obtain vs where "chain (\<lambda>n. sk_next sl n 0) x vs"
    "last (x # takeWhile (below sl key) vs) = last (0 # takeWhile (below sl key) (L 0))"
    by (rule level_split [OF inv]) auto
  then show ?case by (subst FindLessThan_walk) (auto simp: Let_def)
next
  case (Suc level)
  let ?y = "last (0 # takeWhile (below sl key) (L (Suc level)))"
  obtain vs where vs: "chain (\<lambda>n. sk_next sl n (Suc level)) x vs"
    "last (x # takeWhile (below sl key) vs) = ?y"
    using Suc.prems by (rule level_split [OF inv]) auto
  have y: "?y = 0 \<or> ?y \<in> set (L level) \<and> below sl key ?y"
    using last_takeWhile_cases [of 0 "below sl key" "L (Suc level)"] inv
    unfolding skip_inv_def by blast
  show ?case using Suc.IH [OF y] vs by (subst FindLessThan_walk [OF vs(1)]) (simp add: Let_def)
qed

lemma FindLessThan_result:
  "skip_inv cmp sl L \<Longrightarrow> FindLessThan cmp sl key = Some (last (0 # takeWhile (below sl key) (L 0)))"
  using FindLessThan_descend [of sl L 0] by (simp add: FindLessThan_def)

lemma level_chain:
  assumes inv: "skip_inv cmp sl L" and x: "x = 0 \<or> x \<in> set (L level)"
  obtains vs where "chain (\<lambda>n. sk_next sl n level) x vs" "last (x # vs) = last (0 # L level)"
proof (cases "x = 0")
  case True
  show ?thesis by (rule that [of "L level"]) (use inv True in \<open>simp_all add: skip_inv_def\<close>)
next
  case False
  with x obtain us vs where split: "L level = us @ x # vs" by (meson split_list)
  have "chain (\<lambda>n. sk_next sl n level) 0 (us @ x # vs)"
    using inv unfolding skip_inv_def split [symmetric] by blast
  from chain_from [OF this] show ?thesis by (rule that) (simp add: split)
qed

lemma FindLast_descend:
  assumes inv: "skip_inv cmp sl L"
  shows "x = 0 \<or> x \<in> set (L level) \<Longrightarrow> FindLast_loop sl x level = Some (last (0 # L 0))"
proof (induction level arbitrary: x)
  case 0
  then obtain vs where vs: "chain (\<lambda>n. sk_next sl n 0) x vs" "last (x # vs) = last (0 # L 0)"
    by (rule level_chain [OF inv])
  show ?case by (subst FindLast_walk [OF vs(1)]) (simp only: vs(2) simp_thms if_True)
next
  case (Suc level)
  obtain vs where vs: "chain (\<lambda>n. sk_next sl n (Suc level)) x vs"
    "last (x # vs) = last (0 # L (Suc level))"
    using Suc.prems by (rule level_chain [OF inv])
  have "set (L (Suc level)) \<subseteq> set (L level)" using inv unfolding skip_inv_def by blast
  moreover have "last (0 # L (Suc level)) = 0 \<or> last (0 # L (Suc level)) \<in> set (L (Suc level))"
    using last_in_set [of "L (Suc level)"] by auto
  ultimately have "last (x # vs) = 0 \<or> last (x # vs) \<in> set (L level)" unfolding vs(2) by blast
  from Suc.IH [OF this] show ?case
    by (subst FindLast_walk [OF vs(1)]) (simp only: nat.distinct if_False diff_Suc_1)
qed

lemma FindLast_result: "skip_inv cmp sl L \<Longrightarrow> FindLast sl = Some (last (0 # L 0))"
  using FindLast_descend [of sl L 0] by (simp add: FindLast_def)

lemma above_rest:
  assumes "sorted_wrt (\<lambda>a b. cmp (node_key sl a) (node_key sl b) < 0) xs"
    and "\<forall>n\<in>set xs. cmp (node_key sl n) key \<noteq> 0"
  shows "\<forall>b\<in>set (dropWhile (below sl key) xs). cmp key (node_key sl b) < 0"
  using assms
proof (induction xs)
  case (Cons a xs)
  show ?case
  proof (cases "below sl key a")
    case False
    then have "cmp key (node_key sl a) < 0" using Cons.prems(2) cmp_swap [of "node_key sl a" key] by force
    then show ?thesis using Cons.prems(1) False cmp_less_trans by auto
  qed (use Cons in auto)
qed simp

lemma SkipList_Insert_result:
  assumes inv: "skip_inv cmp sl L"
    and fresh: "\<forall>n\<in>set (L 0). cmp (node_key sl n) key \<noteq> 0"
  obtains sl' L' where "SkipList_Insert cmp sl key = Some sl'" "skip_inv cmp sl' L'"
    "skip_keys sl' L' = takeWhile (\<lambda>k. cmp k key < 0) (skip_keys sl L)
       @ key # dropWhile (\<lambda>k. cmp k key < 0) (skip_keys sl L)"
proof -
  obtain prev where find: "FindGreaterOrEqual cmp sl key = Some (opt_hd (dropWhile (below sl key) (L 0)), prev)"
    and prev: "\<And>i. i < sk_max_height sl \<Longrightarrow> prev i = last (0 # takeWhile (below sl key) (L i))"
    by (rule FindGreaterOrEqual_result [OF inv]) blast
  obtain height rnd where rh: "RandomHeight (sk_rnd sl) = (height, rnd)" by fastforce
  note h = RandomHeight_bounds [OF rh]
  define prev1 where "prev1 = (\<lambda>i. if sk_max_height sl \<le> i \<and> i < height then 0 else prev i)"
  define x where "x = length (sk_keys sl) + 1"
  define nx where "nx = link_levels x prev1 [0..<height] (sk_next sl)"
  define sl' where "sl' = sl\<lparr>sk_next := nx, sk_keys := sk_keys sl @ [key],
      sk_max_height := max (sk_max_height sl) height, sk_rnd := rnd\<rparr>"
  define P where "P = below sl key"
  define L' where "L' = (\<lambda>i. if i < height then takeWhile P (L i) @ x # dropWhile P (L i) else L i)"
  have insert: "SkipList_Insert cmp sl key = Some sl'"
    unfolding SkipList_Insert_def find rh Let_def option.case prod.case sl'_def nx_def x_def prev1_def
    by (rule refl)
  have empty: "sk_max_height sl \<le> i \<Longrightarrow> L i = []" for i using inv by (simp add: skip_inv_def)
  have prev1: "i < height \<Longrightarrow> prev1 i = last (0 # takeWhile P (L i))" for i
    using prev empty by (simp add: prev1_def P_def)
  have sub0: "set (L i) \<subseteq> set (L 0)" for i using skip_inv_level(1) [OF inv, of 0 i] by simp
  have ids: "1 \<le> n \<and> n \<le> length (sk_keys sl)" if "n \<in> set (L i)" for n i
    using inv sub0 that unfolding skip_inv_def by blast
  have xfresh: "x \<notin> set (0 # L i)" for i using ids by (force simp: x_def)
  have sorted: "sorted_wrt (\<lambda>a b. cmp (node_key sl a) (node_key sl b) < 0) (L i)" for i
    using inv by (simp add: skip_inv_def)
  have dist: "distinct (0 # L i)" for i
    using sorted_wrt_distinct [OF sorted [of i]] ids [of 0 i] by (auto simp: cmp_refl)
  have mem: "prev1 i \<in> set (0 # L i)" if "i < height" for i
    using prev1 [OF that] last_takeWhile_cases [of 0 P "L i"] by auto
  have nx: "nx n i = (if i < height then (if n = x then sk_next sl (prev1 i) i
      else if n = prev1 i then Some x else sk_next sl n i) else sk_next sl n i)" for n i
  proof -
    have "prev1 i \<noteq> x" if "i < height" for i using mem [OF that] xfresh [of i] by metis
    then show ?thesis unfolding nx_def by (subst link_levels_apply) simp_all
  qed
  have chains: "chain (\<lambda>n. nx n i) 0 (L' i)" for i
  proof -
    have c: "chain (\<lambda>n. sk_next sl n i) 0 (L i)" using inv by (simp add: skip_inv_def)
    show ?thesis
    proof (cases "i < height")
      case True
      have "chain (\<lambda>n. nx n i) 0 (takeWhile P (L i) @ x # dropWhile P (L i))"
      proof (rule chain_insert [of "\<lambda>n. sk_next sl n i"])
        show "nx x i = opt_hd (dropWhile P (L i))"
          using True nx prev1 [OF True] chain_next [OF c, of P] by simp
        show "nx (last (0 # takeWhile P (L i))) i = Some x"
          using True nx mem [OF True] xfresh [of i] unfolding prev1 [OF True, symmetric] by auto
        show "nx n i = sk_next sl n i" if "n \<noteq> x" "n \<noteq> last (0 # takeWhile P (L i))" for n
          using that nx unfolding prev1 [OF True, symmetric] by simp
      qed (use c dist xfresh in \<open>simp_all only: takeWhile_dropWhile_id not_False_eq_True\<close>)
      then show ?thesis using True by (simp add: L'_def)
    qed (use c in \<open>simp add: nx L'_def\<close>)
  qed
  have key': "node_key sl' x = key" "n \<in> set (L i) \<Longrightarrow> node_key sl' n = node_key sl n" for n i
    using ids [of n i] by (auto simp: node_key_def sl'_def x_def nth_append)
  have set': "set (L' i) = (if i < height then insert x (set (L i)) else set (L i))" for i
    using set_takeWhile_dropWhile [of P "L i"] by (auto simp: L'_def)
  have sorted': "sorted_wrt (\<lambda>a b. cmp (node_key sl' a) (node_key sl' b) < 0) (L' i)" for i
  proof -
    have old: "sorted_wrt (\<lambda>a b. cmp (node_key sl' a) (node_key sl' b) < 0) (L i)"
      by (rule sorted_wrt_mono_rel [OF _ sorted]) (simp add: key'(2))
    have "\<forall>a\<in>set (takeWhile P (L i)). cmp (node_key sl' a) (node_key sl' x) < 0"
      by (auto simp: key' P_def dest!: set_takeWhileD)
    moreover have "\<forall>n\<in>set (L i). cmp (node_key sl n) key \<noteq> 0" using fresh sub0 by blast
    then have "\<forall>b\<in>set (dropWhile P (L i)). cmp (node_key sl' x) (node_key sl' b) < 0"
      using above_rest [OF sorted] key'(2) unfolding P_def key'(1) by (metis set_dropWhileD)
    ultimately show ?thesis
      using old unfolding L'_def by (auto intro!: sorted_wrt_insert)
  qed
  have "set (L' (Suc i)) \<subseteq> set (L' i)" for i
    using inv unfolding set' skip_inv_def by auto
  moreover have "\<forall>n\<in>set (L' 0). 1 \<le> n \<and> n \<le> length (sk_keys sl')"
    using ids [of _ 0] h by (auto simp: set' sl'_def x_def) (meson le_SucI)
  moreover have "max (sk_max_height sl) height \<le> i \<Longrightarrow> L' i = []" for i
    using empty by (simp add: L'_def)
  moreover have "1 \<le> max (sk_max_height sl) height" "max (sk_max_height sl) height \<le> kMaxHeight"
    using h inv by (auto simp: skip_inv_def)
  moreover have "sk_next sl' = nx" "sk_max_height sl' = max (sk_max_height sl) height"
    by (simp_all add: sl'_def)
  ultimately have inv': "skip_inv cmp sl' L'"
    using chains sorted' unfolding skip_inv_def by simp
  have "skip_keys sl' L' = map (node_key sl') (takeWhile P (L 0)) @ key # map (node_key sl') (dropWhile P (L 0))"
    using h by (simp add: skip_keys_def L'_def key')
  also have "map (node_key sl') (takeWhile P (L 0)) = takeWhile (\<lambda>k. cmp k key < 0) (skip_keys sl L)"
    by (auto simp: skip_keys_def takeWhile_map P_def comp_def key' dest!: set_takeWhileD
        intro!: map_cong)
  also have "map (node_key sl') (dropWhile P (L 0)) = dropWhile (\<lambda>k. cmp k key < 0) (skip_keys sl L)"
    by (auto simp: skip_keys_def dropWhile_map P_def comp_def key' dest!: set_dropWhileD
        intro!: map_cong)
  finally show ?thesis using that insert inv' by blast
qed

lemma skip_list_new: "skip_list cmp SkipList_new []"
  unfolding skip_list_def skip_keys_def using skip_inv_new by fastforce

lemma skip_list_increasing: "skip_list cmp sl ks \<Longrightarrow> increasing ks"
  by (auto simp: skip_list_def skip_keys_def skip_inv_def sorted_wrt_map)

lemma skip_list_Insert:
  assumes "skip_list cmp sl ks" "\<forall>k\<in>set ks. cmp k key \<noteq> 0"
  obtains sl' where "SkipList_Insert cmp sl key = Some sl'"
    "skip_list cmp sl' (takeWhile (\<lambda>k. cmp k key < 0) ks @ key # dropWhile (\<lambda>k. cmp k key < 0) ks)"
proof -
  obtain L where L: "skip_inv cmp sl L" "skip_keys sl L = ks"
    using assms(1) by (auto simp: skip_list_def)
  then have "\<forall>n\<in>set (L 0). cmp (node_key sl n) key \<noteq> 0"
    using assms(2) by (auto simp: skip_keys_def)
  from SkipList_Insert_result [OF L(1) this] that L(2) show ?thesis
    unfolding skip_list_def by metis
qed

lemma skip_list_Contains:
  assumes "skip_list cmp sl ks"
  shows "SkipList_Contains cmp sl key = Some (\<exists>k\<in>set ks. cmp key k = 0)"
proof -
  obtain L where L: "skip_inv cmp sl L" "ks = map (node_key sl) (L 0)"
    using assms by (auto simp: skip_list_def skip_keys_def)
  obtain prev where f: "FindGreaterOrEqual cmp sl key =
      Some (opt_hd (dropWhile (below sl key) (L 0)), prev)"
    by (rule FindGreaterOrEqual_result [OF L(1)]) blast
  have sorted: "sorted_wrt (\<lambda>a b. cmp (node_key sl a) (node_key sl b) < 0) (L 0)"
    using L(1) by (simp add: skip_inv_def)
  have eq: "(\<exists>n\<in>set (L 0). cmp key (node_key sl n) = 0) \<longleftrightarrow>
      (case dropWhile (below sl key) (L 0) of [] \<Rightarrow> False | n # _ \<Rightarrow> cmp key (node_key sl n) = 0)"
    using sorted
  proof (induction "L 0" arbitrary: L)
    case Nil then show ?case by simp
  next
    case (Cons a xs)
    show ?case
    proof (cases "below sl key a")
      case True
      then have "cmp key (node_key sl a) \<noteq> 0" using cmp_zero_sym by force
      then show ?thesis
        using Cons.hyps(1) [of "\<lambda>i. xs"] Cons.prems True unfolding Cons.hyps(2) [symmetric] by simp
    next
      case False
      have "cmp key (node_key sl b) \<noteq> 0" if "b \<in> set xs" for b
      proof -
        have "cmp (node_key sl a) (node_key sl b) < 0"
          using Cons.prems that unfolding Cons.hyps(2) [symmetric] by simp
        then show ?thesis
          using False cmp_zero_right [of key "node_key sl b" "node_key sl a"] by metis
      qed
      then show ?thesis using False unfolding Cons.hyps(2) [symmetric] by auto
    qed
  qed
  have "(case opt_hd d of None \<Rightarrow> False | Some n \<Rightarrow> cmp key (node_key sl n) = 0) =
      (case d of [] \<Rightarrow> False | n # _ \<Rightarrow> cmp key (node_key sl n) = 0)" for d
    by (cases d) simp_all
  with eq show ?thesis by (simp add: SkipList_Contains_def f L(2))
qed

lemma skip_at_key:
  assumes "skip_list cmp sl ks"
  shows "skip_at cmp sl (Some n) i \<Longrightarrow> i < length ks \<and> node_key sl n = ks ! i"
    and "skip_at cmp sl None i \<Longrightarrow> length ks \<le> i"
proof -
  obtain L where L: "skip_inv cmp sl L" "ks = map (node_key sl) (L 0)"
    using assms by (auto simp: skip_list_def skip_keys_def)
  have same: "skip_inv cmp sl L' \<Longrightarrow> L' 0 = L 0" for L'
    using L(1) chain_unique unfolding skip_inv_def by blast
  show "skip_at cmp sl (Some n) i \<Longrightarrow> i < length ks \<and> node_key sl n = ks ! i"
    using same by (fastforce simp: skip_at_def L(2) split: if_splits)
  show "skip_at cmp sl None i \<Longrightarrow> length ks \<le> i"
    using same by (fastforce simp: skip_at_def L(2) split: if_splits)
qed

lemma skip_Seek:
  assumes "skip_list cmp sl ks"
  obtains node where "SkipIter_Seek cmp sl key = Some node"
    "skip_at cmp sl node (length (takeWhile (\<lambda>k. cmp k key < 0) ks))"
proof -
  obtain L where L: "skip_inv cmp sl L" "ks = map (node_key sl) (L 0)"
    using assms by (auto simp: skip_list_def skip_keys_def)
  obtain prev where f: "FindGreaterOrEqual cmp sl key =
      Some (opt_hd (dropWhile (below sl key) (L 0)), prev)"
    by (rule FindGreaterOrEqual_result [OF L(1)]) blast
  have len: "length (takeWhile (\<lambda>k. cmp k key < 0) ks) = length (takeWhile (below sl key) (L 0))"
    by (simp add: L(2) takeWhile_map comp_def)
  let ?j = "length (takeWhile (below sl key) (L 0))"
  have "opt_hd (dropWhile (below sl key) (L 0)) = (if ?j < length (L 0) then Some (L 0 ! ?j) else None)"
    using dropWhile_eq_drop [of "below sl key" "L 0"]
    by (auto simp: opt_hd_def Cons_nth_drop_Suc [symmetric])
  with L(1) have "skip_at cmp sl (opt_hd (dropWhile (below sl key) (L 0))) ?j"
    unfolding skip_at_def by blast
  with that f len show ?thesis by (simp add: SkipIter_Seek_def)
qed

lemma skip_SeekToFirst:
  assumes "skip_list cmp sl ks"
  shows "skip_at cmp sl (SkipIter_SeekToFirst sl) 0"
proof -
  obtain L where L: "skip_inv cmp sl L" using assms by (auto simp: skip_list_def)
  then have "chain (\<lambda>n. sk_next sl n 0) 0 (L 0)" by (simp add: skip_inv_def)
  then have "SkipIter_SeekToFirst sl = (if 0 < length (L 0) then Some (L 0 ! 0) else None)"
    by (cases "L 0") (simp_all add: SkipIter_SeekToFirst_def)
  with L show ?thesis unfolding skip_at_def by blast
qed

lemma skip_SeekToLast:
  assumes "skip_list cmp sl ks"
  obtains node where "SkipIter_SeekToLast sl = Some node" "skip_at cmp sl node (length ks - 1)"
proof -
  obtain L where L: "skip_inv cmp sl L" "ks = map (node_key sl) (L 0)"
    using assms by (auto simp: skip_list_def skip_keys_def)
  have "0 \<notin> set (L 0)" using skip_inv_level(2) [OF L(1)] .
  then have "L 0 \<noteq> [] \<Longrightarrow> L 0 ! (length (L 0) - Suc 0) \<noteq> 0"
    by (metis diff_Suc_less length_greater_0_conv nth_mem)
  then have "(if last (0 # L 0) = 0 then None else Some (last (0 # L 0))) =
      (if length ks - 1 < length (L 0) then Some (L 0 ! (length ks - 1)) else None)"
    by (auto simp: L(2) last_conv_nth)
  with L(1) have "skip_at cmp sl (if last (0 # L 0) = 0 then None else Some (last (0 # L 0))) (length ks - 1)"
    unfolding skip_at_def by blast
  moreover have "SkipIter_SeekToLast sl = Some (if last (0 # L 0) = 0 then None else Some (last (0 # L 0)))"
    unfolding SkipIter_SeekToLast_def FindLast_result [OF L(1)] option.case by (rule refl)
  ultimately show ?thesis using that by blast
qed

lemma skip_Next:
  assumes "skip_at cmp sl (Some n) i"
  shows "skip_at cmp sl (SkipIter_Next sl n) (Suc i)"
proof -
  obtain L where L: "skip_inv cmp sl L" "i < length (L 0)" "n = L 0 ! i"
    using assms by (auto simp: skip_at_def split: if_splits)
  have "chain (\<lambda>n. sk_next sl n 0) 0 (take i (L 0) @ L 0 ! i # drop (Suc i) (L 0))"
    using L by (simp add: skip_inv_def flip: id_take_nth_drop)
  from chain_suffix [OF this] have "SkipIter_Next sl n = opt_hd (drop (Suc i) (L 0))"
    by (cases "drop (Suc i) (L 0)") (simp_all add: SkipIter_Next_def L(3))
  also have "\<dots> = (if Suc i < length (L 0) then Some (L 0 ! Suc i) else None)"
    by (auto simp: Cons_nth_drop_Suc [symmetric])
  finally show ?thesis using L(1) unfolding skip_at_def by blast
qed

lemma skip_Prev:
  assumes "skip_at cmp sl (Some n) i"
  obtains node where "SkipIter_Prev cmp sl n = Some node"
    "if i = 0 then node = None else skip_at cmp sl node (i - 1)"
proof -
  obtain L where L: "skip_inv cmp sl L" "i < length (L 0)" "n = L 0 ! i"
    using assms by (auto simp: skip_at_def split: if_splits)
  have sorted: "sorted_wrt (\<lambda>a b. cmp (node_key sl a) (node_key sl b) < 0) (L 0)"
    using L(1) by (simp add: skip_inv_def)
  have tw: "takeWhile (below sl (node_key sl n)) (L 0) = take i (L 0)"
  proof -
    have "\<forall>m\<in>set (take i (L 0)). below sl (node_key sl n) m"
      using sorted_wrt_nth_less [OF sorted] L(2,3) by (auto simp: in_set_conv_nth)
    moreover have "drop i (L 0) = n # drop (Suc i) (L 0)" using L(2,3) by (simp add: Cons_nth_drop_Suc)
    ultimately have "takeWhile (below sl (node_key sl n)) (take i (L 0) @ drop i (L 0)) =
        take i (L 0) @ takeWhile (below sl (node_key sl n)) (n # drop (Suc i) (L 0))"
      by (simp only: takeWhile_append2)
    then show ?thesis by (simp add: cmp_refl)
  qed
  have nz: "0 \<notin> set (L 0)" using skip_inv_level(2) [OF L(1)] .
  define y where "y = last (0 # take i (L 0))"
  have prev: "SkipIter_Prev cmp sl n = Some (if y = 0 then None else Some y)"
    by (simp add: SkipIter_Prev_def FindLessThan_result [OF L(1)] tw y_def)
  show ?thesis
  proof (cases i)
    case 0 then show ?thesis using that prev by (simp add: y_def)
  next
    case (Suc j)
    then have "y = L 0 ! j" using L(2) by (simp add: y_def last_conv_nth take_Suc_conv_app_nth)
    moreover have "L 0 ! j \<noteq> 0" using nz L(2) Suc by (metis Suc_lessD nth_mem)
    moreover have "skip_at cmp sl (Some (L 0 ! j)) j" using L(1,2) Suc unfolding skip_at_def by auto
    ultimately show ?thesis using that prev Suc by simp
  qed
qed

end

section \<open>The list after a run of insertions\<close>

primrec SkipList_InsertAll ::
    "('k \<Rightarrow> 'k \<Rightarrow> int) \<Rightarrow> 'k SkipList \<Rightarrow> 'k list \<Rightarrow> 'k SkipList option" where
  "SkipList_InsertAll compare sl [] = Some sl"
| "SkipList_InsertAll compare sl (k # ks) =
     (case SkipList_Insert compare sl k of
        None \<Rightarrow> None
      | Some sl' \<Rightarrow> SkipList_InsertAll compare sl' ks)"

text \<open>The keys an iterator reads in at most \<^verbatim>\<open>n\<close> steps of \<^verbatim>\<open>Next\<close>.\<close>

fun SkipIter_walk :: "nat \<Rightarrow> 'k SkipList \<Rightarrow> nat option \<Rightarrow> 'k list" where
  "SkipIter_walk 0 sl node = []"
| "SkipIter_walk (Suc n) sl None = []"
| "SkipIter_walk (Suc n) sl (Some x) = node_key sl x # SkipIter_walk n sl (SkipIter_Next sl x)"

context key_comparator begin

lemma skip_walk:
  assumes "skip_list cmp sl ks" "skip_at cmp sl node i"
  shows "SkipIter_walk n sl node = take n (drop i ks)"
  using assms(2)
proof (induction n arbitrary: node i)
  case (Suc n)
  show ?case
  proof (cases node)
    case None
    then show ?thesis using skip_at_key(2) [OF assms(1)] Suc.prems by simp
  next
    case (Some x)
    then have x: "i < length ks" "node_key sl x = ks ! i"
      using skip_at_key(1) [OF assms(1)] Suc.prems by auto
    have "SkipIter_walk n sl (SkipIter_Next sl x) = take n (drop (Suc i) ks)"
      using Suc.IH [OF skip_Next] Suc.prems Some by blast
    then show ?thesis using x Some by (simp add: Cons_nth_drop_Suc [symmetric])
  qed
qed simp

lemma skip_list_InsertAll:
  assumes "skip_list cmp sl ks0" "\<forall>k\<in>set ks. \<forall>k0\<in>set ks0. cmp k0 k \<noteq> 0"
    and "sorted_wrt (\<lambda>a b. cmp a b \<noteq> 0) ks"
  shows "\<exists>sl' ks'. SkipList_InsertAll cmp sl ks = Some sl' \<and> skip_list cmp sl' ks'
    \<and> set ks' = set ks0 \<union> set ks \<and> length ks' = length ks0 + length ks"
  using assms
proof (induction ks arbitrary: sl ks0)
  case (Cons k ks)
  let ?P = "\<lambda>a. cmp a k < 0"
  have "\<forall>k0\<in>set ks0. cmp k0 k \<noteq> 0" using Cons.prems(2) by simp
  from skip_list_Insert [OF Cons.prems(1) this] obtain sl1 where sl1:
    "SkipList_Insert cmp sl k = Some sl1"
    "skip_list cmp sl1 (takeWhile ?P ks0 @ k # dropWhile ?P ks0)" by blast
  let ?ks1 = "takeWhile ?P ks0 @ k # dropWhile ?P ks0"
  have set1: "set ?ks1 = insert k (set ks0)"
    using set_takeWhile_dropWhile [of ?P ks0] by auto
  have len1: "length ?ks1 = Suc (length ks0)"
    by (metis add_Suc_right length_Cons length_append takeWhile_dropWhile_id)
  have "\<forall>a\<in>set ks. \<forall>k0\<in>set ?ks1. cmp k0 a \<noteq> 0"
    using Cons.prems(2,3) unfolding set1 by simp
  moreover have "sorted_wrt (\<lambda>a b. cmp a b \<noteq> 0) ks" using Cons.prems(3) by simp
  ultimately obtain sl' ks' where "SkipList_InsertAll cmp sl1 ks = Some sl'" "skip_list cmp sl' ks'"
    "set ks' = set ?ks1 \<union> set ks" "length ks' = length ?ks1 + length ks"
    using Cons.IH [OF sl1(2)] by blast
  then show ?case
    using sl1(1) len1 by (intro exI [of _ sl'] exI [of _ ks']) (simp add: set_takeWhile_dropWhile)
qed auto

end

text \<open>
  C7: The skip list is a sorted set.  For every comparator, every sequence of
  pairwise different keys and whatever heights the generator gives, all the
  insertions and lookups end; membership is exact, and a walk from the first
  node reads the inserted keys once each, in strictly increasing order.
\<close>

theorem skip_list_sorted_set:
  assumes "key_comparator cmp" "sorted_wrt (\<lambda>a b. cmp a b \<noteq> 0) ks"
  shows "\<exists>sl ks'. SkipList_InsertAll cmp SkipList_new ks = Some sl
    \<and> (\<forall>n \<ge> length ks. SkipIter_walk n sl (SkipIter_SeekToFirst sl) = ks')
    \<and> sorted_wrt (\<lambda>a b. cmp a b < 0) ks' \<and> set ks' = set ks \<and> length ks' = length ks
    \<and> (\<forall>key. SkipList_Contains cmp sl key = Some (\<exists>k\<in>set ks. cmp key k = 0))"
proof -
  note kc = assms(1)
  obtain sl ks' where s: "SkipList_InsertAll cmp SkipList_new ks = Some sl" "skip_list cmp sl ks'"
    "set ks' = set ks" "length ks' = length ks"
    using key_comparator.skip_list_InsertAll [OF kc key_comparator.skip_list_new [OF kc] _ assms(2)]
    by auto
  have "SkipIter_walk n sl (SkipIter_SeekToFirst sl) = ks'" if "length ks \<le> n" for n
    using key_comparator.skip_walk [OF kc s(2) key_comparator.skip_SeekToFirst [OF kc s(2)], of n] s(4) that
    by simp
  then show ?thesis
    using s key_comparator.skip_list_increasing [OF kc s(2)] key_comparator.skip_list_Contains [OF kc s(2)]
    by auto
qed

lemma skip_list_sorted_set_witness:
  "\<exists>sl ks'. SkipList_InsertAll (\<lambda>a b. a - b) SkipList_new [5, 2, 9] = Some sl
    \<and> (\<forall>n \<ge> 3. SkipIter_walk n sl (SkipIter_SeekToFirst sl) = ks') \<and> set ks' = {5, 2, 9 :: int}
    \<and> SkipList_Contains (\<lambda>a b. a - b) sl 9 = Some True"
proof -
  have "key_comparator (\<lambda>a b :: int. a - b)" by unfold_locales auto
  from skip_list_sorted_set [OF this, of "[5, 2, 9]"] show ?thesis by fastforce
qed

end
