(* ===== verification/Arena.thy ===== *)
theory Arena
  imports Delta_Prelude
begin

text \<open>
  The memory pool of \<^verbatim>\<open>src/utils/arena.cc\<close> and \<^verbatim>\<open>src/utils/include/arena.h\<close>.
  Addresses are natural numbers, 0 the null pointer.  \<^verbatim>\<open>new char[n]\<close> is the
  parameter \<^verbatim>\<open>new_block\<close>: given the blocks handed out so far and a size it
  returns the address of a fresh block.
\<close>

definition arena_kBlockSize :: nat where "arena_kBlockSize = 4096"

text \<open>
  \<^verbatim>\<open>ar_blocks\<close> lists the address and the size of each block; the code keeps the
  addresses only, the sizes are for the proofs.
\<close>

record Arena =
  ar_alloc_ptr :: nat
  ar_alloc_bytes_remaining :: nat
  ar_blocks :: "(nat \<times> nat) list"
  ar_memory_usage :: nat

definition Arena_new :: Arena where
  "Arena_new = \<lparr> ar_alloc_ptr = 0, ar_alloc_bytes_remaining = 0, ar_blocks = [],
                 ar_memory_usage = 0 \<rparr>"

definition AllocateNewBlock ::
    "((nat \<times> nat) list \<Rightarrow> nat \<Rightarrow> nat) \<Rightarrow> nat \<Rightarrow> Arena \<Rightarrow> nat \<times> Arena" where
  "AllocateNewBlock new_block block_bytes a =
     (let result = new_block (ar_blocks a) block_bytes
      in (result, a\<lparr>ar_blocks := ar_blocks a @ [(result, block_bytes)],
                    ar_memory_usage := ar_memory_usage a + (block_bytes + 8)\<rparr>))"

definition AllocateFallback ::
    "((nat \<times> nat) list \<Rightarrow> nat \<Rightarrow> nat) \<Rightarrow> nat \<Rightarrow> Arena \<Rightarrow> nat \<times> Arena" where
  "AllocateFallback new_block n a =
     (if n > arena_kBlockSize div 4 then AllocateNewBlock new_block n a
      else
        let (p, a1) = AllocateNewBlock new_block arena_kBlockSize a
        in (p, a1\<lparr>ar_alloc_ptr := p + n,
                  ar_alloc_bytes_remaining := arena_kBlockSize - n\<rparr>))"

definition Allocate ::
    "((nat \<times> nat) list \<Rightarrow> nat \<Rightarrow> nat) \<Rightarrow> nat \<Rightarrow> Arena \<Rightarrow> nat \<times> Arena" where
  "Allocate new_block n a =
     (if n \<le> ar_alloc_bytes_remaining a
      then (ar_alloc_ptr a, a\<lparr>ar_alloc_ptr := ar_alloc_ptr a + n,
              ar_alloc_bytes_remaining := ar_alloc_bytes_remaining a - n\<rparr>)
      else AllocateFallback new_block n a)"

definition AllocateAligned ::
    "((nat \<times> nat) list \<Rightarrow> nat \<Rightarrow> nat) \<Rightarrow> nat \<Rightarrow> Arena \<Rightarrow> nat \<times> Arena" where
  "AllocateAligned new_block n a =
     (let align = 8;
          current_mod = ar_alloc_ptr a mod align;
          slop = (if current_mod = 0 then 0 else align - current_mod);
          needed = n + slop
      in if needed \<le> ar_alloc_bytes_remaining a
         then (ar_alloc_ptr a + slop,
               a\<lparr>ar_alloc_ptr := ar_alloc_ptr a + needed,
                 ar_alloc_bytes_remaining := ar_alloc_bytes_remaining a - needed\<rparr>)
         else AllocateFallback new_block n a)"

definition MemoryUsage :: "Arena \<Rightarrow> nat" where
  "MemoryUsage a = ar_memory_usage a"

section \<open>Disjointness and alignment\<close>

text \<open>What the pool relies on: \<^verbatim>\<open>new\<close> returns an aligned block apart from the others.\<close>

definition range_of :: "nat \<times> nat \<Rightarrow> nat set" where
  "range_of b = {fst b ..< fst b + snd b}"

definition allocator_ok :: "((nat \<times> nat) list \<Rightarrow> nat \<Rightarrow> nat) \<Rightarrow> bool" where
  "allocator_ok new_block \<longleftrightarrow>
     (\<forall>bs n. new_block bs n mod 8 = 0 \<and> 0 < new_block bs n
        \<and> (\<forall>b\<in>set bs. range_of b \<inter> range_of (new_block bs n, n) = {}))"

text \<open>
  The invariant: the pieces handed out are disjoint, they lie in the blocks,
  and the free piece at \<^verbatim>\<open>alloc_ptr_\<close> lies in a block and touches none of them.
\<close>

definition arena_inv :: "Arena \<Rightarrow> (nat \<times> nat) list \<Rightarrow> bool" where
  "arena_inv a chunks \<longleftrightarrow>
     (let free = (ar_alloc_ptr a, ar_alloc_bytes_remaining a) in
      (\<forall>c\<in>set chunks. range_of c \<subseteq> (\<Union>b\<in>set (ar_blocks a). range_of b)
         \<and> range_of c \<inter> range_of free = {})
      \<and> range_of free \<subseteq> (\<Union>b\<in>set (ar_blocks a). range_of b)
      \<and> sorted_wrt (\<lambda>c d. range_of c \<inter> range_of d = {}) chunks
      \<and> ar_memory_usage a = (\<Sum>b\<leftarrow>ar_blocks a. snd b + 8))"

lemma arena_inv_new [wf]: "arena_inv Arena_new []"
  by (simp add: arena_inv_def Arena_new_def Let_def range_of_def)

lemma AllocateFallback_inv:
  assumes inv: "arena_inv a chunks" and ok: "allocator_ok new_block"
    and alloc: "AllocateFallback new_block n a = (p, a')"
  shows "arena_inv a' (chunks @ [(p, n)]) \<and> p mod 8 = 0"
proof -
  define m where "m = (if n > arena_kBlockSize div 4 then n else arena_kBlockSize)"
  have p: "p = new_block (ar_blocks a) m"
    and blocks: "ar_blocks a' = ar_blocks a @ [(p, m)]"
    and mu: "ar_memory_usage a' = ar_memory_usage a + (m + 8)"
    and free: "(ar_alloc_ptr a', ar_alloc_bytes_remaining a') =
      (if n > arena_kBlockSize div 4 then (ar_alloc_ptr a, ar_alloc_bytes_remaining a)
       else (p + n, arena_kBlockSize - n))"
    using alloc by (auto simp: AllocateFallback_def AllocateNewBlock_def Let_def m_def split: if_splits)
  let ?old = "\<Union>b\<in>set (ar_blocks a). range_of b"
  have fresh: "?old \<inter> range_of (p, m) = {}" "p mod 8 = 0"
    using ok unfolding allocator_ok_def p by blast+
  have nm: "range_of (p, n) \<subseteq> range_of (p, m)"
    by (auto simp: range_of_def m_def arena_kBlockSize_def)
  have rest: "n \<le> arena_kBlockSize div 4 \<Longrightarrow> range_of (p + n, arena_kBlockSize - n) \<subseteq> range_of (p, m)
      \<and> range_of (p, n) \<inter> range_of (p + n, arena_kBlockSize - n) = {}"
    by (auto simp: range_of_def m_def arena_kBlockSize_def)
  let ?free = "(ar_alloc_ptr a, ar_alloc_bytes_remaining a)"
  have old: "\<And>c. c \<in> set chunks \<Longrightarrow> range_of c \<subseteq> ?old" "\<And>c. c \<in> set chunks \<Longrightarrow> range_of c \<inter> range_of ?free = {}"
    "range_of ?free \<subseteq> ?old" "sorted_wrt (\<lambda>c d. range_of c \<inter> range_of d = {}) chunks"
    "ar_memory_usage a = (\<Sum>b\<leftarrow>ar_blocks a. snd b + 8)"
    using inv by (auto simp: arena_inv_def Let_def)
  let ?free' = "(ar_alloc_ptr a', ar_alloc_bytes_remaining a')"
  have new: "(\<Union>b\<in>set (ar_blocks a'). range_of b) = ?old \<union> range_of (p, m)"
    by (auto simp: blocks)
  have apart: "\<And>c. c \<in> set chunks \<Longrightarrow> range_of c \<inter> range_of (p, m) = {}" using old(1) fresh(1) by blast
  have f: "range_of ?free' \<subseteq> ?old \<union> range_of (p, m)" "range_of (p, n) \<inter> range_of ?free' = {}"
    "\<And>c. c \<in> set chunks \<Longrightarrow> range_of c \<inter> range_of ?free' = {}"
  proof -
    have "range_of ?free' = range_of ?free \<and> range_of (p, n) \<inter> range_of ?free = {}
        \<or> range_of ?free' \<subseteq> range_of (p, m) \<and> range_of (p, n) \<inter> range_of ?free' = {}"
    proof (cases "n > arena_kBlockSize div 4")
      case True
      then have "?free' = ?free" using free by simp
      with disjoint_inside [OF old(3) fresh(1) nm] show ?thesis by simp
    next
      case False
      then have "?free' = (p + n, arena_kBlockSize - n)" using free by simp
      with rest False show ?thesis by simp
    qed
    then show "range_of ?free' \<subseteq> ?old \<union> range_of (p, m)" "range_of (p, n) \<inter> range_of ?free' = {}"
      "\<And>c. c \<in> set chunks \<Longrightarrow> range_of c \<inter> range_of ?free' = {}"
      using old(2,3) apart by blast+
  qed
  have "\<And>c. c \<in> set chunks \<Longrightarrow> range_of c \<inter> range_of (p, n) = {}" using apart nm by blast
  moreover have "range_of (p, n) \<subseteq> ?old \<union> range_of (p, m)" using nm by blast
  moreover have "\<And>c. c \<in> set chunks \<Longrightarrow> range_of c \<subseteq> ?old \<union> range_of (p, m)" using old(1) by blast
  ultimately show ?thesis
    using old(4,5) f unfolding arena_inv_def Let_def new mu
    by (simp add: sorted_wrt_append blocks fresh(2) ball_Un)
qed

lemma free_piece_inv:
  assumes inv: "arena_inv a chunks" and fit: "slop + n \<le> ar_alloc_bytes_remaining a"
  shows "arena_inv (a\<lparr>ar_alloc_ptr := ar_alloc_ptr a + (slop + n),
      ar_alloc_bytes_remaining := ar_alloc_bytes_remaining a - (slop + n)\<rparr>)
    (chunks @ [(ar_alloc_ptr a + slop, n)])"
proof -
  let ?free = "(ar_alloc_ptr a, ar_alloc_bytes_remaining a)"
  let ?p = "(ar_alloc_ptr a + slop, n)"
  let ?f = "(ar_alloc_ptr a + (slop + n), ar_alloc_bytes_remaining a - (slop + n))"
  have "range_of ?p \<subseteq> range_of ?free" "range_of ?f \<subseteq> range_of ?free" "range_of ?p \<inter> range_of ?f = {}"
    using fit by (auto simp: range_of_def)
  then show ?thesis
    using inv unfolding arena_inv_def Let_def
    by (simp add: sorted_wrt_append) blast
qed

lemma Allocate_inv:
  assumes "arena_inv a chunks" "allocator_ok new_block" "Allocate new_block n a = (p, a')"
  shows "arena_inv a' (chunks @ [(p, n)])"
proof (cases "n \<le> ar_alloc_bytes_remaining a")
  case True
  with free_piece_inv [OF assms(1), of 0 n] assms(3) show ?thesis
    by (auto simp: Allocate_def)
next
  case False
  with AllocateFallback_inv [OF assms(1,2)] assms(3) show ?thesis
    by (simp add: Allocate_def)
qed

lemma AllocateAligned_inv:
  assumes "arena_inv a chunks" "allocator_ok new_block" "AllocateAligned new_block n a = (p, a')"
  shows "arena_inv a' (chunks @ [(p, n)]) \<and> p mod 8 = 0"
proof -
  define slop where "slop = (if ar_alloc_ptr a mod 8 = 0 then 0 else 8 - ar_alloc_ptr a mod 8)"
  have al: "(ar_alloc_ptr a + slop) mod 8 = 0" by (auto simp: slop_def) presburger
  show ?thesis
  proof (cases "n + slop \<le> ar_alloc_bytes_remaining a")
    case True
    with free_piece_inv [OF assms(1), of slop n] assms(3) al show ?thesis
      by (auto simp: AllocateAligned_def Let_def slop_def [symmetric] ac_simps)
  next
    case False
    with AllocateFallback_inv [OF assms(1,2)] assms(3) show ?thesis
      by (simp add: AllocateAligned_def Let_def slop_def [symmetric])
  qed
qed

text \<open>A run of allocations, aligned or not.\<close>

fun arena_run ::
    "((nat \<times> nat) list \<Rightarrow> nat \<Rightarrow> nat) \<Rightarrow> (bool \<times> nat) list \<Rightarrow> Arena \<Rightarrow> (nat \<times> nat) list \<times> Arena" where
  "arena_run new_block [] a = ([], a)"
| "arena_run new_block ((aligned, n) # rs) a =
     (let (p, a1) = (if aligned then AllocateAligned else Allocate) new_block n a;
          (cs, a2) = arena_run new_block rs a1
      in ((p, n) # cs, a2))"

lemma arena_run_inv:
  assumes "arena_inv a chunks" "allocator_ok new_block" "arena_run new_block rs a = (cs, a')"
  shows "arena_inv a' (chunks @ cs) \<and> (\<forall>i<length rs. fst (rs ! i) \<longrightarrow> fst (cs ! i) mod 8 = 0)
    \<and> map snd cs = map snd rs"
  using assms
proof (induction rs arbitrary: a chunks cs)
  case (Cons r rs)
  obtain al n where r: "r = (al, n)" by (cases r)
  obtain p a1 where 1: "(if al then AllocateAligned else Allocate) new_block n a = (p, a1)"
    by fastforce
  obtain cs2 a2 where 2: "arena_run new_block rs a1 = (cs2, a2)" by fastforce
  have i: "arena_inv a1 (chunks @ [(p, n)])" "al \<Longrightarrow> p mod 8 = 0"
    using 1 Allocate_inv [OF Cons.prems(1,2)] AllocateAligned_inv [OF Cons.prems(1,2)]
    by (cases al; simp)+
  have cs: "cs = (p, n) # cs2" "a' = a2" using Cons.prems(3) 1 2 r by auto
  have ih: "arena_inv a' ((chunks @ [(p, n)]) @ cs2)
      \<and> (\<forall>i<length rs. fst (rs ! i) \<longrightarrow> fst (cs2 ! i) mod 8 = 0) \<and> map snd cs2 = map snd rs"
    using Cons.IH [OF i(1) Cons.prems(2)] 2 cs(2) by blast
  then show ?case
    using i(2) by (auto simp: cs(1) r nth_Cons split: nat.split)
qed simp

text \<open>
  C8: Memory safety of the pool: whatever sequence of plain and aligned requests
  it serves, the pieces it returns are pairwise disjoint and lie inside blocks
  obtained from \<^verbatim>\<open>new\<close>, aligned requests get addresses divisible by eight, and
  the reported memory usage is the sum of the blocks and their pointers.
\<close>

theorem arena_run_disjoint:
  assumes "allocator_ok new_block" "arena_run new_block rs Arena_new = (cs, a)"
  shows "sorted_wrt (\<lambda>c d. range_of c \<inter> range_of d = {}) cs
    \<and> (\<forall>c\<in>set cs. range_of c \<subseteq> (\<Union>b\<in>set (ar_blocks a). range_of b))
    \<and> (\<forall>i<length rs. fst (rs ! i) \<longrightarrow> fst (cs ! i) mod 8 = 0)
    \<and> MemoryUsage a = (\<Sum>b\<leftarrow>ar_blocks a. snd b + 8)"
  using arena_run_inv [OF arena_inv_new assms]
  by (simp add: arena_inv_def Let_def MemoryUsage_def)

text \<open>An allocator that places blocks one after the other, rounded up to eights.\<close>

definition bump_allocator :: "(nat \<times> nat) list \<Rightarrow> nat \<Rightarrow> nat" where
  "bump_allocator bs n = 8 * Suc (\<Sum>b\<leftarrow>bs. fst b + snd b)"

lemma bump_allocator_ok: "allocator_ok bump_allocator"
proof -
  have "fst b + snd b \<le> (\<Sum>b\<leftarrow>bs. fst b + snd b)" if "b \<in> set bs" for b and bs :: "(nat \<times> nat) list"
    using that by (induction bs) auto
  then show ?thesis
    by (fastforce simp: allocator_ok_def bump_allocator_def range_of_def)
qed

lemma arena_run_disjoint_witness:
  "let (cs, a) = arena_run bump_allocator [(False, 30), (True, 40), (False, 2000), (True, 4000)] Arena_new
   in sorted_wrt (\<lambda>c d. range_of c \<inter> range_of d = {}) cs \<and> length (ar_blocks a) = 2
      \<and> MemoryUsage a = 4096 + 4000 + 16"
proof -
  obtain cs a where run: "arena_run bump_allocator [(False, 30), (True, 40), (False, 2000), (True, 4000)]
      Arena_new = (cs, a)" by fastforce
  have "length (ar_blocks a) = 2" "MemoryUsage a = 4096 + 4000 + 16"
    using run by (auto simp: Allocate_def AllocateAligned_def AllocateFallback_def
        AllocateNewBlock_def Arena_new_def Let_def arena_kBlockSize_def bump_allocator_def MemoryUsage_def)
  with arena_run_disjoint [OF bump_allocator_ok run] show ?thesis
    unfolding run prod.case Let_def by blast
qed

end

