(* ===== verification/Memtable.thy ===== *)
theory Memtable
  imports Dbformat Skiplist Arena
begin

text \<open>
  The in-memory table of \<^verbatim>\<open>src/db/memtable.cc\<close>: a skip list of entries, each a
  length-prefixed internal key followed by a length-prefixed value, and its
  lookup.  \<^verbatim>\<open>user_compare\<close> is the user comparator; \<^verbatim>\<open>new_block\<close> the system
  allocator behind the arena.
\<close>

section \<open>Entries\<close>

text \<open>
  \<^verbatim>\<open>GetLengthPrefixedSlice\<close> of this file: it looks at five bytes at most for the
  length.  The result is the slice and the bytes behind it.
\<close>

definition Mem_GetLengthPrefixedSlice :: "bytes \<Rightarrow> bytes \<times> bytes" where
  "Mem_GetLengthPrefixedSlice data =
     (case GetVarint32Ptr (take 5 data) of
        None \<Rightarrow> ([], [])
      | Some (len, rest) \<Rightarrow>
          (let p = drop (min 5 (length data) - length rest) data
           in (take (unat len) p, drop (unat len) p)))"

definition EncodeKey :: "bytes \<Rightarrow> bytes" where
  "EncodeKey target = PutVarint32 [] (of_nat (length target)) @ target"

definition MemTable_KeyComparator :: "(bytes \<Rightarrow> bytes \<Rightarrow> int) \<Rightarrow> bytes \<Rightarrow> bytes \<Rightarrow> int" where
  "MemTable_KeyComparator user_compare aptr bptr =
     InternalKeyComparator_Compare user_compare
       (fst (Mem_GetLengthPrefixedSlice aptr)) (fst (Mem_GetLengthPrefixedSlice bptr))"

section \<open>The table\<close>

record MemTable =
  mt_refs :: int
  mt_arena :: Arena
  mt_table :: "bytes SkipList"

text \<open>A node is a key pointer and \<^verbatim>\<open>height\<close> next pointers of eight bytes.\<close>

definition NewNode_size :: "nat \<Rightarrow> nat" where
  "NewNode_size height = 16 + 8 * (height - 1)"

definition MemTable_new :: "((nat \<times> nat) list \<Rightarrow> nat \<Rightarrow> nat) \<Rightarrow> MemTable" where
  "MemTable_new new_block =
     \<lparr> mt_refs = 0,
       mt_arena = snd (AllocateAligned new_block (NewNode_size kMaxHeight) Arena_new),
       mt_table = SkipList_new \<rparr>"

definition MemTable_Ref :: "MemTable \<Rightarrow> MemTable" where
  "MemTable_Ref m = m\<lparr>mt_refs := mt_refs m + 1\<rparr>"

text \<open>\<^verbatim>\<open>Unref\<close> deletes the table when the count reaches zero: \<^verbatim>\<open>None\<close>.\<close>

definition MemTable_Unref :: "MemTable \<Rightarrow> MemTable option" where
  "MemTable_Unref m =
     (let m1 = m\<lparr>mt_refs := mt_refs m - 1\<rparr> in if mt_refs m1 \<le> 0 then None else Some m1)"

definition MemTable_ApproximateMemoryUsage :: "MemTable \<Rightarrow> nat" where
  "MemTable_ApproximateMemoryUsage m = MemoryUsage (mt_arena m)"

definition MemTable_entry :: "u64 \<Rightarrow> ValueType \<Rightarrow> bytes \<Rightarrow> bytes \<Rightarrow> bytes" where
  "MemTable_entry s t key val =
     (let internal_key_size = length key + 8
      in EncodeVarint32 (of_nat internal_key_size) @ key
         @ EncodeFixed64 (push_bit 8 s OR ValueType_code t)
         @ EncodeVarint32 (of_nat (length val)) @ val)"

definition MemTable_encoded_len :: "bytes \<Rightarrow> bytes \<Rightarrow> nat" where
  "MemTable_encoded_len key val =
     (let internal_key_size = length key + 8
      in VarintLength (of_nat internal_key_size) + internal_key_size
         + VarintLength (of_nat (length val)) + length val)"

definition MemTable_Add ::
    "(bytes \<Rightarrow> bytes \<Rightarrow> int) \<Rightarrow> ((nat \<times> nat) list \<Rightarrow> nat \<Rightarrow> nat) \<Rightarrow>
     MemTable \<Rightarrow> u64 \<Rightarrow> ValueType \<Rightarrow> bytes \<Rightarrow> bytes \<Rightarrow> MemTable option"
where
  "MemTable_Add user_compare new_block m s t key val =
     (let (buf, arena1) = Allocate new_block (MemTable_encoded_len key val) (mt_arena m);
          height = fst (RandomHeight (sk_rnd (mt_table m)));
          (node, arena2) = AllocateAligned new_block (NewNode_size height) arena1
      in case SkipList_Insert (MemTable_KeyComparator user_compare) (mt_table m)
                (MemTable_entry s t key val) of
           None \<Rightarrow> None
         | Some table \<Rightarrow> Some (m\<lparr>mt_arena := arena2, mt_table := table\<rparr>))"

text \<open>
  \<^verbatim>\<open>Get\<close> returns whether it decided the lookup and sets the value or the status;
  the outer \<^verbatim>\<open>None\<close> is a search that does not end.
\<close>

definition MemTable_Get ::
    "(bytes \<Rightarrow> bytes \<Rightarrow> int) \<Rightarrow> MemTable \<Rightarrow> LookupKey \<Rightarrow>
     (bool \<times> bytes option \<times> Status option) option"
where
  "MemTable_Get user_compare m key =
     (let kptr = EncodeKey (LookupKey_internal_key key) in
      case SkipIter_Seek (MemTable_KeyComparator user_compare) (mt_table m) kptr of
        None \<Rightarrow> None
      | Some None \<Rightarrow> Some (False, None, None)
      | Some (Some n) \<Rightarrow>
          (let (internal_key, behind) = Mem_GetLengthPrefixedSlice (node_key (mt_table m) n);
               found_user_key = take (length internal_key - 8) internal_key
           in if user_compare found_user_key (LookupKey_user_key key) = 0 then
                let tag = DecodeFixed64 (drop (length internal_key - 8) internal_key);
                    c = tag AND 0xff
                in if c = 1
                   then Some (True, Some (fst (Mem_GetLengthPrefixedSlice behind)), None)
                   else if c = 0 then Some (True, None, Some (Status_new kNotFound [] []))
                   else Some (False, None, None)
              else Some (False, None, None)))"

text \<open>The iterator of the table; positions are nodes of the skip list.\<close>

definition MemTableIterator_Seek ::
    "(bytes \<Rightarrow> bytes \<Rightarrow> int) \<Rightarrow> MemTable \<Rightarrow> bytes \<Rightarrow> nat option option" where
  "MemTableIterator_Seek user_compare m k =
     SkipIter_Seek (MemTable_KeyComparator user_compare) (mt_table m) (EncodeKey k)"

definition MemTableIterator_SeekToFirst :: "MemTable \<Rightarrow> nat option" where
  "MemTableIterator_SeekToFirst m = SkipIter_SeekToFirst (mt_table m)"

definition MemTableIterator_SeekToLast :: "MemTable \<Rightarrow> nat option option" where
  "MemTableIterator_SeekToLast m = SkipIter_SeekToLast (mt_table m)"

definition MemTableIterator_Next :: "MemTable \<Rightarrow> nat \<Rightarrow> nat option" where
  "MemTableIterator_Next m n = SkipIter_Next (mt_table m) n"

definition MemTableIterator_Prev ::
    "(bytes \<Rightarrow> bytes \<Rightarrow> int) \<Rightarrow> MemTable \<Rightarrow> nat \<Rightarrow> nat option option" where
  "MemTableIterator_Prev user_compare m n =
     SkipIter_Prev (MemTable_KeyComparator user_compare) (mt_table m) n"

definition MemTableIterator_key :: "MemTable \<Rightarrow> nat \<Rightarrow> bytes" where
  "MemTableIterator_key m n = fst (Mem_GetLengthPrefixedSlice (node_key (mt_table m) n))"

definition MemTableIterator_value :: "MemTable \<Rightarrow> nat \<Rightarrow> bytes" where
  "MemTableIterator_value m n =
     fst (Mem_GetLengthPrefixedSlice (snd (Mem_GetLengthPrefixedSlice (node_key (mt_table m) n))))"

section \<open>Reading entries back\<close>

lemma Mem_GetLengthPrefixedSlice_Encode [codec]:
  assumes "length x < 2 ^ 32"
  shows "Mem_GetLengthPrefixedSlice (EncodeVarint32 (of_nat (length x)) @ x @ rest) = (x, rest)"
proof -
  let ?v = "EncodeVarint32 (of_nat (length x))"
  have len: "unat (of_nat (length x) :: u32) = length x"
    using assms by (simp add: unat_of_nat take_bit_nat_eq_self)
  have "take 5 (?v @ x @ rest) = ?v @ take (5 - length ?v) (x @ rest)"
    using length_EncodeVarint32_le by simp
  then have "GetVarint32Ptr (take 5 (?v @ x @ rest)) =
      Some (of_nat (length x), take (5 - length ?v) (x @ rest))"
    using GetVarint32_Encode by (simp add: GetVarint32_def)
  moreover have "min 5 (length (?v @ x @ rest)) - length (take (5 - length ?v) (x @ rest)) = length ?v"
  proof -
    have "a \<le> 5 \<Longrightarrow> min 5 (a + b) - min b (5 - a) = a" for a b :: nat by (simp add: min_def) arith
    from this [OF length_EncodeVarint32_le, of "of_nat (length x)" "length (x @ rest)"] show ?thesis
      by (simp only: length_append [of ?v] length_take)
  qed
  ultimately show ?thesis
    unfolding Mem_GetLengthPrefixedSlice_def by (simp only: Let_def option.case prod.case len) simp
qed

definition mem_ok :: "u64 \<times> ValueType \<times> bytes \<times> bytes \<Rightarrow> bool" where
  "mem_ok e = (case e of (s, t, key, val) \<Rightarrow>
     s \<le> kMaxSequenceNumber \<and> length key + 8 < 2 ^ 32 \<and> length val < 2 ^ 32)"

definition entry_key :: "u64 \<times> ValueType \<times> bytes \<times> bytes \<Rightarrow> bytes" where
  "entry_key e = (case e of (s, t, key, val) \<Rightarrow> InternalKey key s t)"

definition entry_bytes :: "u64 \<times> ValueType \<times> bytes \<times> bytes \<Rightarrow> bytes" where
  "entry_bytes e = (case e of (s, t, key, val) \<Rightarrow> MemTable_entry s t key val)"

lemma entry_parse:
  assumes "mem_ok (s, t, key, val)"
  shows "Mem_GetLengthPrefixedSlice (entry_bytes (s, t, key, val)) =
      (InternalKey key s t, EncodeVarint32 (of_nat (length val)) @ val)"
    and "Mem_GetLengthPrefixedSlice (EncodeVarint32 (of_nat (length val)) @ val) = (val, [])"
proof -
  have "entry_bytes (s, t, key, val) = EncodeVarint32 (of_nat (length (InternalKey key s t)))
      @ InternalKey key s t @ EncodeVarint32 (of_nat (length val)) @ val"
    by (simp add: entry_bytes_def MemTable_entry_def Let_def InternalKey_eq PackSequenceAndType_def)
  then show "Mem_GetLengthPrefixedSlice (entry_bytes (s, t, key, val)) =
      (InternalKey key s t, EncodeVarint32 (of_nat (length val)) @ val)"
    using Mem_GetLengthPrefixedSlice_Encode [of "InternalKey key s t"] assms
    by (simp add: mem_ok_def)
  show "Mem_GetLengthPrefixedSlice (EncodeVarint32 (of_nat (length val)) @ val) = (val, [])"
    using Mem_GetLengthPrefixedSlice_Encode [of val "[]"] assms by (simp add: mem_ok_def)
qed

lemma Mem_GetLengthPrefixedSlice_EncodeKey:
  "length k < 2 ^ 32 \<Longrightarrow> Mem_GetLengthPrefixedSlice (EncodeKey k) = (k, [])"
  using Mem_GetLengthPrefixedSlice_Encode [of k "[]"] by (simp add: EncodeKey_def PutVarint32_def)

text \<open>
  C11: The allocation of \<^verbatim>\<open>MemTable::Add\<close> is exact: the length it computes with
  \<^verbatim>\<open>VarintLength\<close> and asks the arena for is the length of the entry it then
  writes there.
\<close>

theorem MemTable_encoded_len_exact:
  assumes "length key + 8 < 2 ^ 32" "length val < 2 ^ 32"
  shows "length (MemTable_entry s t key val) = MemTable_encoded_len key val"
proof -
  have u: "(ucast (of_nat n :: u32) :: u64) = of_nat n" if "n < 2 ^ 32" for n
    using that by (simp add: word_unat_eq_iff unat_of_nat take_bit_nat_eq_self)
  show ?thesis
    using assms u [of "length key + 8"] u [of "length val"]
    by (simp add: MemTable_entry_def MemTable_encoded_len_def Let_def length_EncodeVarint32)
qed

lemma MemTable_encoded_len_exact_witness:
  "length (MemTable_entry 7 kTypeValue [1, 2] [3]) = MemTable_encoded_len [1, 2] [3]"
  by (rule MemTable_encoded_len_exact) simp_all

section \<open>What a memory table means\<close>

text \<open>
  The table holds the entries \<^verbatim>\<open>es\<close>, in internal key order.  The specification
  of a lookup: the newest entry of the key the snapshot sees.
\<close>

definition mem_table :: "MemTable \<Rightarrow> (u64 \<times> ValueType \<times> bytes \<times> bytes) list \<Rightarrow> bool" where
  "mem_table m es \<longleftrightarrow>
     skip_list (MemTable_KeyComparator ucmp) (mt_table m) (map entry_bytes es)
     \<and> (\<forall>e\<in>set es. mem_ok e)"

definition visible :: "bytes \<Rightarrow> u64 \<Rightarrow> u64 \<times> ValueType \<times> bytes \<times> bytes \<Rightarrow> bool" where
  "visible k snap e = (case e of (s, t, key, val) \<Rightarrow> key = k \<and> s \<le> snap)"

fun newest :: "bytes \<Rightarrow> u64 \<Rightarrow> (u64 \<times> ValueType \<times> bytes \<times> bytes) list \<Rightarrow>
    (u64 \<times> ValueType \<times> bytes \<times> bytes) option" where
  "newest k snap [] = None"
| "newest k snap (e # es) =
     (if visible k snap e then
        case newest k snap es of
          None \<Rightarrow> Some e
        | Some e' \<Rightarrow> if ExtractTag (entry_key e') < ExtractTag (entry_key e) then Some e else Some e'
      else newest k snap es)"

definition mem_answer ::
    "(u64 \<times> ValueType \<times> bytes \<times> bytes) option \<Rightarrow> bool \<times> bytes option \<times> Status option" where
  "mem_answer r =
     (case r of
        None \<Rightarrow> (False, None, None)
      | Some (s, t, key, val) \<Rightarrow>
          (case t of kTypeValue \<Rightarrow> (True, Some val, None)
                   | kTypeDeletion \<Rightarrow> (True, None, Some (Status_new kNotFound [] []))))"

lemma newest_None: "newest k snap es = None \<longleftrightarrow> (\<forall>e\<in>set es. \<not> visible k snap e)"
  by (induction es) (auto split: option.splits if_splits)

lemma newest_in: "newest k snap es = Some e \<Longrightarrow> e \<in> set es \<and> visible k snap e"
  by (induction es arbitrary: e) (auto split: option.splits if_splits)

lemma newest_max:
  "newest k snap es = Some e \<Longrightarrow> e' \<in> set es \<Longrightarrow> visible k snap e' \<Longrightarrow>
   ExtractTag (entry_key e') \<le> ExtractTag (entry_key e)"
  by (induction es arbitrary: e) (fastforce split: option.splits if_splits simp: newest_None)+

lemma key_comparator_pullback:
  "key_comparator c \<Longrightarrow> key_comparator (\<lambda>a b. c (f a) (f b))"
  by (simp add: key_comparator_def)

interpretation memcmp: key_comparator "MemTable_KeyComparator ucmp"
proof -
  have "MemTable_KeyComparator ucmp = (\<lambda>a b. icmp (fst (Mem_GetLengthPrefixedSlice a))
      (fst (Mem_GetLengthPrefixedSlice b)))"
    by (simp add: fun_eq_iff MemTable_KeyComparator_def)
  then show "key_comparator (MemTable_KeyComparator ucmp)"
    using key_comparator_pullback [OF internal.key_comparator_axioms] by simp
qed

lemma MemTable_KeyComparator_entries:
  assumes "mem_ok e" "mem_ok e'"
  shows "MemTable_KeyComparator ucmp (entry_bytes e) (entry_bytes e') = icmp (entry_key e) (entry_key e')"
  using assms by (cases e; cases e') (simp add: MemTable_KeyComparator_def entry_parse entry_key_def)

lemma MemTable_KeyComparator_lookup:
  assumes "mem_ok e" "length k < 2 ^ 32"
  shows "MemTable_KeyComparator ucmp (entry_bytes e) (EncodeKey k) = icmp (entry_key e) k"
  using assms by (cases e) (simp add: MemTable_KeyComparator_def entry_parse entry_key_def
      Mem_GetLengthPrefixedSlice_EncodeKey)

lemma mem_table_sorted:
  assumes "mem_table m es"
  shows "sorted_wrt (\<lambda>e e'. icmp (entry_key e) (entry_key e') < 0) es"
proof -
  have "sorted_wrt (\<lambda>e e'. MemTable_KeyComparator ucmp (entry_bytes e) (entry_bytes e') < 0) es"
    using assms memcmp.skip_list_increasing [of "mt_table m" "map entry_bytes es"]
    by (simp add: mem_table_def sorted_wrt_map)
  then show ?thesis
    by (rule sorted_wrt_mono_rel [rotated])
      (use assms in \<open>simp add: mem_table_def MemTable_KeyComparator_entries\<close>)
qed

lemma mem_table_new: "mem_table (MemTable_new new_block) []"
  using memcmp.skip_list_new by (simp add: mem_table_def MemTable_new_def)

lemma MemTable_Add_result:
  assumes m: "mem_table m es" and ok: "mem_ok (s, t, key, val)"
    and fresh: "\<forall>e\<in>set es. entry_key e \<noteq> InternalKey key s t"
  obtains m' es' where "MemTable_Add ucmp new_block m s t key val = Some m'" "mem_table m' es'"
    "set es' = insert (s, t, key, val) (set es)"
proof -
  let ?e = "(s, t, key, val)"
  let ?P = "\<lambda>b. MemTable_KeyComparator ucmp b (entry_bytes ?e) < 0"
  define es' where "es' = takeWhile (?P \<circ> entry_bytes) es @ ?e # dropWhile (?P \<circ> entry_bytes) es"
  have okes: "\<And>e. e \<in> set es \<Longrightarrow> mem_ok e" and sl: "skip_list (MemTable_KeyComparator ucmp) (mt_table m) (map entry_bytes es)"
    using m by (simp_all add: mem_table_def)
  have "\<forall>b\<in>set (map entry_bytes es). MemTable_KeyComparator ucmp b (entry_bytes ?e) \<noteq> 0"
    using fresh okes ok icmp_zero_InternalKey
    by (auto simp: MemTable_KeyComparator_entries entry_key_def)
  from memcmp.skip_list_Insert [OF sl this] obtain table where
    table: "SkipList_Insert (MemTable_KeyComparator ucmp) (mt_table m) (entry_bytes ?e) = Some table"
    "skip_list (MemTable_KeyComparator ucmp) table (takeWhile ?P (map entry_bytes es) @ entry_bytes ?e
       # dropWhile ?P (map entry_bytes es))" .
  have eq: "takeWhile ?P (map entry_bytes es) @ entry_bytes ?e # dropWhile ?P (map entry_bytes es)
      = map entry_bytes es'"
    by (simp add: es'_def takeWhile_map dropWhile_map)
  have "\<exists>m'. MemTable_Add ucmp new_block m s t key val = Some m' \<and> mt_table m' = table"
    using table(1) by (auto simp: MemTable_Add_def Let_def entry_bytes_def split: prod.split)
  then obtain m' where m': "MemTable_Add ucmp new_block m s t key val = Some m'" "mt_table m' = table"
    by blast
  have s': "set es' = insert ?e (set es)"
    using set_takeWhile_dropWhile [of "?P \<circ> entry_bytes" es] by (auto simp: es'_def)
  moreover have "mem_table m' es'"
    using table(2) okes ok m'(2) s' unfolding eq mem_table_def by auto
  ultimately show ?thesis using that m'(1) by blast
qed

lemma visible_iff:
  assumes "mem_ok e" "snap \<le> kMaxSequenceNumber"
  shows "visible k snap e \<longleftrightarrow> ExtractUserKey (entry_key e) = k
    \<and> \<not> icmp (entry_key e) (InternalKey k snap kValueTypeForSeek) < 0"
proof -
  obtain s t key val where e: "e = (s, t, key, val)" by (cases e)
  have "icmp (InternalKey k snap kValueTypeForSeek) (InternalKey k s t) \<le> 0 \<longleftrightarrow> s \<le> snap"
    using lookup_key_visible [of s snap k t] assms by (simp add: e mem_ok_def)
  then show ?thesis
    using internal.cmp_le_iff [of "InternalKey k snap kValueTypeForSeek" "InternalKey k s t"]
    by (auto simp: e visible_def entry_key_def)
qed

lemma newest_None_nth:
  assumes "\<And>j. j < length es \<Longrightarrow> \<not> visible k snap (es ! j)"
  shows "newest k snap es = None"
  unfolding newest_None
proof
  fix e assume "e \<in> set es"
  then obtain j where "j < length es" "es ! j = e" unfolding in_set_conv_nth by blast
  with assms [of j] show "\<not> visible k snap e" by blast
qed

lemma MemTable_Get_newest:
  assumes m: "mem_table m es" and snap: "snap \<le> kMaxSequenceNumber" and k: "length k + 8 < 2 ^ 32"
  shows "MemTable_Get ucmp m (LookupKey_new k snap) = Some (mem_answer (newest k snap es))"
proof -
  let ?lk = "InternalKey k snap kValueTypeForSeek"
  have lk: "length ?lk < 2 ^ 32" using k by simp
  have okes: "\<And>e. e \<in> set es \<Longrightarrow> mem_ok e"
    and sl: "skip_list (MemTable_KeyComparator ucmp) (mt_table m) (map entry_bytes es)"
    using m by (simp_all add: mem_table_def)
  note sorted = mem_table_sorted [OF m]
  define i where "i = length (takeWhile (\<lambda>e. icmp (entry_key e) ?lk < 0) es)"
  have tw: "length (takeWhile (\<lambda>b. MemTable_KeyComparator ucmp b (EncodeKey ?lk) < 0) (map entry_bytes es)) = i"
  proof -
    have "takeWhile (\<lambda>e. MemTable_KeyComparator ucmp (entry_bytes e) (EncodeKey ?lk) < 0) es =
        takeWhile (\<lambda>e. icmp (entry_key e) ?lk < 0) es"
      using okes MemTable_KeyComparator_lookup [OF _ lk] by (intro takeWhile_cong) auto
    then show ?thesis by (simp add: takeWhile_map comp_def i_def)
  qed
  obtain node where node: "SkipIter_Seek (MemTable_KeyComparator ucmp) (mt_table m) (EncodeKey ?lk) = Some node"
    "skip_at (MemTable_KeyComparator ucmp) (mt_table m) node i"
    using memcmp.skip_Seek [OF sl, of "EncodeKey ?lk"] unfolding tw by blast
  have before: "\<not> visible k snap (es ! j)" if "j < i" for j
  proof -
    have j: "j < length es" using that length_takeWhile_le [of "\<lambda>e. icmp (entry_key e) ?lk < 0" es] unfolding i_def by linarith
    have "icmp (entry_key (es ! j)) ?lk < 0"
      using nth_length_takeWhile that unfolding i_def
      by (metis (mono_tags, lifting) nth_mem set_takeWhileD takeWhile_nth)
    then show ?thesis using visible_iff [OF okes [OF nth_mem [OF j]] snap, of k] by blast
  qed
  show ?thesis
  proof (cases node)
    case None
    then have "length es \<le> i" using memcmp.skip_at_key(2) [OF sl] node(2) by simp
    then have "newest k snap es = None" using before by (intro newest_None_nth) simp
    then show ?thesis using node(1) None by (simp add: MemTable_Get_def mem_answer_def)
  next
    case (Some n)
    then have i: "i < length es" and key: "node_key (mt_table m) n = entry_bytes (es ! i)"
      using memcmp.skip_at_key(1) [OF sl] node(2) by auto
    obtain s t uk val where e: "es ! i = (s, t, uk, val)" by (cases "es ! i")
    have ok: "mem_ok (s, t, uk, val)" using okes [OF nth_mem [OF i]] by (simp add: e)
    have at: "\<not> icmp (entry_key (es ! i)) ?lk < 0"
      using nth_length_takeWhile [of "\<lambda>e. icmp (entry_key e) ?lk < 0" es] i by (simp add: i_def)
    have after: "icmp (entry_key (es ! i)) (entry_key (es ! j)) < 0" if "i < j" "j < length es" for j
      using sorted_wrt_nth_less [OF sorted that] .
    have get: "MemTable_Get ucmp m (LookupKey_new k snap) =
        Some (if uk = k then mem_answer (Some (s, t, uk, val)) else (False, None, None))"
    proof -
      have tag: "DecodeFixed64 (drop (length (InternalKey uk s t) - 8) (InternalKey uk s t))
          = PackSequenceAndType s t" using ExtractTag_InternalKey by (simp add: ExtractTag_def)
      have user: "take (length (InternalKey uk s t) - 8) (InternalKey uk s t) = uk"
        using ExtractUserKey_InternalKey by (simp add: ExtractUserKey_def)
      show ?thesis
        unfolding MemTable_Get_def Let_def LookupKey_internal_key_eq node(1) Some option.case key e
          entry_parse(1) [OF ok] prod.case LookupKey_user_key_eq tag user Pack_type entry_parse(2) [OF ok]
        by (cases t) (simp_all add: mem_answer_def)
    qed
    show ?thesis
    proof (cases "uk = k")
      case True
      then have vis: "visible k snap (es ! i)"
        using visible_iff [OF okes [OF nth_mem [OF i]] snap, of k] at by (simp add: e entry_key_def)
      then obtain e2 where e2: "newest k snap es = Some e2"
        using newest_None [of k snap es] nth_mem [OF i] by blast
      then obtain j where j: "j < length es" "e2 = es ! j" "visible k snap (es ! j)"
        using newest_in [OF e2] by (auto simp: in_set_conv_nth)
      have "j = i"
      proof (rule ccontr)
        assume "j \<noteq> i"
        then have "i < j" using before j(3) by (meson linorder_neqE_nat)
        then have "icmp (entry_key (es ! i)) (entry_key (es ! j)) < 0" using after j(1) by blast
        moreover have "ExtractUserKey (entry_key (es ! j)) = k" "ExtractUserKey (entry_key (es ! i)) = k"
          using j(3) vis visible_iff okes nth_mem i j(1) snap by metis+
        ultimately have "ExtractTag (entry_key (es ! j)) < ExtractTag (entry_key (es ! i))"
          by (auto simp: InternalKeyComparator_Compare_eq Let_def split: if_splits)
        with newest_max [OF e2 nth_mem [OF i] vis] j(2) show False by simp
      qed
      then show ?thesis using get True e2 j(2) e by simp
    next
      case False
      have "\<not> visible k snap (es ! j)" if j: "j < length es" for j
      proof
        assume vis: "visible k snap (es ! j)"
        then have "i \<le> j" using before by (meson not_le)
        moreover have "j \<noteq> i" using vis False by (auto simp: e visible_def)
        ultimately have "icmp (entry_key (es ! i)) (entry_key (es ! j)) < 0" using after j by simp
        moreover have uj: "ExtractUserKey (entry_key (es ! j)) = k"
          using vis visible_iff [OF okes [OF nth_mem [OF j]] snap] by blast
        ultimately have "ucmp uk k \<le> 0"
          using icmp_user_le [of "entry_key (es ! i)" "entry_key (es ! j)"] by (simp add: e entry_key_def)
        then have "ucmp uk k < 0" using False by (simp add: order_le_less)
        then have "icmp (entry_key (es ! i)) ?lk < 0"
          by (intro icmp_user_less) (simp add: e entry_key_def)
        with at show False by blast
      qed
      then have "newest k snap es = None" by (rule newest_None_nth)
      then show ?thesis using get False by (simp add: mem_answer_def)
    qed
  qed
qed

section \<open>The table after a run of insertions\<close>

fun MemTable_AddAll ::
    "((nat \<times> nat) list \<Rightarrow> nat \<Rightarrow> nat) \<Rightarrow> MemTable \<Rightarrow> (u64 \<times> ValueType \<times> bytes \<times> bytes) list \<Rightarrow> MemTable option"
where
  "MemTable_AddAll new_block m [] = Some m"
| "MemTable_AddAll new_block m ((s, t, key, val) # es) =
     (case MemTable_Add ucmp new_block m s t key val of
        None \<Rightarrow> None
      | Some m' \<Rightarrow> MemTable_AddAll new_block m' es)"

lemma MemTable_AddAll_result:
  assumes "mem_table m es0" "\<forall>e\<in>set es. mem_ok e" "distinct (map entry_key es)"
    and "\<forall>e\<in>set es. \<forall>e0\<in>set es0. entry_key e0 \<noteq> entry_key e"
  shows "\<exists>m' es'. MemTable_AddAll new_block m es = Some m' \<and> mem_table m' es' \<and> set es' = set es0 \<union> set es"
  using assms
proof (induction es arbitrary: m es0)
  case Nil
  then show ?case by auto
next
  case (Cons e es)
  obtain s t key val where e: "e = (s, t, key, val)" by (cases e)
  have fresh: "\<forall>e0\<in>set es0. entry_key e0 \<noteq> InternalKey key s t"
    using Cons.prems(4) by (auto simp: e entry_key_def)
  have ok: "mem_ok (s, t, key, val)" using Cons.prems(2) by (simp add: e)
  obtain m1 es1 where m1: "MemTable_Add ucmp new_block m s t key val = Some m1" "mem_table m1 es1"
    "set es1 = insert e (set es0)"
    by (rule MemTable_Add_result [OF Cons.prems(1) ok fresh, of new_block]) (simp add: e)
  have "\<forall>a\<in>set es. \<forall>e0\<in>set es1. entry_key e0 \<noteq> entry_key a"
    using Cons.prems(3,4) m1(3) by (auto simp: image_iff)
  with Cons.IH [OF m1(2)] Cons.prems(2,3) m1(1,3) show ?case by (auto simp: e)
qed

lemma newest_cong:
  assumes "set es = set es'" "\<And>e e'. e \<in> set es \<Longrightarrow> e' \<in> set es \<Longrightarrow> entry_key e = entry_key e' \<Longrightarrow> e = e'"
    and "\<And>e. e \<in> set es \<Longrightarrow> mem_ok e" "snap \<le> kMaxSequenceNumber"
  shows "newest k snap es = newest k snap es'"
proof (cases "newest k snap es")
  case None
  then show ?thesis using assms(1) newest_None by metis
next
  case (Some e)
  then obtain e' where e': "newest k snap es' = Some e'"
    using assms(1) newest_None [of k snap es'] newest_in [OF Some] by blast
  have in1: "e \<in> set es" "visible k snap e" and in2: "e' \<in> set es" "visible k snap e'"
    using newest_in [OF Some] newest_in [OF e'] assms(1) by auto
  have tags: "ExtractTag (entry_key e) = ExtractTag (entry_key e')"
    using newest_max [OF Some in2] newest_max [OF e' _ in1(2)] in1 assms(1) by fastforce
  have "entry_key e = entry_key e'"
    using tags in1(2) in2(2) by (cases e; cases e') (auto simp: entry_key_def visible_def InternalKey_eq)
  then show ?thesis using Some e' assms(2) in1(1) in2(1) by simp
qed

text \<open>
  C3: The memory table is a multi-version map.  After any run of insertions with
  pairwise different internal keys, every operation ends, and a lookup of a user
  key at a snapshot returns exactly what the newest insertion of that key not
  after the snapshot left: its value, or not-found for a deletion, and no
  decision when there is none; the order of insertion does not matter.
\<close>

theorem MemTable_refines_history:
  assumes "\<forall>e\<in>set es. mem_ok e" "distinct (map entry_key es)"
    and "snap \<le> kMaxSequenceNumber" "length k + 8 < 2 ^ 32"
  shows "\<exists>m. MemTable_AddAll new_block (MemTable_new new_block) es = Some m
    \<and> MemTable_Get ucmp m (LookupKey_new k snap) = Some (mem_answer (newest k snap es))"
proof -
  obtain m es' where m: "MemTable_AddAll new_block (MemTable_new new_block) es = Some m"
    "mem_table m es'" "set es' = set es"
    using MemTable_AddAll_result [OF mem_table_new assms(1,2), of new_block new_block] by auto
  have "newest k snap es' = newest k snap es"
    by (rule newest_cong) (use m assms(1-3) in \<open>auto simp: distinct_map inj_on_def\<close>)
  then show ?thesis using m MemTable_Get_newest [OF m(2) assms(3,4)] by auto
qed

lemma MemTable_refines_history_witness:
  "\<exists>m. MemTable_AddAll bump_allocator (MemTable_new bump_allocator)
        [(3, kTypeValue, [1], [7]), (5, kTypeDeletion, [1], []), (4, kTypeValue, [2], [9])] = Some m
    \<and> MemTable_Get ucmp m (LookupKey_new [1] 4) = Some (True, Some [7], None)"
proof -
  let ?es = "[(3, kTypeValue, [1], [7]), (5, kTypeDeletion, [1], []), (4, kTypeValue, [2], [9])]"
  have max: "(5::u64) \<le> kMaxSequenceNumber" "(4::u64) \<le> kMaxSequenceNumber" "(3::u64) \<le> kMaxSequenceNumber"
    by (simp_all add: kMaxSequenceNumber_def)
  have ok: "\<forall>e\<in>set ?es. mem_ok e" using max by (simp add: mem_ok_def)
  have dist: "distinct (map entry_key ?es)" using max by (simp add: entry_key_def InternalKey_inject)
  have "newest [1] 4 ?es = Some (3, kTypeValue, [1], [7])"
    by (simp add: visible_def)
  with MemTable_refines_history [OF ok dist max(2), of "[1]" bump_allocator] show ?thesis
    by (simp add: mem_answer_def)
qed

end
