(* ===== verification/Write_Batch.thy ===== *)
theory Write_Batch
  imports Memtable
begin

text \<open>
  Write batches: \<^verbatim>\<open>src/db/write_batch.cc\<close>,
  \<^verbatim>\<open>src/db/include/write_batch.h\<close> and \<^verbatim>\<open>write_batch_internal.h\<close>.  A batch is its
  string \<^verbatim>\<open>rep_\<close>: an eight-byte sequence number, a four-byte count and the
  records.  The count, an \<^verbatim>\<open>int\<close> in the code, is kept as its 32 bits.
\<close>

definition kHeader :: nat where "kHeader = 12"

definition WriteBatch_Clear :: bytes where
  "WriteBatch_Clear = replicate kHeader 0"

definition WriteBatch_ApproximateSize :: "bytes \<Rightarrow> nat" where
  "WriteBatch_ApproximateSize rep = length rep"

definition WriteBatch_Count :: "bytes \<Rightarrow> u32" where
  "WriteBatch_Count rep = DecodeFixed32 (drop 8 rep)"

definition WriteBatch_SetCount :: "bytes \<Rightarrow> u32 \<Rightarrow> bytes" where
  "WriteBatch_SetCount rep n = take 8 rep @ EncodeFixed32 n @ drop 12 rep"

definition WriteBatch_Sequence :: "bytes \<Rightarrow> u64" where
  "WriteBatch_Sequence rep = DecodeFixed64 rep"

definition WriteBatch_SetSequence :: "bytes \<Rightarrow> u64 \<Rightarrow> bytes" where
  "WriteBatch_SetSequence rep seq = EncodeFixed64 seq @ drop 8 rep"

definition WriteBatch_Put :: "bytes \<Rightarrow> bytes \<Rightarrow> bytes \<Rightarrow> bytes" where
  "WriteBatch_Put rep key val =
     (let r1 = WriteBatch_SetCount rep (WriteBatch_Count rep + 1);
          r2 = r1 @ [1]
      in PutLengthPrefixedSlice (PutLengthPrefixedSlice r2 key) val)"

definition WriteBatch_Delete :: "bytes \<Rightarrow> bytes \<Rightarrow> bytes" where
  "WriteBatch_Delete rep key =
     (let r1 = WriteBatch_SetCount rep (WriteBatch_Count rep + 1);
          r2 = r1 @ [0]
      in PutLengthPrefixedSlice r2 key)"

definition WriteBatch_SetContents :: "bytes \<Rightarrow> bytes" where
  "WriteBatch_SetContents contents = contents"

definition WriteBatch_Append :: "bytes \<Rightarrow> bytes \<Rightarrow> bytes" where
  "WriteBatch_Append dst src =
     WriteBatch_SetCount dst (WriteBatch_Count dst + WriteBatch_Count src) @ drop kHeader src"

text \<open>
  The loop of \<^verbatim>\<open>Iterate\<close>.  The handler is a pair of functions on its state
  \<^verbatim>\<open>st\<close>.  \<^verbatim>\<open>Inl\<close> is an early return, \<^verbatim>\<open>Inr\<close> the number of records found; the
  state comes out either way, because the handler has been called already.
\<close>

function WriteBatch_Iterate_loop ::
    "(bytes \<Rightarrow> bytes \<Rightarrow> 's \<Rightarrow> 's) \<Rightarrow> (bytes \<Rightarrow> 's \<Rightarrow> 's) \<Rightarrow> bytes \<Rightarrow> u32 \<Rightarrow> 's \<Rightarrow> (Status + u32) \<times> 's"
where
  "WriteBatch_Iterate_loop put del input found st =
     (case input of
        [] \<Rightarrow> (Inr found, st)
      | tag # input1 \<Rightarrow>
          if tag = 1 then
            (case GetLengthPrefixedSlice input1 of
               None \<Rightarrow> (Inl (Corruption ''bad WriteBatch Put''), st)
             | Some (key, input2) \<Rightarrow>
                 (case GetLengthPrefixedSlice input2 of
                    None \<Rightarrow> (Inl (Corruption ''bad WriteBatch Put''), st)
                  | Some (val, input3) \<Rightarrow>
                      WriteBatch_Iterate_loop put del input3 (found + 1) (put key val st)))
          else if tag = 0 then
            (case GetLengthPrefixedSlice input1 of
               None \<Rightarrow> (Inl (Corruption ''bad WriteBatch Delete''), st)
             | Some (key, input2) \<Rightarrow>
                 WriteBatch_Iterate_loop put del input2 (found + 1) (del key st))
          else (Inl (Corruption ''unknown WriteBatch tag''), st))"
  by auto
termination
  by (relation "measure (\<lambda>(put, del, input, found, st). length input)")
    (auto dest!: GetLengthPrefixedSlice_shorter)

declare WriteBatch_Iterate_loop.simps [simp del]

definition WriteBatch_Iterate ::
    "(bytes \<Rightarrow> bytes \<Rightarrow> 's \<Rightarrow> 's) \<Rightarrow> (bytes \<Rightarrow> 's \<Rightarrow> 's) \<Rightarrow> bytes \<Rightarrow> 's \<Rightarrow> Status \<times> 's" where
  "WriteBatch_Iterate put del rep st =
     (if length rep < kHeader then (Corruption ''malformat WriteBatch (too small)'', st)
      else
        case WriteBatch_Iterate_loop put del (drop kHeader rep) 0 st of
          (Inl e, st') \<Rightarrow> (e, st')
        | (Inr found, st') \<Rightarrow>
            (if found \<noteq> WriteBatch_Count rep then Corruption ''WriteBatch has wrong count''
             else Status_OK, st'))"

text \<open>
  \<^verbatim>\<open>MemTableInserter\<close>: its state is the next sequence number and the table
  (\<^verbatim>\<open>None\<close> once an insertion does not end).
\<close>

definition MemTableInserter_Put ::
    "(bytes \<Rightarrow> bytes \<Rightarrow> int) \<Rightarrow> ((nat \<times> nat) list \<Rightarrow> nat \<Rightarrow> nat) \<Rightarrow>
     bytes \<Rightarrow> bytes \<Rightarrow> u64 \<times> MemTable option \<Rightarrow> u64 \<times> MemTable option" where
  "MemTableInserter_Put user_compare new_block key val st =
     (case st of (sequence, mem) \<Rightarrow>
        (sequence + 1, case mem of None \<Rightarrow> None
           | Some m \<Rightarrow> MemTable_Add user_compare new_block m sequence kTypeValue key val))"

definition MemTableInserter_Delete ::
    "(bytes \<Rightarrow> bytes \<Rightarrow> int) \<Rightarrow> ((nat \<times> nat) list \<Rightarrow> nat \<Rightarrow> nat) \<Rightarrow>
     bytes \<Rightarrow> u64 \<times> MemTable option \<Rightarrow> u64 \<times> MemTable option" where
  "MemTableInserter_Delete user_compare new_block key st =
     (case st of (sequence, mem) \<Rightarrow>
        (sequence + 1, case mem of None \<Rightarrow> None
           | Some m \<Rightarrow> MemTable_Add user_compare new_block m sequence kTypeDeletion key []))"

definition WriteBatch_InsertInto ::
    "(bytes \<Rightarrow> bytes \<Rightarrow> int) \<Rightarrow> ((nat \<times> nat) list \<Rightarrow> nat \<Rightarrow> nat) \<Rightarrow>
     bytes \<Rightarrow> MemTable \<Rightarrow> Status \<times> MemTable option" where
  "WriteBatch_InsertInto user_compare new_block rep memtable =
     (let (s, sequence, mem) =
        WriteBatch_Iterate (MemTableInserter_Put user_compare new_block)
          (MemTableInserter_Delete user_compare new_block) rep
          (WriteBatch_Sequence rep, Some memtable)
      in (s, mem))"

section \<open>Batches as lists of operations\<close>

datatype BatchOp = PutOp bytes bytes | DeleteOp bytes

primrec op_bytes :: "BatchOp \<Rightarrow> bytes" where
  "op_bytes (PutOp key val) = 1 # PutLengthPrefixedSlice [] key @ PutLengthPrefixedSlice [] val"
| "op_bytes (DeleteOp key) = 0 # PutLengthPrefixedSlice [] key"

primrec op_ok :: "BatchOp \<Rightarrow> bool" where
  "op_ok (PutOp key val) \<longleftrightarrow> length key < 2 ^ 32 \<and> length val < 2 ^ 32"
| "op_ok (DeleteOp key) \<longleftrightarrow> length key < 2 ^ 32"

primrec apply_op :: "bytes \<Rightarrow> BatchOp \<Rightarrow> bytes" where
  "apply_op rep (PutOp key val) = WriteBatch_Put rep key val"
| "apply_op rep (DeleteOp key) = WriteBatch_Delete rep key"

primrec run_op :: "(bytes \<Rightarrow> bytes \<Rightarrow> 's \<Rightarrow> 's) \<Rightarrow> (bytes \<Rightarrow> 's \<Rightarrow> 's) \<Rightarrow> 's \<Rightarrow> BatchOp \<Rightarrow> 's" where
  "run_op put del st (PutOp key val) = put key val st"
| "run_op put del st (DeleteOp key) = del key st"

text \<open>A batch that stands for the operations \<^verbatim>\<open>ops\<close> from sequence number \<^verbatim>\<open>seq\<close> on.\<close>

definition is_batch :: "bytes \<Rightarrow> u64 \<Rightarrow> BatchOp list \<Rightarrow> bool" where
  "is_batch rep seq ops \<longleftrightarrow>
     rep = EncodeFixed64 seq @ EncodeFixed32 (of_nat (length ops)) @ concat (map op_bytes ops)
     \<and> (\<forall>p\<in>set ops. op_ok p)"

lemma DecodeFixed64_zero: "EncodeFixed64 0 @ EncodeFixed32 0 = replicate 12 0"
  by (simp add: EncodeFixed64_def EncodeFixed32_def numeral_eq_Suc)

lemma is_batch_Clear: "is_batch WriteBatch_Clear 0 []"
  using DecodeFixed64_zero by (simp add: is_batch_def WriteBatch_Clear_def kHeader_def)

lemma is_batch_header:
  assumes "is_batch rep seq ops"
  shows "WriteBatch_Sequence rep = seq" "WriteBatch_Count rep = of_nat (length ops)"
    "drop kHeader rep = concat (map op_bytes ops)" "kHeader \<le> length rep"
  using assms by (simp_all add: is_batch_def WriteBatch_Sequence_def WriteBatch_Count_def kHeader_def)

lemma is_batch_SetSequence:
  "is_batch rep seq ops \<Longrightarrow> is_batch (WriteBatch_SetSequence rep seq') seq' ops"
  by (simp add: is_batch_def WriteBatch_SetSequence_def)

lemma is_batch_apply_op:
  assumes "is_batch rep seq ops" "op_ok p"
  shows "is_batch (apply_op rep p) seq (ops @ [p])"
  using assms by (cases p)
    (auto simp: is_batch_def WriteBatch_Put_def WriteBatch_Delete_def WriteBatch_SetCount_def
      WriteBatch_Count_def Let_def PutLengthPrefixedSlice_eq add.commute)

lemma is_batch_Append:
  assumes "is_batch dst seq ops" "is_batch src seq' ops'"
  shows "is_batch (WriteBatch_Append dst src) seq (ops @ ops')"
  using assms by (auto simp: is_batch_def WriteBatch_Append_def WriteBatch_SetCount_def
      WriteBatch_Count_def kHeader_def)

lemma is_batch_foldl:
  "is_batch rep seq ops0 \<Longrightarrow> \<forall>p\<in>set ops. op_ok p \<Longrightarrow> is_batch (foldl apply_op rep ops) seq (ops0 @ ops)"
proof (induction ops arbitrary: rep ops0)
  case (Cons p ops)
  then show ?case using is_batch_apply_op [of rep seq ops0 p] Cons.IH [of "apply_op rep p" "ops0 @ [p]"] by simp
qed simp

section \<open>Iterating over a batch\<close>

lemma Iterate_loop_op:
  assumes "op_ok p"
  shows "WriteBatch_Iterate_loop put del (op_bytes p @ rest) found st =
    WriteBatch_Iterate_loop put del rest (found + 1) (run_op put del st p)"
  using assms by (cases p)
    (subst WriteBatch_Iterate_loop.simps, simp add: PutLengthPrefixedSlice_eq)+

lemma Iterate_loop_ops:
  "\<forall>p\<in>set ops. op_ok p \<Longrightarrow>
   WriteBatch_Iterate_loop put del (concat (map op_bytes ops) @ rest) found st =
   WriteBatch_Iterate_loop put del rest (found + of_nat (length ops)) (foldl (run_op put del) st ops)"
  by (induction ops arbitrary: found st) (simp_all add: Iterate_loop_op ac_simps)

lemma Iterate_batch:
  assumes "is_batch rep seq ops"
  shows "WriteBatch_Iterate put del rep st = (Status_OK, foldl (run_op put del) st ops)"
proof -
  have "WriteBatch_Iterate_loop put del (drop kHeader rep) 0 st =
      (Inr (of_nat (length ops)), foldl (run_op put del) st ops)"
    using Iterate_loop_ops [of ops put del "[]" 0 st] assms is_batch_header(3) [OF assms]
    by (simp add: is_batch_def WriteBatch_Iterate_loop.simps [of _ _ "[]"])
  then show ?thesis
    using is_batch_header [OF assms] by (simp add: WriteBatch_Iterate_def)
qed

text \<open>A batch cut short is refused, whatever is left of it.\<close>

lemma Iterate_loop_op_cut:
  assumes "op_ok p" "n < length (op_bytes p)" "0 < n"
  shows "\<exists>e st'. WriteBatch_Iterate_loop put del (take n (op_bytes p)) found st = (Inl e, st') \<and> \<not> ok e"
proof -
  obtain m where n: "n = Suc m" using assms(3) by (cases n) auto
  show ?thesis
  proof (cases p)
    case (DeleteOp key)
    then have "GetLengthPrefixedSlice (take m (PutLengthPrefixedSlice [] key)) = None"
      using assms n by (intro GetLengthPrefixedSlice_cut) auto
    then show ?thesis using DeleteOp n by (subst WriteBatch_Iterate_loop.simps) simp
  next
    case (PutOp key val)
    let ?k = "PutLengthPrefixedSlice [] key" and ?v = "PutLengthPrefixedSlice [] val"
    have lens: "length key < 2 ^ 32" "length val < 2 ^ 32" using assms(1) PutOp by auto
    show ?thesis
    proof (cases "m < length ?k")
      case True
      then have "GetLengthPrefixedSlice (take m ?k) = None"
        using lens by (intro GetLengthPrefixedSlice_cut) auto
      then show ?thesis using PutOp n True by (subst WriteBatch_Iterate_loop.simps) simp
    next
      case False
      have "GetLengthPrefixedSlice (take (m - length ?k) ?v) = None"
        using lens assms(2) PutOp n False by (intro GetLengthPrefixedSlice_cut) auto
      moreover have "GetLengthPrefixedSlice (?k @ take (m - length ?k) ?v) =
          Some (key, take (m - length ?k) ?v)"
        using lens(1) by (simp add: PutLengthPrefixedSlice_eq)
      ultimately show ?thesis using PutOp n False by (subst WriteBatch_Iterate_loop.simps) simp
    qed
  qed
qed

lemma Iterate_loop_cut:
  assumes "\<forall>p\<in>set ops. op_ok p" "n < length (concat (map op_bytes ops))"
  shows "\<exists>r st'. WriteBatch_Iterate_loop put del (take n (concat (map op_bytes ops))) found st = (r, st')
    \<and> ((\<exists>e. r = Inl e \<and> \<not> ok e) \<or> (\<exists>k < length ops. r = Inr (found + of_nat k)))"
  using assms
proof (induction ops arbitrary: n found st)
  case (Cons p ops)
  show ?case
  proof (cases "n < length (op_bytes p)")
    case True
    then show ?thesis
    proof (cases "n = 0")
      case True
      then show ?thesis by (subst WriteBatch_Iterate_loop.simps) auto
    next
      case False
      with Iterate_loop_op_cut [of p n put del found st] True Cons.prems(1) show ?thesis by auto
    qed
  next
    case False
    let ?rest = "take (n - length (op_bytes p)) (concat (map op_bytes ops))"
    have "take n (concat (map op_bytes (p # ops))) = op_bytes p @ ?rest" using False by simp
    moreover have "n - length (op_bytes p) < length (concat (map op_bytes ops))"
      using Cons.prems(2) False by auto
    then obtain r st' where r: "WriteBatch_Iterate_loop put del ?rest (found + 1) (run_op put del st p) = (r, st')"
      "(\<exists>e. r = Inl e \<and> \<not> ok e) \<or> (\<exists>k < length ops. r = Inr (found + 1 + of_nat k))"
      using Cons.IH [of "n - length (op_bytes p)" "found + 1" "run_op put del st p"] Cons.prems(1)
      by (metis insert_iff list.simps(15))
    moreover have "r = Inr (found + 1 + of_nat k) \<Longrightarrow> k < length ops \<Longrightarrow>
        \<exists>k < length (p # ops). r = Inr (found + of_nat k)" for k
      by (intro exI [of _ "Suc k"]) simp
    ultimately show ?thesis using Cons.prems(1) by (auto simp: Iterate_loop_op)
  qed
qed simp

text \<open>
  C5: A batch survives its own encoding: however it is built from puts and
  deletes, \<^verbatim>\<open>Iterate\<close> calls the handler with the same operations in the same
  order and returns OK, the header counts them, and no proper prefix of the
  string is accepted.
\<close>

theorem WriteBatch_roundtrip:
  assumes ops: "\<forall>p\<in>set ops. op_ok p" "length ops < 2 ^ 32"
    and rep: "rep = WriteBatch_SetSequence (foldl apply_op WriteBatch_Clear ops) seq"
  shows "WriteBatch_Sequence rep = seq \<and> unat (WriteBatch_Count rep) = length ops
    \<and> WriteBatch_Iterate put del rep st = (Status_OK, foldl (run_op put del) st ops)
    \<and> (\<forall>n < length rep. \<not> ok (fst (WriteBatch_Iterate put del (take n rep) st)))"
proof -
  have b: "is_batch rep seq ops"
    using is_batch_SetSequence [OF is_batch_foldl [OF is_batch_Clear ops(1)]] rep by simp
  note h = is_batch_header [OF b]
  have "\<not> ok (fst (WriteBatch_Iterate put del (take n rep) st))" if n: "n < length rep" for n
  proof (cases "n < kHeader")
    case False
    have d: "drop kHeader (take n rep) = take (n - kHeader) (concat (map op_bytes ops))"
      using h(3) by (simp add: drop_take)
    have c: "WriteBatch_Count (take n rep) = of_nat (length ops)"
      using b False by (simp add: is_batch_def WriteBatch_Count_def kHeader_def drop_take)
    have "n - kHeader < length (concat (map op_bytes ops))"
      using n False h(3,4) by (metis diff_less_mono length_drop not_le)
    from Iterate_loop_cut [OF ops(1) this, of put del 0 st] obtain r st' where
      r: "WriteBatch_Iterate_loop put del (drop kHeader (take n rep)) 0 st = (r, st')"
      "(\<exists>e. r = Inl e \<and> \<not> ok e) \<or> (\<exists>k < length ops. r = Inr (of_nat k))"
      unfolding d by auto
    have "k < length ops \<Longrightarrow> (of_nat k :: u32) \<noteq> of_nat (length ops)" for k
      using ops(2) by (simp add: of_nat_inverse word_unat_eq_iff unat_of_nat take_bit_nat_eq_self)
    with r False n show ?thesis
      by (auto simp: WriteBatch_Iterate_def c)
  next
    case True
    then have "length (take n rep) < kHeader" by simp
    then show ?thesis by (simp only: WriteBatch_Iterate_def if_True) simp
  qed
  with h Iterate_batch [OF b] ops(2) show ?thesis
    by (simp add: unat_of_nat take_bit_nat_eq_self)
qed

lemma WriteBatch_roundtrip_witness:
  "let rep = WriteBatch_SetSequence (foldl apply_op WriteBatch_Clear
               [PutOp [1, 2] [3], DeleteOp [4], PutOp [] []]) 77
   in WriteBatch_Sequence rep = 77 \<and> unat (WriteBatch_Count rep) = 3
      \<and> WriteBatch_Iterate (\<lambda>k v st. st @ [PutOp k v]) (\<lambda>k st. st @ [DeleteOp k]) rep []
        = (Status_OK, [PutOp [1, 2] [3], DeleteOp [4], PutOp [] []])
      \<and> (\<forall>n < length rep. \<not> ok (fst (WriteBatch_Iterate (\<lambda>k v st. st @ [PutOp k v])
            (\<lambda>k st. st @ [DeleteOp k]) (take n rep) [])))"
  using WriteBatch_roundtrip [of "[PutOp [1, 2] [3], DeleteOp [4], PutOp [] []]", OF _ _ refl, of 77
      "\<lambda>k v st. st @ [PutOp k v]" "\<lambda>k st. st @ [DeleteOp k]" "[]"]
  by (simp add: Let_def)

section \<open>Inserting a batch into a memory table\<close>

primrec op_entry :: "u64 \<Rightarrow> BatchOp \<Rightarrow> u64 \<times> ValueType \<times> bytes \<times> bytes" where
  "op_entry s (PutOp key val) = (s, kTypeValue, key, val)"
| "op_entry s (DeleteOp key) = (s, kTypeDeletion, key, [])"

fun batch_entries :: "u64 \<Rightarrow> BatchOp list \<Rightarrow> (u64 \<times> ValueType \<times> bytes \<times> bytes) list" where
  "batch_entries s [] = []"
| "batch_entries s (p # ops) = op_entry s p # batch_entries (s + 1) ops"

lemma run_inserter:
  "run_op (MemTableInserter_Put ucmp nb) (MemTableInserter_Delete ucmp nb) (s, None) p = (s + 1, None)"
  "run_op (MemTableInserter_Put ucmp nb) (MemTableInserter_Delete ucmp nb) (s, Some m) p =
     (s + 1, MemTable_AddAll nb m [op_entry s p])"
  by (cases p; simp add: MemTableInserter_Put_def MemTableInserter_Delete_def split: option.split)+

lemma foldl_None:
  "foldl (run_op (MemTableInserter_Put ucmp nb) (MemTableInserter_Delete ucmp nb)) (s, None) ops =
     (s + of_nat (length ops), None)"
  by (induction ops arbitrary: s) (simp_all add: run_inserter ac_simps)

lemma AddAll_Cons:
  "MemTable_AddAll nb m (e # es) =
     (case MemTable_AddAll nb m [e] of None \<Rightarrow> None | Some m' \<Rightarrow> MemTable_AddAll nb m' es)"
  by (cases e) (simp split: option.split)

lemma foldl_inserter:
  "foldl (run_op (MemTableInserter_Put ucmp nb) (MemTableInserter_Delete ucmp nb)) (s, Some m) ops =
     (s + of_nat (length ops), MemTable_AddAll nb m (batch_entries s ops))"
proof (induction ops arbitrary: s m)
  case (Cons p ops)
  show ?case
  proof (cases "MemTable_AddAll nb m [op_entry s p]")
    case None
    then show ?thesis
      by (simp add: run_inserter foldl_None AddAll_Cons [of nb m "op_entry s p" "batch_entries (s + 1) ops"]
          del: MemTable_AddAll.simps)
  next
    case (Some m')
    then show ?thesis
      by (simp add: run_inserter Cons.IH AddAll_Cons [of nb m "op_entry s p" "batch_entries (s + 1) ops"]
          del: MemTable_AddAll.simps)
  qed
qed simp

text \<open>
  C6: \<^verbatim>\<open>InsertInto\<close> gives the operations of a batch consecutive sequence numbers:
  it returns OK and leaves the table that inserting the numbered entries one by
  one leaves, for a batch built by puts and deletes and for the concatenation of
  two batches by \<^verbatim>\<open>Append\<close>.
\<close>

theorem WriteBatch_InsertInto_numbers:
  assumes "is_batch rep1 seq ops1" "is_batch rep2 seq2 ops2"
  shows "WriteBatch_InsertInto ucmp nb rep1 m = (Status_OK, MemTable_AddAll nb m (batch_entries seq ops1))
    \<and> WriteBatch_InsertInto ucmp nb (WriteBatch_Append rep1 rep2) m =
       (Status_OK, MemTable_AddAll nb m (batch_entries seq (ops1 @ ops2)))"
proof -
  have "WriteBatch_InsertInto ucmp nb rep m = (Status_OK, MemTable_AddAll nb m (batch_entries seq ops))"
    if "is_batch rep seq ops" for rep ops
    unfolding WriteBatch_InsertInto_def Iterate_batch [OF that] is_batch_header(1) [OF that]
      foldl_inserter by simp
  from this [OF assms(1)] this [OF is_batch_Append [OF assms]] show ?thesis by blast
qed

lemma WriteBatch_InsertInto_numbers_witness:
  "WriteBatch_InsertInto ucmp bump_allocator (WriteBatch_Append (WriteBatch_Put WriteBatch_Clear [1] [2])
      (WriteBatch_Delete WriteBatch_Clear [1]))
      (MemTable_new bump_allocator) =
   (Status_OK, MemTable_AddAll bump_allocator (MemTable_new bump_allocator) [(0, kTypeValue, [1], [2]), (1, kTypeDeletion, [1], [])])"
proof -
  have "is_batch (WriteBatch_Put WriteBatch_Clear [1] [2]) 0 [PutOp [1] [2]]"
    using is_batch_apply_op [OF is_batch_Clear, of "PutOp [1] [2]"] by simp
  moreover have "is_batch (WriteBatch_Delete WriteBatch_Clear [1]) 0 [DeleteOp [1]]"
    using is_batch_apply_op [OF is_batch_Clear, of "DeleteOp [1]"] by simp
  ultimately show ?thesis
    using WriteBatch_InsertInto_numbers [of _ 0 "[PutOp [1] [2]]" _ 0 "[DeleteOp [1]]" bump_allocator
        "MemTable_new bump_allocator"] by simp
qed

end
