(* ===== verification/Bloom.thy ===== *)
theory Bloom
  imports Dbformat Util
begin

text \<open>
  The bloom filter of \<^verbatim>\<open>src/utils/bloom.cc\<close> and the interface
  \<^verbatim>\<open>FilterPolicy\<close> of \<^verbatim>\<open>src/utils/include/filter_policy.h\<close> as a locale: what a
  policy appends to the output does not depend on the output, and a key that
  went into a filter may match it.  The bloom policy satisfies it, and so does
  the wrapper \<^verbatim>\<open>InternalFilterPolicy\<close> around any policy that does.

  Sizes are natural numbers: both factors of \<^verbatim>\<open>n * bits_per_key_\<close> come from
  a 32-bit \<^verbatim>\<open>int\<close> that is not negative, so the 64-bit product does not wrap.
\<close>

section \<open>The policy\<close>

definition BloomHash :: "bytes \<Rightarrow> u32" where
  "BloomHash key = Hash key 0xbc9f1d34"

record BloomFilterPolicy =
  bits_per_key :: nat
  bloom_k :: nat

definition BloomFilterPolicy_new :: "nat \<Rightarrow> BloomFilterPolicy" where
  "BloomFilterPolicy_new bits =
     (let k = bits * 69 div 100;
          k1 = (if k < 1 then 1 else k);
          k2 = (if k1 > 30 then 30 else k1)
      in \<lparr>bits_per_key = bits, bloom_k = k2\<rparr>)"

text \<open>\<^verbatim>\<open>(h >> 17) | (h << 15)\<close>, the step of the double hashing.\<close>

definition bloom_delta :: "u32 \<Rightarrow> u32" where
  "bloom_delta h = drop_bit 17 h OR push_bit 15 h"

text \<open>
  The loops over \<^verbatim>\<open>j\<close> of \<^verbatim>\<open>CreateFilter\<close> and \<^verbatim>\<open>KeyMayMatch\<close>; the first argument
  counts the rounds left.
\<close>

fun bloom_set :: "nat \<Rightarrow> nat \<Rightarrow> u32 \<Rightarrow> u32 \<Rightarrow> bytes \<Rightarrow> bytes" where
  "bloom_set 0 bits d h arr = arr"
| "bloom_set (Suc j) bits d h arr =
     (let bitpos = unat h mod bits
      in bloom_set j bits d (h + d)
           (arr[bitpos div 8 := arr ! (bitpos div 8) OR push_bit (bitpos mod 8) 1]))"

fun bloom_test :: "nat \<Rightarrow> nat \<Rightarrow> u32 \<Rightarrow> u32 \<Rightarrow> bytes \<Rightarrow> bool" where
  "bloom_test 0 bits d h arr = True"
| "bloom_test (Suc j) bits d h arr =
     (let bitpos = unat h mod bits
      in if arr ! (bitpos div 8) AND push_bit (bitpos mod 8) 1 = 0 then False
         else bloom_test j bits d (h + d) arr)"

definition bloom_add :: "nat \<Rightarrow> nat \<Rightarrow> bytes \<Rightarrow> bytes \<Rightarrow> bytes" where
  "bloom_add k bits key arr =
     (let h = BloomHash key in bloom_set k bits (bloom_delta h) h arr)"

definition Bloom_CreateFilter :: "BloomFilterPolicy \<Rightarrow> bytes list \<Rightarrow> bytes \<Rightarrow> bytes" where
  "Bloom_CreateFilter p keys dst =
     (let bits0 = length keys * bits_per_key p;
          bits1 = (if bits0 < 64 then 64 else bits0);
          nbytes = (bits1 + 7) div 8;
          bits = nbytes * 8
      in dst @ foldl (\<lambda>arr key. bloom_add (bloom_k p) bits key arr) (replicate nbytes 0) keys
         @ [of_nat (bloom_k p)])"

text \<open>
  The last byte is read as a signed \<^verbatim>\<open>char\<close> and widened to \<^verbatim>\<open>size_t\<close>, so the values
  from 128 on become huge; they are above 30 in either reading.
\<close>

definition Bloom_KeyMayMatch :: "bytes \<Rightarrow> bytes \<Rightarrow> bool" where
  "Bloom_KeyMayMatch key bloom_filter =
     (let len = length bloom_filter in
      if len < 2 then False
      else
        let bits = (len - 1) * 8;
            k = unat (scast (bloom_filter ! (len - 1)) :: u64)
        in if k > 30 then True
           else let h = BloomHash key in bloom_test k bits (bloom_delta h) h bloom_filter)"

section \<open>The interface of a filter policy\<close>

locale filter_policy =
  fixes create :: "bytes list \<Rightarrow> bytes \<Rightarrow> bytes"
    and may_match :: "bytes \<Rightarrow> bytes \<Rightarrow> bool"
  assumes create_append: "create keys dst = dst @ create keys []"
    and no_false_negative: "key \<in> set keys \<Longrightarrow> may_match key (create keys [])"
begin

lemma drop_create [simp]: "drop (length dst) (create keys dst) = create keys []"
  by (subst create_append) simp

lemma internal_policy:
  "filter_policy (InternalFilterPolicy_CreateFilter create) (InternalFilterPolicy_KeyMayMatch may_match)"
  by unfold_locales
    (simp_all add: InternalFilterPolicy_CreateFilter_def InternalFilterPolicy_KeyMayMatch_def
      create_append [symmetric] no_false_negative)

end

section \<open>Bits of the array\<close>

definition arr_bit :: "bytes \<Rightarrow> nat \<Rightarrow> bool" where
  "arr_bit arr i \<longleftrightarrow> bit (arr ! (i div 8)) (i mod 8)"

text \<open>\<open>arr_le a b\<close>: the arrays have one length and every bit of \<open>a\<close> is one of \<open>b\<close>.\<close>

definition arr_le :: "bytes \<Rightarrow> bytes \<Rightarrow> bool" where
  "arr_le a b \<longleftrightarrow> length a = length b \<and> (\<forall>i < 8 * length a. arr_bit a i \<longrightarrow> arr_bit b i)"

lemma arr_le_refl [intro]: "arr_le a a"
  by (simp add: arr_le_def)

lemma arr_le_trans: "arr_le a b \<Longrightarrow> arr_le b c \<Longrightarrow> arr_le a c"
  by (simp add: arr_le_def)

lemma arr_le_set:
  assumes "pos < 8 * length arr"
  defines "arr' \<equiv> arr[pos div 8 := arr ! (pos div 8) OR push_bit (pos mod 8) 1]"
  shows "arr_le arr arr'" "arr_bit arr' pos"
proof -
  have "pos div 8 < length arr" using assms by simp
  then show "arr_le arr arr'" "arr_bit arr' pos"
    by (auto simp: arr_le_def arr_bit_def arr'_def nth_list_update bit_simps)
qed

lemma unat_scast_small: "k \<le> 127 \<Longrightarrow> unat (scast (of_nat k :: byte) :: u64) = k"
proof -
  assume k: "k \<le> 127"
  have "sint (of_nat k :: byte) = int k"
    using k by (simp add: sint_uint unsigned_of_nat take_bit_nat_eq_self signed_take_bit_int_eq_self)
  then have "(scast (of_nat k :: byte) :: u64) = of_nat k" by (simp add: scast_eq)
  then show ?thesis using k by (simp add: unat_of_nat take_bit_nat_eq_self)
qed

lemma length_bloom_set [simp]: "length (bloom_set j bits d h arr) = length arr"
  by (induction j bits d h arr rule: bloom_set.induct) (simp_all add: Let_def)

lemma bloom_set_le:
  "bits = 8 * length arr \<Longrightarrow> 0 < bits \<Longrightarrow> arr_le arr (bloom_set j bits d h arr)"
proof (induction j bits d h arr rule: bloom_set.induct)
  case (2 j bits d h arr)
  then have "unat h mod bits < 8 * length arr" by simp
  note s = arr_le_set(1) [OF this]
  show ?case
    using 2(1) [OF refl] 2(2,3) arr_le_trans [OF s] by (simp add: Let_def)
qed auto

lemma bloom_test_mono:
  assumes "arr_le a b" "bits = 8 * length a" "0 < bits" "bloom_test j bits d h a"
  shows "bloom_test j bits d h (b @ tail)"
  using assms(4)
proof (induction j arbitrary: h)
  case (Suc j)
  have pos: "unat h mod bits < 8 * length a" using assms by simp
  have len: "unat h mod bits div 8 < length b" using pos assms(1) by (simp add: arr_le_def)
  have "arr_bit a (unat h mod bits)" and r: "bloom_test j bits d (h + d) a"
    using Suc.prems by (auto simp: Let_def arr_bit_def and_exp_eq_0_iff_not_bit split: if_splits)
  then have "arr_bit b (unat h mod bits)" using assms(1) pos by (simp add: arr_le_def)
  then show ?case
    using Suc.IH [OF r] len by (simp add: Let_def and_exp_eq_0_iff_not_bit arr_bit_def nth_append)
qed simp

lemma bloom_test_set:
  "bits = 8 * length arr \<Longrightarrow> 0 < bits \<Longrightarrow> bloom_test j bits d h (bloom_set j bits d h arr)"
proof (induction j bits d h arr rule: bloom_set.induct)
  case (2 j bits d h arr)
  let ?pos = "unat h mod bits"
  let ?arr = "arr[?pos div 8 := arr ! (?pos div 8) OR push_bit (?pos mod 8) 1]"
  have pos: "?pos < 8 * length arr" using 2 by simp
  have le: "arr_le ?arr (bloom_set j bits d (h + d) ?arr)"
    using 2(2,3) by (intro bloom_set_le) simp_all
  have "arr_bit (bloom_set j bits d (h + d) ?arr) ?pos"
    using le arr_le_set(2) [OF pos] pos by (simp add: arr_le_def)
  then show ?case
    using 2(1) [OF refl] 2(2,3) by (simp add: Let_def and_exp_eq_0_iff_not_bit arr_bit_def)
qed simp

section \<open>No false negatives\<close>

lemma bloom_add_le:
  assumes "bits = 8 * length arr" "0 < bits"
  shows "arr_le arr (bloom_add k bits key arr)" "length (bloom_add k bits key arr) = length arr"
  using assms by (simp_all add: bloom_add_def Let_def bloom_set_le)

lemma bloom_fold:
  assumes "bits = 8 * length arr" "0 < bits"
  shows "arr_le arr (foldl (\<lambda>arr key. bloom_add k bits key arr) arr keys)
    \<and> (\<forall>key\<in>set keys. bloom_test k bits (bloom_delta (BloomHash key)) (BloomHash key)
          (foldl (\<lambda>arr key. bloom_add k bits key arr) arr keys @ tail))"
  using assms
proof (induction keys arbitrary: arr)
  case (Cons key keys)
  let ?arr = "bloom_add k bits key arr"
  note a = bloom_add_le [OF Cons.prems, of k key]
  have ih: "arr_le ?arr (foldl (\<lambda>arr key. bloom_add k bits key arr) ?arr keys)"
    "\<forall>key\<in>set keys. bloom_test k bits (bloom_delta (BloomHash key)) (BloomHash key)
          (foldl (\<lambda>arr key. bloom_add k bits key arr) ?arr keys @ tail)"
    using Cons.IH [of ?arr] Cons.prems a(2) by simp_all
  have "bloom_test k bits (bloom_delta (BloomHash key)) (BloomHash key) ?arr"
    using bloom_test_set [OF Cons.prems] by (simp add: bloom_add_def Let_def)
  from bloom_test_mono [OF ih(1) _ _ this] have
    "bloom_test k bits (bloom_delta (BloomHash key)) (BloomHash key)
       (foldl (\<lambda>arr key. bloom_add k bits key arr) ?arr keys @ tail)"
    using Cons.prems a(2) by simp
  with ih arr_le_trans [OF a(1) ih(1)] show ?case by simp
qed auto

lemma length_Bloom_CreateFilter:
  "length (Bloom_CreateFilter p keys dst) = length dst
     + ((if length keys * bits_per_key p < 64 then 64 else length keys * bits_per_key p) + 7) div 8 + 1"
proof -
  have "length (foldl (\<lambda>arr key. bloom_add k bits key arr) arr keys) = length arr" for k bits arr
    by (induction keys arbitrary: arr) (simp_all add: bloom_add_def Let_def)
  then show ?thesis by (simp add: Bloom_CreateFilter_def Let_def)
qed

lemma bloom_k_new: "1 \<le> bloom_k (BloomFilterPolicy_new b)" "bloom_k (BloomFilterPolicy_new b) \<le> 30"
  by (simp_all add: BloomFilterPolicy_new_def Let_def)

lemma bloom_policy:
  assumes "bloom_k p \<le> 30"
  shows "filter_policy (Bloom_CreateFilter p) Bloom_KeyMayMatch"
proof
  show "Bloom_CreateFilter p keys dst = dst @ Bloom_CreateFilter p keys []" for keys dst
    by (simp add: Bloom_CreateFilter_def Let_def)
next
  fix key :: bytes and keys :: "bytes list"
  assume key: "key \<in> set keys"
  let ?b0 = "length keys * bits_per_key p"
  define nb where "nb = ((if ?b0 < 64 then 64 else ?b0) + 7) div 8"
  obtain b1 where "b1 = (if ?b0 < 64 then 64 else ?b0)" "64 \<le> b1" by simp
  then have nb: "0 < nb" unfolding nb_def by presburger
  let ?arr = "foldl (\<lambda>arr key. bloom_add (bloom_k p) (nb * 8) key arr) (replicate nb 0) keys"
  have c: "Bloom_CreateFilter p keys [] = ?arr @ [of_nat (bloom_k p)]"
    by (simp add: Bloom_CreateFilter_def Let_def nb_def)
  have f: "arr_le (replicate nb 0) ?arr"
    "\<forall>key\<in>set keys. bloom_test (bloom_k p) (nb * 8) (bloom_delta (BloomHash key)) (BloomHash key)
        (?arr @ [of_nat (bloom_k p)])"
    using bloom_fold [of "nb * 8" "replicate nb 0" "bloom_k p" keys "[of_nat (bloom_k p)]"] nb by simp_all
  have len: "length ?arr = nb" using f(1) by (simp add: arr_le_def)
  have "unat (scast (of_nat (bloom_k p) :: byte) :: u64) = bloom_k p"
    using assms by (rule unat_scast_small [OF order.trans]) simp
  then show "Bloom_KeyMayMatch key (Bloom_CreateFilter p keys [])"
    using f(2) key nb by (simp add: Bloom_KeyMayMatch_def c Let_def len nth_append)
qed

text \<open>The policy of \<^verbatim>\<open>NewBloomFilterPolicy\<close>, and the one the tables are given for internal keys.\<close>

abbreviation bloom_create :: "bytes list \<Rightarrow> bytes \<Rightarrow> bytes" where
  "bloom_create \<equiv> Bloom_CreateFilter (BloomFilterPolicy_new 10)"

interpretation bloom: filter_policy bloom_create Bloom_KeyMayMatch
  by (rule bloom_policy) (rule bloom_k_new)

interpretation internal_bloom: filter_policy
  "InternalFilterPolicy_CreateFilter bloom_create"
  "InternalFilterPolicy_KeyMayMatch Bloom_KeyMayMatch"
  by (rule bloom.internal_policy)

text \<open>
  C9: The bloom filter has no false negatives: whatever the bits per key and
  whatever the output already holds, every key that went into a filter matches
  the bytes appended for it.
\<close>

theorem bloom_no_false_negative:
  assumes "key \<in> set keys"
  shows "take (length dst) (Bloom_CreateFilter (BloomFilterPolicy_new b) keys dst) = dst
    \<and> Bloom_KeyMayMatch key (drop (length dst) (Bloom_CreateFilter (BloomFilterPolicy_new b) keys dst))"
proof -
  have p: "filter_policy (Bloom_CreateFilter (BloomFilterPolicy_new b)) Bloom_KeyMayMatch"
    by (rule bloom_policy) (rule bloom_k_new)
  show ?thesis
    using filter_policy.create_append [OF p, of keys dst] filter_policy.drop_create [OF p, of dst keys]
      filter_policy.no_false_negative [OF p assms] by simp
qed

lemma bloom_no_false_negative_witness:
  "take 1 (Bloom_CreateFilter (BloomFilterPolicy_new 10) [[1], [2, 3]] [9]) = [9]
   \<and> Bloom_KeyMayMatch [2, 3] (drop 1 (Bloom_CreateFilter (BloomFilterPolicy_new 10) [[1], [2, 3]] [9]))"
  using bloom_no_false_negative [of "[2, 3]" "[[1], [2, 3]]" "[9]" 10] by simp

end
