(* ===== verification/Filter_Block.thy ===== *)
theory Filter_Block
  imports Bloom
begin

text \<open>
  The filter block of an SST file: \<^verbatim>\<open>src/table/filter_block.cc\<close> and
  \<^verbatim>\<open>src/table/include/filter_block.h\<close>.  The builder groups the keys of the data
  blocks by the 2 KB range their block starts in and appends one filter per
  range; the reader finds the filter of a block offset.  The policy is the
  argument pair \<^verbatim>\<open>create\<close> and \<^verbatim>\<open>may_match\<close>, with the laws of \<^verbatim>\<open>filter_policy\<close>.
\<close>

section \<open>The builder\<close>

definition kFilterBaseLg :: nat where "kFilterBaseLg = 11"

definition kFilterBase :: u64 where "kFilterBase = push_bit kFilterBaseLg 1"

record FilterBlockBuilder =
  fb_keys :: bytes
  fb_start :: "nat list"
  fb_result :: bytes
  fb_offsets :: "u32 list"

definition FilterBlockBuilder_new :: FilterBlockBuilder where
  "FilterBlockBuilder_new = \<lparr>fb_keys = [], fb_start = [], fb_result = [], fb_offsets = []\<rparr>"

definition GenerateFilter ::
    "(bytes list \<Rightarrow> bytes \<Rightarrow> bytes) \<Rightarrow> FilterBlockBuilder \<Rightarrow> FilterBlockBuilder" where
  "GenerateFilter create b =
     (let num_keys = length (fb_start b);
          b1 = b\<lparr>fb_offsets := fb_offsets b @ [of_nat (length (fb_result b))]\<rparr>
      in if num_keys = 0 then b1
         else
           let start = fb_start b @ [length (fb_keys b)];
               tmp_keys = map (\<lambda>i. take (start ! (i + 1) - start ! i) (drop (start ! i) (fb_keys b)))
                            [0..<num_keys]
           in b1\<lparr>fb_result := create tmp_keys (fb_result b), fb_keys := [], fb_start := []\<rparr>)"

lemma length_GenerateFilter [simp]: "length (fb_offsets (GenerateFilter create b)) = Suc (length (fb_offsets b))"
  by (simp add: GenerateFilter_def Let_def)

function StartBlock_loop ::
    "(bytes list \<Rightarrow> bytes \<Rightarrow> bytes) \<Rightarrow> nat \<Rightarrow> FilterBlockBuilder \<Rightarrow> FilterBlockBuilder" where
  "StartBlock_loop create filter_index b =
     (if length (fb_offsets b) < filter_index
      then StartBlock_loop create filter_index (GenerateFilter create b) else b)"
  by auto
termination by (relation "measure (\<lambda>(c, i, b). i - length (fb_offsets b))") auto

declare StartBlock_loop.simps [simp del]

definition StartBlock ::
    "(bytes list \<Rightarrow> bytes \<Rightarrow> bytes) \<Rightarrow> u64 \<Rightarrow> FilterBlockBuilder \<Rightarrow> FilterBlockBuilder" where
  "StartBlock create block_offset b = StartBlock_loop create (unat (block_offset div kFilterBase)) b"

definition FilterBlock_AddKey :: "bytes \<Rightarrow> FilterBlockBuilder \<Rightarrow> FilterBlockBuilder" where
  "FilterBlock_AddKey key b =
     b\<lparr>fb_start := fb_start b @ [length (fb_keys b)], fb_keys := fb_keys b @ key\<rparr>"

definition FilterBlock_Finish ::
    "(bytes list \<Rightarrow> bytes \<Rightarrow> bytes) \<Rightarrow> FilterBlockBuilder \<Rightarrow> bytes" where
  "FilterBlock_Finish create b0 =
     (let b = (if fb_start b0 \<noteq> [] then GenerateFilter create b0 else b0);
          array_offset = of_nat (length (fb_result b))
      in PutFixed32 (foldl PutFixed32 (fb_result b) (fb_offsets b)) array_offset
         @ [of_nat kFilterBaseLg])"

section \<open>The reader\<close>

text \<open>
  \<^verbatim>\<open>data_\<close> and \<^verbatim>\<open>offset_\<close> point into the block; \<^verbatim>\<open>fr_offset\<close> is their difference.
  The shift amount is a \<^verbatim>\<open>char\<close> widened to \<^verbatim>\<open>size_t\<close>; a shift by 64 or more,
  undefined in the code, gives 0 here.
\<close>

record FilterBlockReader =
  fr_data :: bytes
  fr_offset :: nat
  fr_num :: nat
  fr_base_lg :: nat

definition FilterBlockReader_new :: "bytes \<Rightarrow> FilterBlockReader" where
  "FilterBlockReader_new contents =
     (let n = length contents;
          r = \<lparr>fr_data = [], fr_offset = 0, fr_num = 0, fr_base_lg = 0\<rparr>
      in if n < 5 then r
         else
           let r1 = r\<lparr>fr_base_lg := unat (scast (contents ! (n - 1)) :: u64)\<rparr>;
               last_word = unat (DecodeFixed32 (drop (n - 5) contents))
           in if n - 5 < last_word then r1
              else r1\<lparr>fr_data := contents, fr_offset := last_word, fr_num := (n - 5 - last_word) div 4\<rparr>)"

definition FilterBlock_KeyMayMatch ::
    "(bytes \<Rightarrow> bytes \<Rightarrow> bool) \<Rightarrow> FilterBlockReader \<Rightarrow> u64 \<Rightarrow> bytes \<Rightarrow> bool" where
  "FilterBlock_KeyMayMatch may_match r block_offset key =
     (let index = unat (drop_bit (fr_base_lg r) block_offset) in
      if index < fr_num r then
        let start = unat (DecodeFixed32 (drop (fr_offset r + index * 4) (fr_data r)));
            limit = unat (DecodeFixed32 (drop (fr_offset r + index * 4 + 4) (fr_data r)))
        in if start \<le> limit \<and> limit \<le> fr_offset r
           then may_match key (take (limit - start) (drop start (fr_data r)))
           else if start = limit then False
           else True
      else True)"

section \<open>The builder state, abstractly\<close>

text \<open>
  A builder has closed the key groups \<open>gs\<close> and is collecting the group \<open>pend\<close>.
\<close>

definition filter_of :: "(bytes list \<Rightarrow> bytes \<Rightarrow> bytes) \<Rightarrow> bytes list \<Rightarrow> bytes" where
  "filter_of create ks = (if ks = [] then [] else create ks [])"

definition starts_of :: "'a list list \<Rightarrow> nat list" where
  "starts_of xss = map (\<lambda>i. length (concat (take i xss))) [0..<length xss]"

definition fb_state ::
    "(bytes list \<Rightarrow> bytes \<Rightarrow> bytes) \<Rightarrow> FilterBlockBuilder \<Rightarrow> bytes list list \<Rightarrow> bytes list \<Rightarrow> bool" where
  "fb_state create b gs pend \<longleftrightarrow>
     fb_result b = concat (map (filter_of create) gs)
     \<and> fb_offsets b = map of_nat (starts_of (map (filter_of create) gs))
     \<and> fb_keys b = concat pend \<and> fb_start b = starts_of pend"

lemma starts_of_snoc: "starts_of (xss @ [xs]) = starts_of xss @ [length (concat xss)]"
  by (simp add: starts_of_def)

lemma starts_of_Nil [simp]: "starts_of [] = []" "starts_of xss = [] \<longleftrightarrow> xss = []"
  by (simp_all add: starts_of_def)

lemma length_starts_of [simp]: "length (starts_of xss) = length xss"
  by (simp add: starts_of_def)

lemma starts_of_nth:
  "i \<le> length xss \<Longrightarrow> (starts_of xss @ [length (concat xss)]) ! i = length (concat (take i xss))"
  by (cases "i = length xss") (simp_all add: nth_append, simp_all add: starts_of_def)

lemma concat_part:
  assumes "i < length xss"
  shows "take (length (concat (take (Suc i) xss)) - length (concat (take i xss)))
      (drop (length (concat (take i xss))) (concat xss @ rest)) = xss ! i"
proof -
  have "concat xss = concat (take i xss) @ xss ! i @ concat (drop (Suc i) xss)"
    using id_take_nth_drop [OF assms] by (metis concat.simps(2) concat_append)
  moreover have "concat (take (Suc i) xss) = concat (take i xss) @ xss ! i"
    using assms by (simp add: take_Suc_conv_app_nth)
  ultimately show ?thesis by simp
qed

lemma fb_state_new [wf]: "fb_state create FilterBlockBuilder_new [] []"
  by (simp add: fb_state_def FilterBlockBuilder_new_def)

lemma fb_state_AddKey [wf]:
  "fb_state create b gs pend \<Longrightarrow> fb_state create (FilterBlock_AddKey key b) gs (pend @ [key])"
  by (simp add: fb_state_def FilterBlock_AddKey_def starts_of_snoc)

lemma concat_Encode_drop:
  "i < length ws \<Longrightarrow> DecodeFixed32 (drop (4 * i) (concat (map EncodeFixed32 ws) @ rest)) = ws ! i"
proof (induction ws arbitrary: i)
  case (Cons w ws)
  then show ?case
    by (cases i) simp_all
qed simp

lemma foldl_PutFixed32: "foldl PutFixed32 dst ws = dst @ concat (map EncodeFixed32 ws)"
  by (induction ws arbitrary: dst) (simp_all add: PutFixed32_def)

text \<open>A run over data blocks, each an offset and the keys added after it is announced.\<close>

fun FilterBlock_blocks ::
    "(bytes list \<Rightarrow> bytes \<Rightarrow> bytes) \<Rightarrow> (u64 \<times> bytes list) list \<Rightarrow> FilterBlockBuilder \<Rightarrow> FilterBlockBuilder"
where
  "FilterBlock_blocks create [] b = b"
| "FilterBlock_blocks create ((off, ks) # bs) b =
     FilterBlock_blocks create bs (fold FilterBlock_AddKey ks (StartBlock create off b))"

definition in_group :: "bytes list list \<Rightarrow> nat \<Rightarrow> bytes list \<Rightarrow> bool" where
  "in_group gs j ks \<longleftrightarrow> (j < length gs \<and> set ks \<subseteq> set (gs ! j)) \<or> ks = []"

definition groups_le :: "bytes list list \<Rightarrow> bytes list list \<Rightarrow> bool" where
  "groups_le gs gs' \<longleftrightarrow> length gs \<le> length gs' \<and> (\<forall>j<length gs. set (gs ! j) \<subseteq> set (gs' ! j))"

lemma groups_le_trans: "groups_le a b \<Longrightarrow> groups_le b c \<Longrightarrow> groups_le a c"
  unfolding groups_le_def by (meson order_trans less_le_trans)

lemma groups_le_in: "groups_le gs gs' \<Longrightarrow> in_group gs j ks \<Longrightarrow> in_group gs' j ks"
  unfolding groups_le_def in_group_def by (meson order_trans less_le_trans)

context filter_policy begin

lemma fb_state_Generate:
  assumes "fb_state create b gs pend"
  shows "fb_state create (GenerateFilter create b) (gs @ [pend]) []"
proof (cases "pend = []")
  case True
  then show ?thesis using assms
    by (simp add: fb_state_def GenerateFilter_def Let_def starts_of_snoc filter_of_def)
next
  case False
  have "map (\<lambda>i. take ((fb_start b @ [length (fb_keys b)]) ! (i + 1) - (fb_start b @ [length (fb_keys b)]) ! i)
      (drop ((fb_start b @ [length (fb_keys b)]) ! i) (fb_keys b))) [0..<length pend] = pend"
    using assms concat_part [of _ pend "[]"]
    by (intro nth_equalityI) (simp_all add: fb_state_def starts_of_nth del: take_Suc)
  then show ?thesis
    using assms False create_append [of pend "fb_result b"]
    by (simp add: fb_state_def GenerateFilter_def Let_def starts_of_snoc filter_of_def)
qed

lemma fb_state_StartBlock:
  assumes "fb_state create b gs pend" "length gs \<le> i"
  shows "\<exists>gs' pend'. fb_state create (StartBlock_loop create i b) gs' pend' \<and> length gs' = i
    \<and> gs' @ [pend'] = gs @ [pend] @ replicate (i - length gs) []"
  using assms
proof (induction "i - length gs" arbitrary: b gs pend)
  case 0
  then have "StartBlock_loop create i b = b"
    by (subst StartBlock_loop.simps) (simp add: fb_state_def)
  with 0 show ?case by auto
next
  case (Suc n)
  have less: "length gs < i" using Suc.hyps(2) by simp
  have loop: "StartBlock_loop create i b = StartBlock_loop create i (GenerateFilter create b)"
    using less Suc.prems(1) by (subst StartBlock_loop.simps) (simp add: fb_state_def)
  obtain gs' pend' where g: "fb_state create (StartBlock_loop create i b) gs' pend'" "length gs' = i"
    "gs' @ [pend'] = (gs @ [pend]) @ [[]] @ replicate (i - length (gs @ [pend])) []"
    unfolding loop
    using Suc.hyps(1) [OF _ fb_state_Generate [OF Suc.prems(1)]] Suc.hyps(2) less by force
  have "i - length gs = Suc (i - length (gs @ [pend]))" using less by simp
  then show ?case using g by (intro exI [of _ gs'] exI [of _ pend']) simp
qed

lemma fb_state_AddKeys:
  "fb_state create b gs pend \<Longrightarrow> fb_state create (fold FilterBlock_AddKey ks b) gs (pend @ ks)"
proof (induction ks arbitrary: b pend)
  case (Cons k ks)
  from Cons.IH [OF fb_state_AddKey [OF Cons.prems], of k] show ?case by simp
qed simp

text \<open>The blocks a builder was told about are all in their groups.\<close>

lemma fb_run_groups:
  assumes "fb_state create b gs pend" "sorted_wrt (\<le>) (map fst bs)"
    and "\<forall>(off, ks)\<in>set bs. length gs \<le> unat (off div kFilterBase)"
  shows "\<exists>gs' pend'. fb_state create (FilterBlock_blocks create bs b) gs' pend'
    \<and> groups_le (gs @ [pend]) (gs' @ [pend'])
    \<and> (\<forall>(off, ks)\<in>set bs. in_group (gs' @ [pend']) (unat (off div kFilterBase)) ks)"
  using assms
proof (induction bs arbitrary: b gs pend)
  case Nil
  then show ?case by (auto simp: groups_le_def)
next
  case (Cons blk bs)
  obtain off ks where blk: "blk = (off, ks)" by (cases blk)
  let ?i = "unat (off div kFilterBase)"
  have i: "length gs \<le> ?i" using Cons.prems(3) blk by simp
  obtain gs1 pend1 where g1: "fb_state create (StartBlock create off b) gs1 pend1" "length gs1 = ?i"
    "gs1 @ [pend1] = gs @ [pend] @ replicate (?i - length gs) []"
    unfolding StartBlock_def using fb_state_StartBlock [OF Cons.prems(1) i] by blast
  have le1: "groups_le (gs @ [pend]) (gs1 @ [pend1 @ ks])"
  proof -
    have "groups_le (gs @ [pend]) (gs1 @ [pend1])"
      unfolding g1(3) by (auto simp: groups_le_def nth_append)
    moreover have "groups_le (gs1 @ [pend1]) (gs1 @ [pend1 @ ks])"
      by (auto simp: groups_le_def nth_append less_Suc_eq)
    ultimately show ?thesis by (rule groups_le_trans)
  qed
  have mono: "off div kFilterBase \<le> off' div kFilterBase" if "off \<le> off'" for off'
    using that by (simp add: word_le_nat_alt unat_div div_le_mono)
  have later: "\<forall>(off', ks')\<in>set bs. length gs1 \<le> unat (off' div kFilterBase)"
    using Cons.prems(2) mono unfolding g1(2) by (auto simp: blk word_le_nat_alt [symmetric])
  have run: "FilterBlock_blocks create (blk # bs) b =
      FilterBlock_blocks create bs (fold FilterBlock_AddKey ks (StartBlock create off b))"
    by (simp add: blk)
  obtain gs' pend' where g': "fb_state create (FilterBlock_blocks create (blk # bs) b) gs' pend'"
    "groups_le (gs1 @ [pend1 @ ks]) (gs' @ [pend'])"
    "\<forall>(off, ks)\<in>set bs. in_group (gs' @ [pend']) (unat (off div kFilterBase)) ks"
    unfolding run using Cons.IH [OF fb_state_AddKeys [OF g1(1)] _ later, of ks] Cons.prems(2) by auto
  have "in_group (gs1 @ [pend1 @ ks]) ?i ks"
    using g1(2) by (simp add: in_group_def nth_append)
  with g' groups_le_trans [OF le1 g'(2)] show ?case
    by (intro exI [of _ gs'] exI [of _ pend']) (auto simp: blk dest: groups_le_in)
qed

lemma Finish_groups:
  assumes "fb_state create b gs pend"
  obtains gf where "FilterBlock_Finish create b =
      concat (map (filter_of create) gf)
      @ concat (map EncodeFixed32 (map of_nat
          (starts_of (map (filter_of create) gf) @ [length (concat (map (filter_of create) gf))]))) @ [11]"
    "\<And>j k ks. in_group (gs @ [pend]) j ks \<Longrightarrow> k \<in> set ks \<Longrightarrow> in_group gf j [k]"
proof -
  define b' where "b' = (if fb_start b \<noteq> [] then GenerateFilter create b else b)"
  define gf where "gf = (if pend = [] then gs else gs @ [pend])"
  have s: "fb_state create b' gf []"
    using assms fb_state_Generate [OF assms] by (auto simp: b'_def gf_def fb_state_def)
  have "FilterBlock_Finish create b =
      concat (map (filter_of create) gf)
      @ concat (map EncodeFixed32 (map of_nat
          (starts_of (map (filter_of create) gf) @ [length (concat (map (filter_of create) gf))]))) @ [11]"
    using s unfolding FilterBlock_Finish_def Let_def b'_def [symmetric]
    by (simp add: fb_state_def foldl_PutFixed32 PutFixed32_def kFilterBaseLg_def)
  moreover have "in_group gf j [k]" if "in_group (gs @ [pend]) j ks" "k \<in> set ks" for j k ks
    using that by (auto simp: in_group_def gf_def nth_append less_Suc_eq split: if_splits)
  ultimately show ?thesis by (rule that)
qed

text \<open>Looking up one filter of a finished block.\<close>

lemma reader_finds:
  assumes small: "length (concat (map (filter_of create) gf)) < 2 ^ 32"
    and j: "unat (drop_bit 11 off) = j" "in_group gf j [k]"
    and c: "contents = concat (map (filter_of create) gf)
      @ concat (map EncodeFixed32 (map of_nat
          (starts_of (map (filter_of create) gf) @ [length (concat (map (filter_of create) gf))]))) @ [11]"
  shows "FilterBlock_KeyMayMatch may_match (FilterBlockReader_new contents) off k"
proof -
  let ?fs = "map (filter_of create) gf"
  let ?R = "concat ?fs" and ?ns = "starts_of ?fs @ [length (concat ?fs)]"
  let ?E = "concat (map EncodeFixed32 (map of_nat ?ns))"
  have lenE: "length ?E = 4 * Suc (length gf)"
    by (simp add: length_concat sum_list_triv comp_def)
  have n: "length contents = length ?R + 4 * length gf + 5" using c lenE by simp
  have word: "unat (of_nat m :: u32) = m" if "m \<le> length ?R" for m
    using that small by (simp add: unat_of_nat take_bit_nat_eq_self)
  have at: "unat (DecodeFixed32 (drop (length ?R + 4 * i) contents)) = length (concat (take i ?fs))"
    if "i \<le> length gf" for i
  proof -
    have d: "drop (length ?R + 4 * i) contents = drop (4 * i) (?E @ [11])" using c by simp
    have "i < length ?ns" using that by simp
    then have e: "DecodeFixed32 (drop (4 * i) (?E @ [11])) = of_nat (?ns ! i)"
      using concat_Encode_drop [of i "map of_nat ?ns" "[11]"] by (simp only: nth_map length_map)
    have f: "?ns ! i = length (concat (take i ?fs))"
      using that by (intro starts_of_nth) simp
    have "length (concat (take i ?fs)) \<le> length ?R"
      by (metis append_take_drop_id concat_append length_append le_add1)
    then show ?thesis unfolding d e f by (rule word)
  qed
  have last: "unat (DecodeFixed32 (drop (length contents - 5) contents)) = length ?R"
    using at [of "length gf"] by (simp add: n)
  have lg: "unat (scast (contents ! (length contents - 1)) :: u64) = 11"
    using c n unat_scast_small [of 11] by (simp add: nth_append)
  have r: "FilterBlockReader_new contents =
      \<lparr>fr_data = contents, fr_offset = length ?R, fr_num = length gf, fr_base_lg = 11\<rparr>"
    unfolding FilterBlockReader_new_def Let_def last lg by (simp add: n)
  have jl: "j < length gf" and k: "k \<in> set (gf ! j)" using j(2) by (auto simp: in_group_def)
  have e1: "length ?R + j * 4 = length ?R + 4 * j" and e2: "length ?R + j * 4 + 4 = length ?R + 4 * Suc j"
    by simp_all
  have a1: "unat (DecodeFixed32 (drop (length ?R + j * 4) contents)) = length (concat (take j ?fs))"
    unfolding e1 using jl by (intro at) simp
  have a2: "unat (DecodeFixed32 (drop (length ?R + j * 4 + 4) contents)) = length (concat (take (Suc j) ?fs))"
    unfolding e2 using jl by (intro at) simp
  have "length (concat (take (Suc j) ?fs)) \<le> length ?R"
    by (metis append_take_drop_id concat_append length_append le_add1)
  moreover have "length (concat (take j ?fs)) \<le> length (concat (take (Suc j) ?fs))"
    using jl by (simp add: take_Suc_conv_app_nth)
  moreover have "take (length (concat (take (Suc j) ?fs)) - length (concat (take j ?fs)))
      (drop (length (concat (take j ?fs))) contents) = create (gf ! j) []"
  proof -
    have "gf ! j \<noteq> []" using k by auto
    then have "?fs ! j = create (gf ! j) []" using jl by (simp add: filter_of_def)
    then show ?thesis using concat_part [of j ?fs "?E @ [11]"] jl by (simp only: c length_map)
  qed
  ultimately show ?thesis
    using k jl no_false_negative
    unfolding FilterBlock_KeyMayMatch_def Let_def r FilterBlockReader.simps j(1) a1 a2 by simp
qed

end

text \<open>
  C15: No key is lost by the filter block.  For any policy without false
  negatives and data blocks announced in the order of their offsets, a query for
  a key at the offset of the block it was added to answers "may match", as long
  as the filters together are addressable with 32 bits.
\<close>

theorem filter_block_no_false_negative:
  assumes "filter_policy create may_match" "sorted_wrt (\<le>) (map fst blocks)"
    and "(off, ks) \<in> set blocks" "key \<in> set ks"
    and "block = FilterBlock_Finish create (FilterBlock_blocks create blocks FilterBlockBuilder_new)"
    and "length block < 2 ^ 32"
  shows "FilterBlock_KeyMayMatch may_match (FilterBlockReader_new block) off key"
proof -
  note p = assms(1)
  obtain gs pend where g: "fb_state create (FilterBlock_blocks create blocks FilterBlockBuilder_new) gs pend"
    "\<forall>(off, ks)\<in>set blocks. in_group (gs @ [pend]) (unat (off div kFilterBase)) ks"
    using filter_policy.fb_run_groups [OF p fb_state_new assms(2)] by auto
  obtain gf where gf: "block = concat (map (filter_of create) gf)
      @ concat (map EncodeFixed32 (map of_nat
          (starts_of (map (filter_of create) gf) @ [length (concat (map (filter_of create) gf))]))) @ [11]"
    "\<And>j k ks. in_group (gs @ [pend]) j ks \<Longrightarrow> k \<in> set ks \<Longrightarrow> in_group gf j [k]"
    using filter_policy.Finish_groups [OF p g(1)] assms(5) by metis
  have "off div kFilterBase = drop_bit 11 off"
    by (simp add: kFilterBase_def kFilterBaseLg_def word_unat_eq_iff unat_div unat_drop_bit_div)
  then have "in_group gf (unat (drop_bit 11 off)) [key]"
    using gf(2) g(2) assms(3,4) by fastforce
  moreover have "length (concat (map (filter_of create) gf)) < 2 ^ 32"
    using assms(6) gf(1) by simp
  ultimately show ?thesis using filter_policy.reader_finds [OF p _ refl _ gf(1)] by blast
qed

lemma filter_block_no_false_negative_witness:
  "FilterBlock_KeyMayMatch Bloom_KeyMayMatch (FilterBlockReader_new
     (FilterBlock_Finish bloom_create (FilterBlock_blocks bloom_create
        [(0, [[1], [2]]), (5000, [[3]])] FilterBlockBuilder_new))) 5000 [3]"
proof -
  let ?block = "FilterBlock_Finish bloom_create (FilterBlock_blocks bloom_create
      [(0, [[1], [2]]), (5000, [[3]])] FilterBlockBuilder_new)"
  have "length ?block < 2 ^ 32"
    by (simp add: FilterBlock_Finish_def StartBlock_def StartBlock_loop.simps GenerateFilter_def
        FilterBlock_AddKey_def FilterBlockBuilder_new_def kFilterBase_def kFilterBaseLg_def
        length_Bloom_CreateFilter BloomFilterPolicy_new_def PutFixed32_def Let_def)
  then show ?thesis
    using filter_block_no_false_negative [OF bloom.filter_policy_axioms, of "[(0, [[1], [2]]), (5000, [[3]])]"
      5000 "[[3]]" "[3]" ?block] by simp
qed

end
