(* ===== verification/Version_Edit.thy ===== *)
theory Version_Edit
  imports Dbformat Status
begin

text \<open>
  Version edits: \<^verbatim>\<open>src/db/version_edit.cc\<close> and
  \<^verbatim>\<open>src/db/include/version_edit.h\<close>.  An edit records what one flush or
  compaction changes; its encoding is a record of the manifest.  \<^verbatim>\<open>num_levels\<close>
  is \<^verbatim>\<open>gDBConfig->num_levels\<close>.
\<close>

section \<open>Data\<close>

record SSTMetaData =
  sst_refs :: int
  allowed_seeks :: int
  sst_number :: u64
  sst_size :: u64
  smallest_key :: bytes
  largest_key :: bytes

definition SSTMetaData_new :: "u64 \<Rightarrow> u64 \<Rightarrow> bytes \<Rightarrow> bytes \<Rightarrow> SSTMetaData" where
  "SSTMetaData_new number fsize smallest largest =
     \<lparr>sst_refs = 0, allowed_seeks = 2 ^ 30, sst_number = number, sst_size = fsize,
      smallest_key = smallest, largest_key = largest\<rparr>"

text \<open>
  \<^verbatim>\<open>deleted_ssts_\<close> is a \<^verbatim>\<open>std::set\<close> of pairs: a list kept sorted and without
  duplicates by its insertion.
\<close>

record VersionEdit =
  ve_comparator :: bytes
  ve_wal_number :: u64
  ve_prev_wal_number :: u64
  ve_next_sst_number :: u64
  ve_last_sequence :: u64
  has_comparator :: bool
  has_wal_number :: bool
  has_prev_wal_number :: bool
  has_next_sst_number :: bool
  has_last_sequence :: bool
  compact_pointers :: "(int \<times> bytes) list"
  new_ssts :: "(int \<times> SSTMetaData) list"
  deleted_ssts :: "(int \<times> u64) list"

definition VersionEdit_Clear :: VersionEdit where
  "VersionEdit_Clear =
     \<lparr>ve_comparator = [], ve_wal_number = 0, ve_prev_wal_number = 0, ve_next_sst_number = 0,
      ve_last_sequence = 0, has_comparator = False, has_wal_number = False,
      has_prev_wal_number = False, has_next_sst_number = False, has_last_sequence = False,
      compact_pointers = [], new_ssts = [], deleted_ssts = []\<rparr>"

definition level_file_less :: "int \<times> u64 \<Rightarrow> int \<times> u64 \<Rightarrow> bool" where
  "level_file_less x y \<longleftrightarrow> fst x < fst y \<or> (fst x = fst y \<and> snd x < snd y)"

fun DeletedSSTSet_insert :: "int \<times> u64 \<Rightarrow> (int \<times> u64) list \<Rightarrow> (int \<times> u64) list" where
  "DeletedSSTSet_insert x [] = [x]"
| "DeletedSSTSet_insert x (y # ys) =
     (if level_file_less y x then y # DeletedSSTSet_insert x ys
      else if level_file_less x y then x # y # ys else y # ys)"

section \<open>Building an edit\<close>

text \<open>
  \<^verbatim>\<open>comparator_ = name.data()\<close> takes the characters up to the first NUL byte
  after the start of the view; for a view of a string literal, the only use, it
  is the name.
\<close>

definition SetComparatorName :: "bytes \<Rightarrow> VersionEdit \<Rightarrow> VersionEdit" where
  "SetComparatorName name e = e\<lparr>has_comparator := True, ve_comparator := takeWhile (\<lambda>c. c \<noteq> 0) name\<rparr>"

definition SetWalNumber :: "u64 \<Rightarrow> VersionEdit \<Rightarrow> VersionEdit" where
  "SetWalNumber num e = e\<lparr>has_wal_number := True, ve_wal_number := num\<rparr>"

definition SetPrevWalNumber :: "u64 \<Rightarrow> VersionEdit \<Rightarrow> VersionEdit" where
  "SetPrevWalNumber num e = e\<lparr>has_prev_wal_number := True, ve_prev_wal_number := num\<rparr>"

definition SetNextSSTNumber :: "u64 \<Rightarrow> VersionEdit \<Rightarrow> VersionEdit" where
  "SetNextSSTNumber num e = e\<lparr>has_next_sst_number := True, ve_next_sst_number := num\<rparr>"

definition SetNextSST :: "u64 \<Rightarrow> VersionEdit \<Rightarrow> VersionEdit" where
  "SetNextSST num e = e\<lparr>has_next_sst_number := True, ve_next_sst_number := num\<rparr>"

definition SetLastSequence :: "u64 \<Rightarrow> VersionEdit \<Rightarrow> VersionEdit" where
  "SetLastSequence seq e = e\<lparr>has_last_sequence := True, ve_last_sequence := seq\<rparr>"

definition AppendCompactPointer :: "int \<Rightarrow> bytes \<Rightarrow> VersionEdit \<Rightarrow> VersionEdit" where
  "AppendCompactPointer level key e = e\<lparr>compact_pointers := compact_pointers e @ [(level, key)]\<rparr>"

definition AddSST :: "int \<Rightarrow> u64 \<Rightarrow> u64 \<Rightarrow> bytes \<Rightarrow> bytes \<Rightarrow> VersionEdit \<Rightarrow> VersionEdit" where
  "AddSST level number fsize smallest largest e =
     e\<lparr>new_ssts := new_ssts e @ [(level, SSTMetaData_new number fsize smallest largest)]\<rparr>"

definition RemoveSST :: "int \<Rightarrow> u64 \<Rightarrow> VersionEdit \<Rightarrow> VersionEdit" where
  "RemoveSST level number e = e\<lparr>deleted_ssts := DeletedSSTSet_insert (level, number) (deleted_ssts e)\<rparr>"

section \<open>Encoding\<close>

definition kComparator :: u32 where "kComparator = 1"
definition kWalNumber :: u32 where "kWalNumber = 2"
definition kNextSSTNumber :: u32 where "kNextSSTNumber = 3"
definition kLastSequence :: u32 where "kLastSequence = 4"
definition kCompactPointer :: u32 where "kCompactPointer = 5"
definition kDeletedSST :: u32 where "kDeletedSST = 6"
definition kNewSST :: u32 where "kNewSST = 7"
definition kPrevWalNumber :: u32 where "kPrevWalNumber = 9"

lemmas tag_defs = kComparator_def kWalNumber_def kNextSSTNumber_def kLastSequence_def
  kCompactPointer_def kDeletedSST_def kNewSST_def kPrevWalNumber_def

definition put_compact_pointer :: "bytes \<Rightarrow> int \<times> bytes \<Rightarrow> bytes" where
  "put_compact_pointer dst p =
     PutLengthPrefixedSlice (PutVarint32 (PutVarint32 dst kCompactPointer) (of_int (fst p))) (snd p)"

definition put_deleted :: "bytes \<Rightarrow> int \<times> u64 \<Rightarrow> bytes" where
  "put_deleted dst d = PutVarint64 (PutVarint32 (PutVarint32 dst kDeletedSST) (of_int (fst d))) (snd d)"

definition put_new_sst :: "bytes \<Rightarrow> int \<times> SSTMetaData \<Rightarrow> bytes" where
  "put_new_sst dst n =
     (let sst = snd n;
          d1 = PutVarint32 (PutVarint32 dst kNewSST) (of_int (fst n));
          d2 = PutVarint64 (PutVarint64 d1 (sst_number sst)) (sst_size sst)
      in PutLengthPrefixedSlice (PutLengthPrefixedSlice d2 (smallest_key sst)) (largest_key sst))"

definition VersionEdit_EncodeTo :: "VersionEdit \<Rightarrow> bytes \<Rightarrow> bytes" where
  "VersionEdit_EncodeTo e dst =
     (let d1 = (if has_comparator e
                then PutLengthPrefixedSlice (PutVarint32 dst kComparator) (ve_comparator e) else dst);
          d2 = (if has_wal_number e then PutVarint64 (PutVarint32 d1 kWalNumber) (ve_wal_number e) else d1);
          d3 = (if has_prev_wal_number e
                then PutVarint64 (PutVarint32 d2 kPrevWalNumber) (ve_prev_wal_number e) else d2);
          d4 = (if has_next_sst_number e
                then PutVarint64 (PutVarint32 d3 kNextSSTNumber) (ve_next_sst_number e) else d3);
          d5 = (if has_last_sequence e
                then PutVarint64 (PutVarint32 d4 kLastSequence) (ve_last_sequence e) else d4);
          d6 = foldl put_compact_pointer d5 (compact_pointers e);
          d7 = foldl put_deleted d6 (deleted_ssts e)
      in foldl put_new_sst d7 (new_ssts e))"

section \<open>Decoding\<close>

text \<open>\<^verbatim>\<open>DecodeFrom\<close> of an internal key fails on the empty string only.\<close>

definition GetInternalKey :: "bytes \<Rightarrow> (bytes \<times> bytes) option" where
  "GetInternalKey input =
     (case GetLengthPrefixedSlice input of
        None \<Rightarrow> None
      | Some (str, rest) \<Rightarrow>
          (case InternalKey_DecodeFrom str of None \<Rightarrow> None | Some key \<Rightarrow> Some (key, rest)))"

text \<open>\<^verbatim>\<open>static_cast<int>(v) < num_levels\<close>: the comparison is signed.\<close>

definition GetLevel :: "int \<Rightarrow> bytes \<Rightarrow> (int \<times> bytes) option" where
  "GetLevel num_levels input =
     (case GetVarint32 input of
        None \<Rightarrow> None
      | Some (v, rest) \<Rightarrow> if sint v < num_levels then Some (sint v, rest) else None)"

text \<open>
  One field: \<^verbatim>\<open>Inl\<close> is the message of a failure, which leaves the edit as it
  was.
\<close>

definition VersionEdit_field ::
    "int \<Rightarrow> u32 \<Rightarrow> bytes \<Rightarrow> VersionEdit \<Rightarrow> string + (VersionEdit \<times> bytes)" where
  "VersionEdit_field num_levels tag input e =
     (if tag = kComparator then
        (case GetLengthPrefixedSlice input of
           Some (str, rest) \<Rightarrow> Inr (e\<lparr>ve_comparator := str, has_comparator := True\<rparr>, rest)
         | None \<Rightarrow> Inl ''comparator name'')
      else if tag = kWalNumber then
        (case GetVarint64 input of
           Some (v, rest) \<Rightarrow> Inr (e\<lparr>ve_wal_number := v, has_wal_number := True\<rparr>, rest)
         | None \<Rightarrow> Inl ''log number'')
      else if tag = kPrevWalNumber then
        (case GetVarint64 input of
           Some (v, rest) \<Rightarrow> Inr (e\<lparr>ve_prev_wal_number := v, has_prev_wal_number := True\<rparr>, rest)
         | None \<Rightarrow> Inl ''previous log number'')
      else if tag = kNextSSTNumber then
        (case GetVarint64 input of
           Some (v, rest) \<Rightarrow> Inr (e\<lparr>ve_next_sst_number := v, has_next_sst_number := True\<rparr>, rest)
         | None \<Rightarrow> Inl ''next file number'')
      else if tag = kLastSequence then
        (case GetVarint64 input of
           Some (v, rest) \<Rightarrow> Inr (e\<lparr>ve_last_sequence := v, has_last_sequence := True\<rparr>, rest)
         | None \<Rightarrow> Inl ''last sequence number'')
      else if tag = kCompactPointer then
        (case GetLevel num_levels input of
           Some (level, i1) \<Rightarrow>
             (case GetInternalKey i1 of
                Some (key, i2) \<Rightarrow> Inr (e\<lparr>compact_pointers := compact_pointers e @ [(level, key)]\<rparr>, i2)
              | None \<Rightarrow> Inl ''compaction pointer'')
         | None \<Rightarrow> Inl ''compaction pointer'')
      else if tag = kDeletedSST then
        (case GetLevel num_levels input of
           Some (level, i1) \<Rightarrow>
             (case GetVarint64 i1 of
                Some (number, i2) \<Rightarrow>
                  Inr (e\<lparr>deleted_ssts := DeletedSSTSet_insert (level, number) (deleted_ssts e)\<rparr>, i2)
              | None \<Rightarrow> Inl ''deleted file'')
         | None \<Rightarrow> Inl ''deleted file'')
      else if tag = kNewSST then
        (case GetLevel num_levels input of
           Some (level, i1) \<Rightarrow>
             (case GetVarint64 i1 of
                Some (number, i2) \<Rightarrow>
                  (case GetVarint64 i2 of
                     Some (fsize, i3) \<Rightarrow>
                       (case GetInternalKey i3 of
                          Some (smallest, i4) \<Rightarrow>
                            (case GetInternalKey i4 of
                               Some (largest, i5) \<Rightarrow>
                                 Inr (e\<lparr>new_ssts := new_ssts e
                                        @ [(level, SSTMetaData_new number fsize smallest largest)]\<rparr>, i5)
                             | None \<Rightarrow> Inl ''new-file entry'')
                        | None \<Rightarrow> Inl ''new-file entry'')
                   | None \<Rightarrow> Inl ''new-file entry'')
              | None \<Rightarrow> Inl ''new-file entry'')
         | None \<Rightarrow> Inl ''new-file entry'')
      else Inl ''unknown tag'')"

lemma GetInternalKey_shorter: "GetInternalKey p = Some (k, rest) \<Longrightarrow> length rest < length p"
  by (auto simp: GetInternalKey_def dest: GetLengthPrefixedSlice_shorter split: option.splits)

lemma GetLevel_shorter: "GetLevel n p = Some (k, rest) \<Longrightarrow> length rest < length p"
  by (auto simp: GetLevel_def dest: GetVarint32_shorter split: option.splits if_splits)

lemma VersionEdit_field_shorter:
  "VersionEdit_field n tag input e = Inr (e', rest) \<Longrightarrow> length rest < length input"
  unfolding VersionEdit_field_def
  by (auto dest!: GetInternalKey_shorter GetLevel_shorter GetVarint64_shorter GetLengthPrefixedSlice_shorter
      split: option.splits if_splits)

text \<open>The loop: the edit, and the message or the input the loop stopped at.\<close>

function VersionEdit_DecodeFrom_loop ::
    "int \<Rightarrow> bytes \<Rightarrow> VersionEdit \<Rightarrow> VersionEdit \<times> (string + bytes)" where
  "VersionEdit_DecodeFrom_loop num_levels input e =
     (case GetVarint32 input of
        None \<Rightarrow> (e, Inr input)
      | Some (tag, i1) \<Rightarrow>
          (case VersionEdit_field num_levels tag i1 e of
             Inl msg \<Rightarrow> (e, Inl msg)
           | Inr (e', i2) \<Rightarrow> VersionEdit_DecodeFrom_loop num_levels i2 e'))"
  by auto
termination
  by (relation "measure (\<lambda>(n, input, e). length input)")
    (auto dest!: GetVarint32_shorter VersionEdit_field_shorter)

declare VersionEdit_DecodeFrom_loop.simps [simp del]

definition VersionEdit_DecodeFrom :: "int \<Rightarrow> bytes \<Rightarrow> Status \<times> VersionEdit" where
  "VersionEdit_DecodeFrom num_levels src =
     (case VersionEdit_DecodeFrom_loop num_levels src VersionEdit_Clear of
        (e, Inl msg) \<Rightarrow> (Status_new kCorruption (text_bytes ''VersionEdit'') (text_bytes msg), e)
      | (e, Inr input) \<Rightarrow>
          if input \<noteq> []
          then (Status_new kCorruption (text_bytes ''VersionEdit'') (text_bytes ''invalid tag''), e)
          else (Status_OK, e))"

section \<open>Well-formed edits\<close>

text \<open>
  What the setters build from a cleared edit: levels of the tree, keys that are
  not empty and have a 32-bit length, unset fields still cleared, new files with
  fresh counters.
\<close>

definition key_ok :: "bytes \<Rightarrow> bool" where
  "key_ok k \<longleftrightarrow> k \<noteq> [] \<and> length k < 2 ^ 32"

definition level_ok :: "int \<Rightarrow> int \<Rightarrow> bool" where
  "level_ok num_levels l \<longleftrightarrow> 0 \<le> l \<and> l < num_levels"

definition new_sst_ok :: "int \<Rightarrow> int \<times> SSTMetaData \<Rightarrow> bool" where
  "new_sst_ok num_levels n \<longleftrightarrow> level_ok num_levels (fst n)
     \<and> key_ok (smallest_key (snd n)) \<and> key_ok (largest_key (snd n))
     \<and> snd n = SSTMetaData_new (sst_number (snd n)) (sst_size (snd n))
         (smallest_key (snd n)) (largest_key (snd n))"

definition edit_ok :: "int \<Rightarrow> VersionEdit \<Rightarrow> bool" where
  "edit_ok num_levels e \<longleftrightarrow>
     length (ve_comparator e) < 2 ^ 32
     \<and> (has_comparator e \<or> ve_comparator e = []) \<and> (has_wal_number e \<or> ve_wal_number e = 0)
     \<and> (has_prev_wal_number e \<or> ve_prev_wal_number e = 0)
     \<and> (has_next_sst_number e \<or> ve_next_sst_number e = 0)
     \<and> (has_last_sequence e \<or> ve_last_sequence e = 0)
     \<and> (\<forall>p\<in>set (compact_pointers e). level_ok num_levels (fst p) \<and> key_ok (snd p))
     \<and> (\<forall>d\<in>set (deleted_ssts e). level_ok num_levels (fst d))
     \<and> sorted_wrt level_file_less (deleted_ssts e)
     \<and> (\<forall>n\<in>set (new_ssts e). new_sst_ok num_levels n)"

lemma set_DeletedSSTSet_insert [simp]: "set (DeletedSSTSet_insert x xs) = insert x (set xs)"
  by (induction xs) (auto simp: level_file_less_def prod_eq_iff)

lemma sorted_DeletedSSTSet_insert [ordered]:
  "sorted_wrt level_file_less xs \<Longrightarrow> sorted_wrt level_file_less (DeletedSSTSet_insert x xs)"
  by (induction xs) (auto simp: level_file_less_def)

lemma edit_ok_Clear [wf]: "edit_ok n VersionEdit_Clear"
  by (simp add: edit_ok_def VersionEdit_Clear_def)

lemma edit_ok_setters [wf]:
  assumes "edit_ok n e"
  shows "length name < 2 ^ 32 \<Longrightarrow> edit_ok n (SetComparatorName name e)"
    "edit_ok n (SetWalNumber v e)" "edit_ok n (SetPrevWalNumber v e)"
    "edit_ok n (SetNextSSTNumber v e)" "edit_ok n (SetNextSST v e)" "edit_ok n (SetLastSequence v e)"
    "level_ok n l \<Longrightarrow> key_ok k \<Longrightarrow> edit_ok n (AppendCompactPointer l k e)"
    "level_ok n l \<Longrightarrow> edit_ok n (RemoveSST l v e)"
    "level_ok n l \<Longrightarrow> key_ok k \<Longrightarrow> key_ok k' \<Longrightarrow> edit_ok n (AddSST l v w k k' e)"
  using assms le_less_trans [OF length_takeWhile_le]
  by (auto simp: edit_ok_def SetComparatorName_def SetWalNumber_def SetPrevWalNumber_def
      SetNextSSTNumber_def SetNextSST_def SetLastSequence_def AppendCompactPointer_def RemoveSST_def
      AddSST_def new_sst_ok_def SSTMetaData_new_def sorted_DeletedSSTSet_insert)

section \<open>The round trip\<close>

lemma DeletedSSTSet_insert_last:
  "sorted_wrt level_file_less (xs @ [x]) \<Longrightarrow> DeletedSSTSet_insert x xs = xs @ [x]"
  by (induction xs) auto

lemma GetLevel_Encode:
  assumes "level_ok n l" "n \<le> 2 ^ 31"
  shows "GetLevel n (EncodeVarint32 (of_int l) @ rest) = Some (l, rest)"
proof -
  have "sint (of_int l :: u32) = l"
    using assms by (simp add: level_ok_def signed_of_int signed_take_bit_int_eq_self)
  then show ?thesis using assms by (simp add: GetLevel_def level_ok_def)
qed

lemma GetInternalKey_Encode:
  "key_ok k \<Longrightarrow> GetInternalKey (EncodeVarint32 (of_nat (length k)) @ k @ rest) = Some (k, rest)"
  by (simp add: GetInternalKey_def key_ok_def InternalKey_DecodeFrom_def)

lemma loop_field:
  assumes "VersionEdit_field n tag (body @ rest) e = Inr (e', rest)"
  shows "VersionEdit_DecodeFrom_loop n (EncodeVarint32 tag @ body @ rest) e =
    VersionEdit_DecodeFrom_loop n rest e'"
  by (subst VersionEdit_DecodeFrom_loop.simps) (simp add: assms)

text \<open>The bytes each part of an edit contributes.\<close>

definition enc_field :: "bool \<Rightarrow> u32 \<Rightarrow> bytes \<Rightarrow> bytes" where
  "enc_field has tag body = (if has then EncodeVarint32 tag @ body else [])"

definition enc_slice :: "bytes \<Rightarrow> bytes" where
  "enc_slice x = EncodeVarint32 (of_nat (length x)) @ x"

lemma GetInternalKey_slice: "key_ok k \<Longrightarrow> GetInternalKey (enc_slice k @ rest) = Some (k, rest)"
  by (simp add: enc_slice_def GetInternalKey_Encode)

definition enc_compact :: "int \<times> bytes \<Rightarrow> bytes" where
  "enc_compact p = EncodeVarint32 (of_int (fst p)) @ enc_slice (snd p)"

definition enc_deleted :: "int \<times> u64 \<Rightarrow> bytes" where
  "enc_deleted d = EncodeVarint32 (of_int (fst d)) @ EncodeVarint64 (snd d)"

definition enc_new :: "int \<times> SSTMetaData \<Rightarrow> bytes" where
  "enc_new n = EncodeVarint32 (of_int (fst n)) @ EncodeVarint64 (sst_number (snd n))
     @ EncodeVarint64 (sst_size (snd n)) @ enc_slice (smallest_key (snd n)) @ enc_slice (largest_key (snd n))"

definition enc_list :: "u32 \<Rightarrow> ('a \<Rightarrow> bytes) \<Rightarrow> 'a list \<Rightarrow> bytes" where
  "enc_list tag enc xs = concat (map (\<lambda>x. EncodeVarint32 tag @ enc x) xs)"

lemma foldl_put:
  assumes "\<And>dst x. put dst x = dst @ EncodeVarint32 tag @ enc x"
  shows "foldl put dst xs = dst @ enc_list tag enc xs"
  by (induction xs arbitrary: dst) (simp_all add: enc_list_def assms)

lemma VersionEdit_EncodeTo_eq:
  "VersionEdit_EncodeTo e dst =
     dst @ enc_field (has_comparator e) kComparator (enc_slice (ve_comparator e))
     @ enc_field (has_wal_number e) kWalNumber (EncodeVarint64 (ve_wal_number e))
     @ enc_field (has_prev_wal_number e) kPrevWalNumber (EncodeVarint64 (ve_prev_wal_number e))
     @ enc_field (has_next_sst_number e) kNextSSTNumber (EncodeVarint64 (ve_next_sst_number e))
     @ enc_field (has_last_sequence e) kLastSequence (EncodeVarint64 (ve_last_sequence e))
     @ enc_list kCompactPointer enc_compact (compact_pointers e)
     @ enc_list kDeletedSST enc_deleted (deleted_ssts e)
     @ enc_list kNewSST enc_new (new_ssts e)"
proof -
  have c: "foldl put_compact_pointer dst xs = dst @ enc_list kCompactPointer enc_compact xs" for dst xs
    by (rule foldl_put)
      (simp add: put_compact_pointer_def enc_compact_def enc_slice_def PutVarint32_def PutLengthPrefixedSlice_def)
  have d: "foldl put_deleted dst xs = dst @ enc_list kDeletedSST enc_deleted xs" for dst xs
    by (rule foldl_put) (simp add: put_deleted_def enc_deleted_def PutVarint32_def PutVarint64_def)
  have n: "foldl put_new_sst dst xs = dst @ enc_list kNewSST enc_new xs" for dst xs
    by (rule foldl_put) (simp add: put_new_sst_def enc_new_def enc_slice_def PutVarint32_def PutVarint64_def
        PutLengthPrefixedSlice_def Let_def)
  show ?thesis
    unfolding VersionEdit_EncodeTo_def Let_def c d n
    by (simp add: enc_field_def enc_slice_def PutVarint32_def PutVarint64_def PutLengthPrefixedSlice_def)
qed

lemma loop_optional:
  assumes "has \<Longrightarrow> VersionEdit_field n tag (body @ rest) a = Inr (a', rest)"
  shows "VersionEdit_DecodeFrom_loop n (enc_field has tag body @ rest) a =
    VersionEdit_DecodeFrom_loop n rest (if has then a' else a)"
  using loop_field [OF assms] by (simp add: enc_field_def)

lemma loop_list:
  assumes "\<And>x a r. x \<in> set xs \<Longrightarrow> VersionEdit_field n tag (enc x @ r) a = Inr (upd x a, r)"
  shows "VersionEdit_DecodeFrom_loop n (enc_list tag enc xs @ rest) a =
    VersionEdit_DecodeFrom_loop n rest (fold upd xs a)"
  using assms
proof (induction xs arbitrary: a)
  case (Cons x xs)
  have "VersionEdit_field n tag (enc x @ enc_list tag enc xs @ rest) a =
      Inr (upd x a, enc_list tag enc xs @ rest)"
    using Cons.prems by simp
  from loop_field [OF this] Cons.IH [of "upd x a"] Cons.prems show ?case
    by (simp add: enc_list_def)
qed (simp add: enc_list_def)

lemma fold_deleted:
  "sorted_wrt level_file_less (deleted_ssts a @ ds) \<Longrightarrow>
   fold (\<lambda>d a. a\<lparr>deleted_ssts := DeletedSSTSet_insert d (deleted_ssts a)\<rparr>) ds a =
   a\<lparr>deleted_ssts := deleted_ssts a @ ds\<rparr>"
proof (induction ds arbitrary: a)
  case (Cons d ds)
  have "sorted_wrt level_file_less (deleted_ssts a @ [d])"
    using Cons.prems by (auto simp: sorted_wrt_append)
  with Cons show ?case by (simp add: DeletedSSTSet_insert_last)
qed simp

lemma fold_compact:
  "fold (\<lambda>p a. a\<lparr>compact_pointers := compact_pointers a @ [p]\<rparr>) ps a =
   a\<lparr>compact_pointers := compact_pointers a @ ps\<rparr>"
  by (induction ps arbitrary: a) simp_all

lemma fold_new:
  "fold (\<lambda>p a. a\<lparr>new_ssts := new_ssts a @ [p]\<rparr>) ps a = a\<lparr>new_ssts := new_ssts a @ ps\<rparr>"
  by (induction ps arbitrary: a) simp_all

lemmas field_defs = VersionEdit_field_def tag_defs

lemma field_compact:
  assumes "level_ok n (fst p)" "key_ok (snd p)" "n \<le> 2 ^ 31"
  shows "VersionEdit_field n kCompactPointer (enc_compact p @ r) a =
    Inr (a\<lparr>compact_pointers := compact_pointers a @ [p]\<rparr>, r)"
  by (simp add: field_defs enc_compact_def enc_slice_def GetLevel_Encode [OF assms(1,3)]
      GetInternalKey_Encode [OF assms(2)])

lemma field_deleted:
  assumes "level_ok n (fst d)" "n \<le> 2 ^ 31"
  shows "VersionEdit_field n kDeletedSST (enc_deleted d @ r) a =
    Inr (a\<lparr>deleted_ssts := DeletedSSTSet_insert d (deleted_ssts a)\<rparr>, r)"
  by (simp add: field_defs enc_deleted_def GetLevel_Encode [OF assms])

lemma field_new:
  assumes "new_sst_ok n f" "n \<le> 2 ^ 31"
  shows "VersionEdit_field n kNewSST (enc_new f @ r) a = Inr (a\<lparr>new_ssts := new_ssts a @ [f]\<rparr>, r)"
proof -
  have f: "level_ok n (fst f)" "key_ok (smallest_key (snd f))" "key_ok (largest_key (snd f))"
    "SSTMetaData_new (sst_number (snd f)) (sst_size (snd f)) (smallest_key (snd f)) (largest_key (snd f))
      = snd f"
    using assms(1) by (auto simp: new_sst_ok_def)
  then show ?thesis
    by (simp add: field_defs enc_new_def enc_slice_def GetLevel_Encode [OF f(1) assms(2)]
        GetInternalKey_Encode)
qed

lemma VersionEdit_DecodeFrom_loop_Encode:
  assumes "edit_ok n e" "n \<le> 2 ^ 31"
  shows "VersionEdit_DecodeFrom_loop n (VersionEdit_EncodeTo e []) VersionEdit_Clear = (e, Inr [])"
proof -
  note ok = assms(1)[unfolded edit_ok_def]
  let ?L = "VersionEdit_DecodeFrom_loop n"
  define r8 where "r8 = enc_list kNewSST enc_new (new_ssts e)"
  define r7 where "r7 = enc_list kDeletedSST enc_deleted (deleted_ssts e) @ r8"
  define r6 where "r6 = enc_list kCompactPointer enc_compact (compact_pointers e) @ r7"
  have s1: "?L (enc_field (has_comparator e) kComparator (enc_slice (ve_comparator e)) @ r) a =
      ?L r (a\<lparr>ve_comparator := ve_comparator e, has_comparator := has_comparator e\<rparr>)"
    if "ve_comparator a = []" "\<not> has_comparator a" for r a
  proof (cases "has_comparator e")
    case True
    have "VersionEdit_field n kComparator (enc_slice (ve_comparator e) @ r) a =
        Inr (a\<lparr>ve_comparator := ve_comparator e, has_comparator := True\<rparr>, r)"
      using ok by (simp add: field_defs enc_slice_def)
    from loop_optional [where has = True, OF this] show ?thesis using True by simp
  next
    case False
    with ok that have "a\<lparr>ve_comparator := ve_comparator e, has_comparator := has_comparator e\<rparr> = a" by simp
    then show ?thesis using False by (simp add: enc_field_def)
  qed
  have s2: "?L (enc_field (has_wal_number e) kWalNumber (EncodeVarint64 (ve_wal_number e)) @ r) a =
      ?L r (a\<lparr>ve_wal_number := ve_wal_number e, has_wal_number := has_wal_number e\<rparr>)"
    if "ve_wal_number a = 0" "\<not> has_wal_number a" for r a
  proof (cases "has_wal_number e")
    case True
    have "VersionEdit_field n kWalNumber (EncodeVarint64 (ve_wal_number e) @ r) a =
        Inr (a\<lparr>ve_wal_number := ve_wal_number e, has_wal_number := True\<rparr>, r)"
      using ok by (simp add: field_defs)
    from loop_optional [where has = True, OF this] show ?thesis using True by simp
  next
    case False
    with ok that have "a\<lparr>ve_wal_number := ve_wal_number e, has_wal_number := has_wal_number e\<rparr> = a" by simp
    then show ?thesis using False by (simp add: enc_field_def)
  qed
  have s3: "?L (enc_field (has_prev_wal_number e) kPrevWalNumber (EncodeVarint64 (ve_prev_wal_number e)) @ r) a =
      ?L r (a\<lparr>ve_prev_wal_number := ve_prev_wal_number e, has_prev_wal_number := has_prev_wal_number e\<rparr>)"
    if "ve_prev_wal_number a = 0" "\<not> has_prev_wal_number a" for r a
  proof (cases "has_prev_wal_number e")
    case True
    have "VersionEdit_field n kPrevWalNumber (EncodeVarint64 (ve_prev_wal_number e) @ r) a =
        Inr (a\<lparr>ve_prev_wal_number := ve_prev_wal_number e, has_prev_wal_number := True\<rparr>, r)"
      using ok by (simp add: field_defs)
    from loop_optional [where has = True, OF this] show ?thesis using True by simp
  next
    case False
    with ok that have "a\<lparr>ve_prev_wal_number := ve_prev_wal_number e, has_prev_wal_number := has_prev_wal_number e\<rparr> = a" by simp
    then show ?thesis using False by (simp add: enc_field_def)
  qed
  have s4: "?L (enc_field (has_next_sst_number e) kNextSSTNumber (EncodeVarint64 (ve_next_sst_number e)) @ r) a =
      ?L r (a\<lparr>ve_next_sst_number := ve_next_sst_number e, has_next_sst_number := has_next_sst_number e\<rparr>)"
    if "ve_next_sst_number a = 0" "\<not> has_next_sst_number a" for r a
  proof (cases "has_next_sst_number e")
    case True
    have "VersionEdit_field n kNextSSTNumber (EncodeVarint64 (ve_next_sst_number e) @ r) a =
        Inr (a\<lparr>ve_next_sst_number := ve_next_sst_number e, has_next_sst_number := True\<rparr>, r)"
      using ok by (simp add: field_defs)
    from loop_optional [where has = True, OF this] show ?thesis using True by simp
  next
    case False
    with ok that have "a\<lparr>ve_next_sst_number := ve_next_sst_number e, has_next_sst_number := has_next_sst_number e\<rparr> = a" by simp
    then show ?thesis using False by (simp add: enc_field_def)
  qed
  have s5: "?L (enc_field (has_last_sequence e) kLastSequence (EncodeVarint64 (ve_last_sequence e)) @ r) a =
      ?L r (a\<lparr>ve_last_sequence := ve_last_sequence e, has_last_sequence := has_last_sequence e\<rparr>)"
    if "ve_last_sequence a = 0" "\<not> has_last_sequence a" for r a
  proof (cases "has_last_sequence e")
    case True
    have "VersionEdit_field n kLastSequence (EncodeVarint64 (ve_last_sequence e) @ r) a =
        Inr (a\<lparr>ve_last_sequence := ve_last_sequence e, has_last_sequence := True\<rparr>, r)"
      using ok by (simp add: field_defs)
    from loop_optional [where has = True, OF this] show ?thesis using True by simp
  next
    case False
    with ok that have "a\<lparr>ve_last_sequence := ve_last_sequence e, has_last_sequence := has_last_sequence e\<rparr> = a" by simp
    then show ?thesis using False by (simp add: enc_field_def)
  qed
  have l6: "?L r6 a = ?L r7 (a\<lparr>compact_pointers := compact_pointers a @ compact_pointers e\<rparr>)" for a
  proof -
    have "?L r6 a = ?L r7 (fold (\<lambda>p a. a\<lparr>compact_pointers := compact_pointers a @ [p]\<rparr>) (compact_pointers e) a)"
      unfolding r6_def using ok assms(2) by (intro loop_list field_compact) auto
    then show ?thesis by (simp only: fold_compact)
  qed
  have l7: "deleted_ssts a = [] \<Longrightarrow> ?L r7 a = ?L r8 (a\<lparr>deleted_ssts := deleted_ssts e\<rparr>)" for a
  proof -
    assume "deleted_ssts a = []"
    then have "a\<lparr>deleted_ssts := deleted_ssts e\<rparr> =
        fold (\<lambda>d a. a\<lparr>deleted_ssts := DeletedSSTSet_insert d (deleted_ssts a)\<rparr>) (deleted_ssts e) a"
      using fold_deleted [of a "deleted_ssts e"] ok by simp
    then show ?thesis
      unfolding r7_def using ok assms(2) by (simp only:) (intro loop_list field_deleted, auto)
  qed
  have l8: "?L r8 a = ?L [] (a\<lparr>new_ssts := new_ssts a @ new_ssts e\<rparr>)" for a
  proof -
    have "?L (r8 @ []) a = ?L [] (fold (\<lambda>p a. a\<lparr>new_ssts := new_ssts a @ [p]\<rparr>) (new_ssts e) a)"
      unfolding r8_def using ok assms(2) by (intro loop_list field_new) auto
    then show ?thesis by (simp add: fold_new)
  qed
  have nil: "?L [] a = (a, Inr [])" for a
    by (subst VersionEdit_DecodeFrom_loop.simps) simp
  have start: "?L (VersionEdit_EncodeTo e []) VersionEdit_Clear =
      ?L (enc_field (has_comparator e) kComparator (enc_slice (ve_comparator e))
        @ enc_field (has_wal_number e) kWalNumber (EncodeVarint64 (ve_wal_number e))
        @ enc_field (has_prev_wal_number e) kPrevWalNumber (EncodeVarint64 (ve_prev_wal_number e))
        @ enc_field (has_next_sst_number e) kNextSSTNumber (EncodeVarint64 (ve_next_sst_number e))
        @ enc_field (has_last_sequence e) kLastSequence (EncodeVarint64 (ve_last_sequence e)) @ r6)
        VersionEdit_Clear"
    by (simp add: VersionEdit_EncodeTo_eq r6_def r7_def r8_def)
  show ?thesis
    unfolding start by (simp add: VersionEdit_Clear_def s1 s2 s3 s4 s5 l6 l7 l8 nil)
qed

text \<open>
  C23: The manifest keeps version edits exactly: every edit the setters can
  build from a cleared one (levels of the tree, keys that are not empty) decodes
  from its encoding to the same edit, with status OK.
\<close>

theorem VersionEdit_roundtrip:
  assumes "edit_ok num_levels e" "num_levels \<le> 2 ^ 31"
  shows "VersionEdit_DecodeFrom num_levels (VersionEdit_EncodeTo e []) = (Status_OK, e)"
  by (simp add: VersionEdit_DecodeFrom_def VersionEdit_DecodeFrom_loop_Encode [OF assms])

lemma VersionEdit_roundtrip_witness:
  "let e = AddSST 1 9 4096 [1] [7] (RemoveSST 2 3 (RemoveSST 0 5 (SetWalNumber 300
             (AppendCompactPointer 1 [4, 2] (SetLastSequence 77 VersionEdit_Clear)))))
   in VersionEdit_DecodeFrom 7 (VersionEdit_EncodeTo e []) = (Status_OK, e)
      \<and> deleted_ssts e = [(0, 5), (2, 3)]"
proof -
  let ?e = "AddSST 1 9 4096 [1] [7] (RemoveSST 2 3 (RemoveSST 0 5 (SetWalNumber 300
             (AppendCompactPointer 1 [4, 2] (SetLastSequence 77 VersionEdit_Clear)))))"
  have "edit_ok 7 ?e"
    by (intro edit_ok_setters edit_ok_Clear) (simp_all add: level_ok_def key_ok_def)
  from VersionEdit_roundtrip [OF this] show ?thesis
    by (simp add: AddSST_def RemoveSST_def SetWalNumber_def AppendCompactPointer_def SetLastSequence_def
        VersionEdit_Clear_def level_file_less_def Let_def)
qed

definition edit_bounded :: "int \<Rightarrow> VersionEdit \<Rightarrow> bool" where
  "edit_bounded n e \<longleftrightarrow>
     (\<forall>p\<in>set (compact_pointers e). fst p < n \<and> snd p \<noteq> [])
     \<and> (\<forall>d\<in>set (deleted_ssts e). fst d < n)
     \<and> (\<forall>f\<in>set (new_ssts e). fst f < n \<and> smallest_key (snd f) \<noteq> [] \<and> largest_key (snd f) \<noteq> [])"

lemma GetLevel_bound: "GetLevel n p = Some (l, rest) \<Longrightarrow> l < n"
  by (auto simp: GetLevel_def split: option.splits if_splits)

lemma GetInternalKey_not_Nil: "GetInternalKey p = Some (k, rest) \<Longrightarrow> k \<noteq> []"
  by (auto simp: GetInternalKey_def InternalKey_DecodeFrom_def split: option.splits if_splits)

lemma edit_bounded_updates:
  "edit_bounded n (e\<lparr>ve_comparator := c, has_comparator := b\<rparr>) = edit_bounded n e"
  "edit_bounded n (e\<lparr>ve_wal_number := v, has_wal_number := b\<rparr>) = edit_bounded n e"
  "edit_bounded n (e\<lparr>ve_prev_wal_number := v, has_prev_wal_number := b\<rparr>) = edit_bounded n e"
  "edit_bounded n (e\<lparr>ve_next_sst_number := v, has_next_sst_number := b\<rparr>) = edit_bounded n e"
  "edit_bounded n (e\<lparr>ve_last_sequence := v, has_last_sequence := b\<rparr>) = edit_bounded n e"
  "edit_bounded n e \<Longrightarrow> l < n \<Longrightarrow> k \<noteq> [] \<Longrightarrow>
   edit_bounded n (e\<lparr>compact_pointers := compact_pointers e @ [(l, k)]\<rparr>)"
  "edit_bounded n e \<Longrightarrow> l < n \<Longrightarrow>
   edit_bounded n (e\<lparr>deleted_ssts := DeletedSSTSet_insert (l, v) (deleted_ssts e)\<rparr>)"
  "edit_bounded n e \<Longrightarrow> l < n \<Longrightarrow> k \<noteq> [] \<Longrightarrow> k' \<noteq> [] \<Longrightarrow>
   edit_bounded n (e\<lparr>new_ssts := new_ssts e @ [(l, SSTMetaData_new v w k k')]\<rparr>)"
  by (auto simp: edit_bounded_def SSTMetaData_new_def)

lemma VersionEdit_field_bounded:
  assumes "edit_bounded n e"
  shows "VersionEdit_field n tag input e = Inr (e', rest) \<Longrightarrow> edit_bounded n e'"
  unfolding VersionEdit_field_def using assms
  by (auto simp: edit_bounded_updates(1-5) intro!: edit_bounded_updates(6-8) dest!: GetInternalKey_not_Nil GetLevel_bound split: option.splits if_splits)

lemma VersionEdit_loop_bounded:
  "VersionEdit_DecodeFrom_loop n input e = (e', r) \<Longrightarrow> edit_bounded n e \<Longrightarrow> edit_bounded n e'"
proof (induction n input e rule: VersionEdit_DecodeFrom_loop.induct)
  case (1 n input e)
  show ?case
  proof (cases "GetVarint32 input")
    case None
    then show ?thesis using "1.prems" by (subst (asm) VersionEdit_DecodeFrom_loop.simps) simp
  next
    case (Some x)
    obtain tag i1 where x: "x = (tag, i1)" by (cases x)
    show ?thesis
    proof (cases "VersionEdit_field n tag i1 e")
      case (Inl m)
      then show ?thesis using "1.prems" Some x by (subst (asm) VersionEdit_DecodeFrom_loop.simps) simp
    next
      case (Inr y)
      obtain e1 i2 where y: "y = (e1, i2)" by (cases y)
      have "VersionEdit_DecodeFrom_loop n i2 e1 = (e', r)"
        using "1.prems"(1) Some x Inr y by (subst (asm) VersionEdit_DecodeFrom_loop.simps) simp
      moreover have "edit_bounded n e1"
        using VersionEdit_field_bounded [OF "1.prems"(2)] Inr y by blast
      ultimately show ?thesis using "1.IH" [OF Some x [symmetric] Inr y [symmetric]] by blast
    qed
  qed
qed



end
