(* ===== verification/Version_Files.thy ===== *)
theory Version_Files
  imports Version_Edit
begin

text \<open>
  The files of a version and the searches over them: the first part of
  \<^verbatim>\<open>src/db/version_set.cc\<close>, with \<^verbatim>\<open>Version\<close> of
  \<^verbatim>\<open>src/db/include/version_set.h\<close>.  The comparators are the configured ones,
  \<^verbatim>\<open>ucmp\<close> on user keys and \<^verbatim>\<open>icmp\<close> on internal keys.  A pointer to file metadata
  is the metadata itself; files are told apart by their numbers.
\<close>

section \<open>Sizes\<close>

definition TargetFileSize :: "nat \<Rightarrow> nat" where
  "TargetFileSize max_file_size = max_file_size"

definition MaxGrandParentOverlapBytes :: "nat \<Rightarrow> int" where
  "MaxGrandParentOverlapBytes max_file_size = int (10 * TargetFileSize max_file_size)"

definition ExpandedCompactionByteSizeLimit :: "nat \<Rightarrow> int" where
  "ExpandedCompactionByteSizeLimit max_file_size = int (25 * TargetFileSize max_file_size)"

text \<open>The loop multiplies a double; the powers of ten below \<^verbatim>\<open>10^15\<close> it reaches are exact.\<close>

fun MaxBytesForLevel :: "nat \<Rightarrow> nat" where
  "MaxBytesForLevel level = (if 1 < level then MaxBytesForLevel (level - 1) * 10 else 10 * 1048576)"

declare MaxBytesForLevel.simps [simp del]

definition MaxSSTSizeForLevel :: "nat \<Rightarrow> nat \<Rightarrow> nat" where
  "MaxSSTSizeForLevel max_file_size level = TargetFileSize max_file_size"

definition TotalSSTSize :: "SSTMetaData list \<Rightarrow> int" where
  "TotalSSTSize ssts = foldl (\<lambda>s f. s + uint (sst_size f)) 0 ssts"

section \<open>Searching a level\<close>

definition sst_small :: "SSTMetaData \<Rightarrow> bytes" where
  "sst_small f = ExtractUserKey (smallest_key f)"

definition sst_large :: "SSTMetaData \<Rightarrow> bytes" where
  "sst_large f = ExtractUserKey (largest_key f)"

function FindSST_loop :: "SSTMetaData list \<Rightarrow> bytes \<Rightarrow> nat \<Rightarrow> nat \<Rightarrow> nat" where
  "FindSST_loop ssts key left right =
     (if left < right then
        (let mid = (left + right) div 2 in
         if icmp (largest_key (ssts ! mid)) key < 0
         then FindSST_loop ssts key (mid + 1) right
         else FindSST_loop ssts key left mid)
      else right)"
  by auto
termination by (relation "measure (\<lambda>(s, k, l, r). r - l)") auto

declare FindSST_loop.simps [simp del]

definition FindSST :: "SSTMetaData list \<Rightarrow> bytes \<Rightarrow> nat" where
  "FindSST ssts key = FindSST_loop ssts key 0 (length ssts)"

text \<open>A null pointer to a user key is \<^verbatim>\<open>None\<close>: no bound on this side.\<close>

definition AfterSST :: "bytes option \<Rightarrow> SSTMetaData \<Rightarrow> bool" where
  "AfterSST user_key sst = (case user_key of None \<Rightarrow> False | Some k \<Rightarrow> 0 < ucmp k (sst_large sst))"

definition BeforeSST :: "bytes option \<Rightarrow> SSTMetaData \<Rightarrow> bool" where
  "BeforeSST user_key sst = (case user_key of None \<Rightarrow> False | Some k \<Rightarrow> ucmp k (sst_small sst) < 0)"

fun SomeOverlap_loop :: "bytes option \<Rightarrow> bytes option \<Rightarrow> SSTMetaData list \<Rightarrow> bool" where
  "SomeOverlap_loop smallest largest [] = False"
| "SomeOverlap_loop smallest largest (sst # ssts) =
     (if AfterSST smallest sst \<or> BeforeSST largest sst then SomeOverlap_loop smallest largest ssts
      else True)"

definition IsSomeFileOverlapsRange ::
    "bool \<Rightarrow> SSTMetaData list \<Rightarrow> bytes option \<Rightarrow> bytes option \<Rightarrow> bool" where
  "IsSomeFileOverlapsRange disjoint_sorted_ssts ssts smallest_user_key largest_user_key =
     (if \<not> disjoint_sorted_ssts then SomeOverlap_loop smallest_user_key largest_user_key ssts
      else
        let index = (case smallest_user_key of
                       None \<Rightarrow> 0
                     | Some k \<Rightarrow> FindSST ssts (InternalKey k kMaxSequenceNumber kValueTypeForSeek))
        in if length ssts \<le> index then False
           else \<not> BeforeSST largest_user_key (ssts ! index))"

section \<open>The iterator over the files of a level\<close>

text \<open>The position; the number of files stands for the end.\<close>

definition LevelIter_Valid :: "SSTMetaData list \<Rightarrow> nat \<Rightarrow> bool" where
  "LevelIter_Valid ssts index \<longleftrightarrow> index < length ssts"

definition LevelIter_Seek :: "SSTMetaData list \<Rightarrow> bytes \<Rightarrow> nat" where
  "LevelIter_Seek ssts target = FindSST ssts target"

definition LevelIter_SeekToFirst :: nat where "LevelIter_SeekToFirst = 0"

definition LevelIter_SeekToLast :: "SSTMetaData list \<Rightarrow> nat" where
  "LevelIter_SeekToLast ssts = (if ssts = [] then 0 else length ssts - 1)"

definition LevelIter_Next :: "nat \<Rightarrow> nat" where "LevelIter_Next index = index + 1"

definition LevelIter_Prev :: "SSTMetaData list \<Rightarrow> nat \<Rightarrow> nat" where
  "LevelIter_Prev ssts index = (if index = 0 then length ssts else index - 1)"

definition LevelIter_key :: "SSTMetaData list \<Rightarrow> nat \<Rightarrow> bytes" where
  "LevelIter_key ssts index = largest_key (ssts ! index)"

definition LevelIter_value :: "SSTMetaData list \<Rightarrow> nat \<Rightarrow> bytes" where
  "LevelIter_value ssts index =
     EncodeFixed64 (sst_number (ssts ! index)) @ EncodeFixed64 (sst_size (ssts ! index))"

text \<open>The file the block function of the concatenating iterator opens, or its error.\<close>

definition GetSSTIterator :: "bytes \<Rightarrow> Status + (u64 \<times> u64)" where
  "GetSSTIterator sst_value =
     (if length sst_value \<noteq> 16 then Inl (Corruption ''FileReader invoked with unexpected value'')
      else Inr (DecodeFixed64 sst_value, DecodeFixed64 (drop 8 sst_value)))"

section \<open>Versions\<close>

text \<open>
  \<^verbatim>\<open>v_ssts\<close> has one list per level.  The compaction score, a double in the code,
  is an exact quotient.
\<close>

record Version =
  v_ssts :: "SSTMetaData list list"
  v_sst_to_compact :: "SSTMetaData option"
  v_sst_to_compact_level :: int
  v_compaction_score :: rat
  v_compaction_level :: int

definition Version_new :: "nat \<Rightarrow> Version" where
  "Version_new num_levels =
     \<lparr>v_ssts = replicate num_levels [], v_sst_to_compact = None, v_sst_to_compact_level = - 1,
      v_compaction_score = - 1, v_compaction_level = - 1\<rparr>"

definition Version_SSTNum :: "Version \<Rightarrow> nat \<Rightarrow> nat" where
  "Version_SSTNum v level = length (v_ssts v ! level)"

definition IsOverlapInLevel :: "Version \<Rightarrow> nat \<Rightarrow> bytes option \<Rightarrow> bytes option \<Rightarrow> bool" where
  "IsOverlapInLevel v level smallest largest =
     IsSomeFileOverlapsRange (0 < level) (v_ssts v ! level) smallest largest"

section \<open>Collecting the files of a range\<close>

text \<open>
  The loop of \<^verbatim>\<open>GetOverlapSSTs\<close>: \<open>rest\<close> are the files from position \<^verbatim>\<open>i\<close> on, and
  a restart (\<^verbatim>\<open>i = 0\<close>, cleared result) goes back to \<open>all\<close>.
\<close>

definition outside :: "bytes option \<Rightarrow> bytes option \<Rightarrow> SSTMetaData \<Rightarrow> bool" where
  "outside user_begin user_end sst \<longleftrightarrow>
     (case user_begin of None \<Rightarrow> False | Some b \<Rightarrow> ucmp (sst_large sst) b < 0)
     \<or> (case user_end of None \<Rightarrow> False | Some e \<Rightarrow> 0 < ucmp (sst_small sst) e)"

definition extends_left :: "bytes option \<Rightarrow> SSTMetaData \<Rightarrow> bool" where
  "extends_left user_begin sst \<longleftrightarrow>
     (case user_begin of None \<Rightarrow> False | Some b \<Rightarrow> ucmp (sst_small sst) b < 0)"

definition extends_right :: "bytes option \<Rightarrow> SSTMetaData \<Rightarrow> bool" where
  "extends_right user_end sst \<longleftrightarrow>
     (case user_end of None \<Rightarrow> False | Some e \<Rightarrow> 0 < ucmp (sst_large sst) e)"

definition reach_measure :: "SSTMetaData list \<Rightarrow> bytes option \<Rightarrow> bytes option \<Rightarrow> nat" where
  "reach_measure all b e =
     length (filter (extends_left b) all) + length (filter (extends_right e) all)"

lemma length_filter_strict:
  assumes "x \<in> set xs" "\<not> P x" "Q x" "\<And>y. y \<in> set xs \<Longrightarrow> P y \<Longrightarrow> Q y"
  shows "length (filter P xs) < length (filter Q xs)"
proof -
  have "length (filter P xs) = length (filter P (filter Q xs))"
    using assms(4) by (simp cong: filter_cong) (metis (mono_tags, lifting) filter_cong)
  also have "\<dots> < length (filter Q xs)"
    using assms(1-3) by (intro length_filter_less [of x]) auto
  finally show ?thesis .
qed

lemma reach_left:
  assumes "f \<in> set all" "extends_left b f"
  shows "reach_measure all (Some (sst_small f)) e < reach_measure all b e"
proof -
  have "length (filter (extends_left (Some (sst_small f))) all) < length (filter (extends_left b) all)"
    using assms
    by (intro length_filter_strict [of f])
      (auto simp: extends_left_def bytewise.cmp_refl intro: bytewise.cmp_less_trans split: option.splits)
  then show ?thesis by (simp add: reach_measure_def)
qed

lemma reach_right:
  assumes "f \<in> set all" "extends_right e f"
  shows "reach_measure all b (Some (sst_large f)) < reach_measure all b e"
proof -
  have "length (filter (extends_right (Some (sst_large f))) all) < length (filter (extends_right e) all)"
    using assms
    by (intro length_filter_strict [of f])
      (auto simp: extends_right_def bytewise.cmp_refl bytewise.cmp_swap
        intro: bytewise.cmp_less_trans split: option.splits)
  then show ?thesis by (simp add: reach_measure_def)
qed

function GetOverlapSSTs_loop ::
    "bool \<Rightarrow> SSTMetaData list \<Rightarrow> nat \<Rightarrow> bytes option \<Rightarrow> bytes option \<Rightarrow> SSTMetaData list \<Rightarrow> SSTMetaData list"
where
  "GetOverlapSSTs_loop level0 all i user_begin user_end ssts =
     (if i < length all then
        (let sst = all ! i in
         if outside user_begin user_end sst
         then GetOverlapSSTs_loop level0 all (i + 1) user_begin user_end ssts
         else if level0 \<and> extends_left user_begin sst
         then GetOverlapSSTs_loop level0 all 0 (Some (sst_small sst)) user_end []
         else if level0 \<and> extends_right user_end sst
         then GetOverlapSSTs_loop level0 all 0 user_begin (Some (sst_large sst)) []
         else GetOverlapSSTs_loop level0 all (i + 1) user_begin user_end (ssts @ [sst]))
      else ssts)"
  by auto
termination
  by (relation "measures [\<lambda>(l, all, i, b, e, ssts). reach_measure all b e,
        \<lambda>(l, all, i, b, e, ssts). length all - i]")
    (auto simp: reach_left reach_right)

declare GetOverlapSSTs_loop.simps [simp del]

definition GetOverlapSSTs ::
    "Version \<Rightarrow> nat \<Rightarrow> bytes option \<Rightarrow> bytes option \<Rightarrow> SSTMetaData list" where
  "GetOverlapSSTs v level begin_key end_key =
     GetOverlapSSTs_loop (level = 0) (v_ssts v ! level) 0
       (map_option ExtractUserKey begin_key) (map_option ExtractUserKey end_key) []"

function PickLevel_loop ::
    "nat \<Rightarrow> nat \<Rightarrow> nat \<Rightarrow> Version \<Rightarrow> bytes \<Rightarrow> bytes \<Rightarrow> nat \<Rightarrow> nat" where
  "PickLevel_loop max_mem_compact_level num_levels max_file_size v smallest largest level =
     (if level < max_mem_compact_level then
        if IsOverlapInLevel v (level + 1) (Some smallest) (Some largest) then level
        else if level + 2 < num_levels
          \<and> TotalSSTSize (GetOverlapSSTs v (level + 2)
                (Some (InternalKey smallest kMaxSequenceNumber kValueTypeForSeek))
                (Some (InternalKey largest 0 kTypeDeletion)))
             > MaxGrandParentOverlapBytes max_file_size
        then level
        else PickLevel_loop max_mem_compact_level num_levels max_file_size v smallest largest (level + 1)
      else level)"
  by auto
termination by (relation "measure (\<lambda>(m, n, s, v, a, b, l). m - l)") auto

declare PickLevel_loop.simps [simp del]

definition PickLevelForMemTableCompactionOutput ::
    "nat \<Rightarrow> nat \<Rightarrow> nat \<Rightarrow> Version \<Rightarrow> bytes \<Rightarrow> bytes \<Rightarrow> nat" where
  "PickLevelForMemTableCompactionOutput max_mem_compact_level num_levels max_file_size v smallest largest =
     (if \<not> IsOverlapInLevel v 0 (Some smallest) (Some largest)
      then PickLevel_loop max_mem_compact_level num_levels max_file_size v smallest largest 0 else 0)"

section \<open>Binary search is linear search\<close>

text \<open>
  \<open>level_sorted\<close>: the files of a level above 0, each not empty and before the
  next one.
\<close>

definition file_ok :: "SSTMetaData \<Rightarrow> bool" where
  "file_ok f \<longleftrightarrow> icmp (smallest_key f) (largest_key f) \<le> 0"

definition level_sorted :: "SSTMetaData list \<Rightarrow> bool" where
  "level_sorted ssts \<longleftrightarrow> sorted_wrt (\<lambda>f g. icmp (largest_key f) (smallest_key g) < 0) ssts
     \<and> (\<forall>f\<in>set ssts. file_ok f)"

lemma level_sorted_largest:
  assumes "level_sorted ssts" "i < j" "j < length ssts"
  shows "icmp (largest_key (ssts ! i)) (largest_key (ssts ! j)) < 0"
proof -
  have "icmp (largest_key (ssts ! i)) (smallest_key (ssts ! j)) < 0"
    using assms by (auto simp: level_sorted_def sorted_wrt_iff_nth_less)
  moreover have "icmp (smallest_key (ssts ! j)) (largest_key (ssts ! j)) \<le> 0"
    using assms by (auto simp: level_sorted_def file_ok_def)
  ultimately show ?thesis by (rule internal.cmp_less_le_trans)
qed

lemma FindSST_loop_split:
  assumes "level_sorted ssts" "left \<le> right" "right \<le> length ssts"
    and "\<forall>i<left. icmp (largest_key (ssts ! i)) key < 0"
    and "\<forall>i. right \<le> i \<and> i < length ssts \<longrightarrow> \<not> icmp (largest_key (ssts ! i)) key < 0"
  shows "FindSST_loop ssts key left right \<le> length ssts
    \<and> (\<forall>i<FindSST_loop ssts key left right. icmp (largest_key (ssts ! i)) key < 0)
    \<and> (\<forall>i. FindSST_loop ssts key left right \<le> i \<and> i < length ssts \<longrightarrow>
          \<not> icmp (largest_key (ssts ! i)) key < 0)"
  using assms
proof (induction ssts key left right rule: FindSST_loop.induct)
  case (1 ssts key left right)
  show ?case
  proof (cases "left < right")
    case False
    then have "FindSST_loop ssts key left right = right"
      by (subst FindSST_loop.simps) simp
    then show ?thesis using "1.prems"(2-5) False by auto
  next
    case True
    let ?mid = "(left + right) div 2"
    have mid: "left \<le> ?mid" "?mid < right" using True by auto
    show ?thesis
    proof (cases "icmp (largest_key (ssts ! ?mid)) key < 0")
      case less: True
      have "icmp (largest_key (ssts ! i)) key < 0" if "i < ?mid + 1" for i
      proof (cases "i = ?mid")
        case False
        then have "icmp (largest_key (ssts ! i)) (largest_key (ssts ! ?mid)) < 0"
          using that mid "1.prems"(1,3) by (intro level_sorted_largest) auto
        then show ?thesis using less by (rule internal.cmp_less_trans)
      qed (use less in simp)
      then have below: "\<forall>i<?mid + 1. icmp (largest_key (ssts ! i)) key < 0" by blast
      have eq: "FindSST_loop ssts key left right = FindSST_loop ssts key (?mid + 1) right"
        by (subst FindSST_loop.simps) (simp only: True less Let_def if_True)
      have le: "?mid + 1 \<le> right" using mid by simp
      show ?thesis
        unfolding eq
        by (rule "1.IH"(1) [OF True refl less "1.prems"(1) le "1.prems"(3) below "1.prems"(5)])
    next
      case ge: False
      have "\<not> icmp (largest_key (ssts ! i)) key < 0" if "?mid \<le> i" "i < length ssts" for i
      proof (cases "i = ?mid")
        case False
        then have "icmp (largest_key (ssts ! ?mid)) (largest_key (ssts ! i)) < 0"
          using that mid "1.prems"(1) by (intro level_sorted_largest) auto
        then show ?thesis using ge internal.cmp_less_trans by blast
      qed (use ge in simp)
      then have above: "\<forall>i. ?mid \<le> i \<and> i < length ssts \<longrightarrow> \<not> icmp (largest_key (ssts ! i)) key < 0"
        by blast
      have eq: "FindSST_loop ssts key left right = FindSST_loop ssts key left ?mid"
        by (subst FindSST_loop.simps) (simp only: True ge Let_def if_True if_False)
      have le: "?mid \<le> length ssts" using mid "1.prems"(3) by simp
      show ?thesis
        unfolding eq
        by (rule "1.IH"(2) [OF True refl ge "1.prems"(1) mid(1) le "1.prems"(4) above])
    qed
  qed
qed

lemma FindSST_split:
  assumes "level_sorted ssts"
  shows "FindSST ssts key \<le> length ssts"
    "i < FindSST ssts key \<Longrightarrow> icmp (largest_key (ssts ! i)) key < 0"
    "FindSST ssts key \<le> i \<Longrightarrow> i < length ssts \<Longrightarrow> \<not> icmp (largest_key (ssts ! i)) key < 0"
  using FindSST_loop_split [OF assms, where left = 0 and right = "length ssts" and key = key]
  by (simp_all add: FindSST_def)

lemma FindSST_linear:
  assumes "level_sorted ssts"
  shows "FindSST ssts key = length (takeWhile (\<lambda>f. icmp (largest_key f) key < 0) ssts)"
proof -
  let ?P = "\<lambda>f. icmp (largest_key f) key < 0" and ?n = "FindSST ssts key"
  note s = FindSST_split [OF assms, where key = key]
  have "takeWhile ?P ssts = take ?n ssts"
  proof (cases "?n < length ssts")
    case True
    then show ?thesis using s(2,3) by (intro takeWhile_eq_take_P_nth) auto
  next
    case False
    then have n: "?n = length ssts" using s(1) by simp
    have "takeWhile ?P ssts = ssts"
      using s(2) n by (auto simp: takeWhile_eq_all_conv in_set_conv_nth)
    then show ?thesis using n by simp
  qed
  then show ?thesis using s(1) by simp
qed

section \<open>Overlap by binary search\<close>

definition key_valid :: "bytes \<Rightarrow> bool" where
  "key_valid k \<longleftrightarrow> 8 \<le> length k \<and> ExtractTag k \<le> PackSequenceAndType kMaxSequenceNumber kValueTypeForSeek"

lemma key_valid_InternalKey: "s \<le> kMaxSequenceNumber \<Longrightarrow> key_valid (InternalKey u s t)"
  using Pack_le_seek [of s kMaxSequenceNumber t] by (simp add: key_valid_def)

lemma icmp_seek_less:
  assumes "key_valid k"
  shows "icmp k (InternalKey u kMaxSequenceNumber kValueTypeForSeek) < 0 \<longleftrightarrow> ucmp (ExtractUserKey k) u < 0"
  using assms by (auto simp: InternalKeyComparator_Compare_eq Let_def key_valid_def)

definition overlaps :: "bytes option \<Rightarrow> bytes option \<Rightarrow> SSTMetaData \<Rightarrow> bool" where
  "overlaps a b f \<longleftrightarrow> \<not> AfterSST a f \<and> \<not> BeforeSST b f"

lemma SomeOverlap_loop_iff: "SomeOverlap_loop a b ssts \<longleftrightarrow> (\<exists>f\<in>set ssts. overlaps a b f)"
  by (induction ssts) (auto simp: overlaps_def)

lemma level_sorted_user:
  assumes "level_sorted ssts" "i < j" "j < length ssts"
  shows "ucmp (sst_large (ssts ! i)) (sst_small (ssts ! j)) \<le> 0"
proof -
  have "icmp (largest_key (ssts ! i)) (smallest_key (ssts ! j)) < 0"
    using assms by (auto simp: level_sorted_def sorted_wrt_iff_nth_less)
  then show ?thesis using icmp_user_le unfolding sst_large_def sst_small_def by force
qed

lemma file_user_le: "file_ok f \<Longrightarrow> ucmp (sst_small f) (sst_large f) \<le> 0"
  using icmp_user_le unfolding file_ok_def sst_large_def sst_small_def by blast

lemma level_sorted_small_mono:
  assumes "level_sorted ssts" "i \<le> j" "j < length ssts"
  shows "ucmp (sst_small (ssts ! i)) (sst_small (ssts ! j)) \<le> 0"
proof (cases "i = j")
  case True
  then show ?thesis by simp
next
  case False
  then have "ucmp (sst_large (ssts ! i)) (sst_small (ssts ! j)) \<le> 0"
    using assms by (intro level_sorted_user) auto
  moreover have "ucmp (sst_small (ssts ! i)) (sst_large (ssts ! i)) \<le> 0"
    using assms by (intro file_user_le) (auto simp: level_sorted_def)
  ultimately show ?thesis using bytewise.cmp_le_trans by blast
qed

lemma overlap_index:
  assumes sorted: "level_sorted ssts"
    and before: "\<And>i. i < n \<Longrightarrow> AfterSST a (ssts ! i)"
    and from_on: "\<And>i. n \<le> i \<Longrightarrow> i < length ssts \<Longrightarrow> \<not> AfterSST a (ssts ! i)"
  shows "(\<exists>f\<in>set ssts. overlaps a b f) \<longleftrightarrow> n < length ssts \<and> \<not> BeforeSST b (ssts ! n)"
proof
  assume "\<exists>f\<in>set ssts. overlaps a b f"
  then obtain i where i: "i < length ssts" "\<not> AfterSST a (ssts ! i)" "\<not> BeforeSST b (ssts ! i)"
    by (auto simp: overlaps_def in_set_conv_nth)
  then have n: "n \<le> i" using before not_le by blast
  have "\<not> BeforeSST b (ssts ! n)"
    using i(3) level_sorted_small_mono [OF sorted n i(1)] bytewise.cmp_less_le_trans
    by (auto simp: BeforeSST_def split: option.splits)
  then show "n < length ssts \<and> \<not> BeforeSST b (ssts ! n)" using n i(1) by simp
next
  assume "n < length ssts \<and> \<not> BeforeSST b (ssts ! n)"
  then show "\<exists>f\<in>set ssts. overlaps a b f"
    using from_on [of n] by (auto simp: overlaps_def intro!: bexI [of _ "ssts ! n"])
qed

lemma IsSomeFileOverlapsRange_iff:
  assumes "level_sorted ssts" "\<forall>f\<in>set ssts. key_valid (largest_key f)"
  shows "IsSomeFileOverlapsRange True ssts a b \<longleftrightarrow> (\<exists>f\<in>set ssts. overlaps a b f)"
proof (cases a)
  case None
  then show ?thesis
    using overlap_index [OF assms(1), of 0 a b]
    by (auto simp: IsSomeFileOverlapsRange_def AfterSST_def)
next
  case (Some k)
  let ?n = "FindSST ssts (InternalKey k kMaxSequenceNumber kValueTypeForSeek)"
  note s = FindSST_split [OF assms(1), where key = "InternalKey k kMaxSequenceNumber kValueTypeForSeek"]
  have after: "AfterSST a f \<longleftrightarrow> icmp (largest_key f) (InternalKey k kMaxSequenceNumber kValueTypeForSeek) < 0"
    if "f \<in> set ssts" for f
    using assms(2) that Some by (simp add: icmp_seek_less AfterSST_def sst_large_def bytewise.cmp_swap)
  have "(\<exists>f\<in>set ssts. overlaps a b f) \<longleftrightarrow> ?n < length ssts \<and> \<not> BeforeSST b (ssts ! ?n)"
    using s after by (intro overlap_index [OF assms(1)]) auto
  then show ?thesis using Some by (auto simp: IsSomeFileOverlapsRange_def)
qed

text \<open>
  C27: Searching a sorted level by halving finds what a scan finds.  On a level
  of files in order, \<^verbatim>\<open>FindSST\<close> returns the number of leading files that end
  before the key, and the overlap test by binary search answers exactly like the
  scan the code uses where files may overlap.
\<close>

theorem level_search_equiv:
  assumes "level_sorted ssts" "\<forall>f\<in>set ssts. key_valid (largest_key f)"
  shows "FindSST ssts key = length (takeWhile (\<lambda>f. icmp (largest_key f) key < 0) ssts)
    \<and> IsSomeFileOverlapsRange True ssts a b = IsSomeFileOverlapsRange False ssts a b"
  using FindSST_linear [OF assms(1)] IsSomeFileOverlapsRange_iff [OF assms]
  by (simp add: IsSomeFileOverlapsRange_def [of False] SomeOverlap_loop_iff)

definition demo_level :: "SSTMetaData list" where
  "demo_level =
     [SSTMetaData_new 4 100 (InternalKey [1] 9 kTypeValue) (InternalKey [3] 2 kTypeValue),
      SSTMetaData_new 5 200 (InternalKey [4] 8 kTypeValue) (InternalKey [6] 1 kTypeDeletion),
      SSTMetaData_new 6 300 (InternalKey [6, 1] 3 kTypeValue) (InternalKey [8] 7 kTypeValue)]"

lemma demo_level_ok: "level_sorted demo_level" "\<forall>f\<in>set demo_level. key_valid (largest_key f)"
proof -
  have max: "(7::u64) \<le> kMaxSequenceNumber" "(1::u64) \<le> kMaxSequenceNumber" "(2::u64) \<le> kMaxSequenceNumber"
    by (simp_all add: kMaxSequenceNumber_def)
  show "level_sorted demo_level"
    by (simp add: demo_level_def level_sorted_def file_ok_def SSTMetaData_new_def
        InternalKeyComparator_Compare_eq Let_def)
  show "\<forall>f\<in>set demo_level. key_valid (largest_key f)"
    using max by (simp add: demo_level_def SSTMetaData_new_def key_valid_InternalKey)
qed

lemma level_search_equiv_witness:
  "FindSST demo_level (InternalKey [5] 4 kTypeValue) =
     length (takeWhile (\<lambda>f. icmp (largest_key f) (InternalKey [5] 4 kTypeValue) < 0) demo_level)
   \<and> IsSomeFileOverlapsRange True demo_level (Some [3, 9]) (Some [3, 255])
     = IsSomeFileOverlapsRange False demo_level (Some [3, 9]) (Some [3, 255])"
  using level_search_equiv [OF demo_level_ok] by blast

section \<open>Collecting the files of a range: correctness\<close>

definition range_le :: "bytes option \<Rightarrow> bytes option \<Rightarrow> bytes option \<Rightarrow> bytes option \<Rightarrow> bool" where
  "range_le b e b' e' \<longleftrightarrow>
     (case (b, b') of (Some x, Some y) \<Rightarrow> ucmp y x \<le> 0 | (None, None) \<Rightarrow> True | _ \<Rightarrow> False)
     \<and> (case (e, e') of (Some x, Some y) \<Rightarrow> ucmp x y \<le> 0 | (None, None) \<Rightarrow> True | _ \<Rightarrow> False)"

lemma range_le_refl [simp]: "range_le b e b e"
  by (auto simp: range_le_def split: option.splits)

lemma range_le_trans: "range_le b e b1 e1 \<Longrightarrow> range_le b1 e1 b2 e2 \<Longrightarrow> range_le b e b2 e2"
  unfolding range_le_def using bytewise.cmp_le_trans by (auto split: option.splits)

lemma range_le_left: "extends_left b f \<Longrightarrow> range_le b e (Some (sst_small f)) e"
  by (auto simp: extends_left_def range_le_def split: option.splits)

lemma range_le_right: "extends_right e f \<Longrightarrow> range_le b e b (Some (sst_large f))"
  by (auto simp: extends_right_def range_le_def bytewise.cmp_swap split: option.splits)

definition collected :: "bool \<Rightarrow> SSTMetaData list \<Rightarrow> nat \<Rightarrow> bytes option \<Rightarrow> bytes option \<Rightarrow> SSTMetaData list" where
  "collected level0 all i b e = filter (\<lambda>f. \<not> outside b e f) (take i all)"

lemma GetOverlapSSTs_loop_result:
  assumes "i \<le> length all" "ssts = collected level0 all i b e"
    and "level0 \<longrightarrow> (\<forall>f\<in>set ssts. \<not> extends_left b f \<and> \<not> extends_right e f)"
  shows "\<exists>b' e'. range_le b e b' e' \<and> (\<not> level0 \<longrightarrow> b' = b \<and> e' = e)
    \<and> GetOverlapSSTs_loop level0 all i b e ssts = filter (\<lambda>f. \<not> outside b' e' f) all
    \<and> (level0 \<longrightarrow> (\<forall>f\<in>set (GetOverlapSSTs_loop level0 all i b e ssts).
          \<not> extends_left b' f \<and> \<not> extends_right e' f))"
  using assms
proof (induction level0 all i b e ssts rule: GetOverlapSSTs_loop.induct)
  case (1 level0 all i b e ssts)
  let ?f = "all ! i"
  let ?goal = "\<lambda>i b0 e0 ssts. \<exists>b' e'. range_le b e b' e' \<and> (\<not> level0 \<longrightarrow> b' = b \<and> e' = e)
    \<and> GetOverlapSSTs_loop level0 all i b0 e0 ssts = filter (\<lambda>f. \<not> outside b' e' f) all
    \<and> (level0 \<longrightarrow> (\<forall>f\<in>set (GetOverlapSSTs_loop level0 all i b0 e0 ssts).
          \<not> extends_left b' f \<and> \<not> extends_right e' f))"
  show ?case
  proof (cases "i < length all")
    case False
    then have eq: "GetOverlapSSTs_loop level0 all i b e ssts = ssts" and i: "i = length all"
      using "1.prems"(1) by (simp_all add: GetOverlapSSTs_loop.simps)
    have "ssts = filter (\<lambda>f. \<not> outside b e f) all" using "1.prems"(2) i by (simp add: collected_def)
    then show ?thesis using "1.prems"(3) range_le_refl unfolding eq by blast
  next
    case i: True
    have tk: "take (Suc i) all = take i all @ [?f]" using i by (simp add: take_Suc_conv_app_nth)
    consider (out) "outside b e ?f" | (left) "\<not> outside b e ?f" "level0" "extends_left b ?f"
      | (right) "\<not> outside b e ?f" "level0" "\<not> extends_left b ?f" "extends_right e ?f"
      | (keep) "\<not> outside b e ?f" "\<not> (level0 \<and> extends_left b ?f)" "\<not> (level0 \<and> extends_right e ?f)"
      by blast
    then show ?thesis
    proof cases
      case out
      have eq: "GetOverlapSSTs_loop level0 all i b e ssts = GetOverlapSSTs_loop level0 all (i + 1) b e ssts"
        using i out by (subst GetOverlapSSTs_loop.simps) (simp add: Let_def)
      show ?thesis
        unfolding eq using i out "1.prems"(2,3)
        by (intro "1.IH"(1) [OF i refl out]) (auto simp: collected_def tk)
    next
      case left
      have eq: "GetOverlapSSTs_loop level0 all i b e ssts =
          GetOverlapSSTs_loop level0 all 0 (Some (sst_small ?f)) e []"
        using i left by (subst GetOverlapSSTs_loop.simps) (simp add: Let_def)
      from "1.IH"(2) [OF i refl left(1) conjI [OF left(2,3)]] show ?thesis
        unfolding eq using left(2) range_le_trans [OF range_le_left [OF left(3)]]
        by (fastforce simp: collected_def)
    next
      case right
      have eq: "GetOverlapSSTs_loop level0 all i b e ssts =
          GetOverlapSSTs_loop level0 all 0 b (Some (sst_large ?f)) []"
        using i right by (subst GetOverlapSSTs_loop.simps) (simp add: Let_def)
      have nl: "\<not> (level0 \<and> extends_left b ?f)" using right by simp
      from "1.IH"(3) [OF i refl right(1) nl conjI [OF right(2,4)]] show ?thesis
        unfolding eq using right(2) range_le_trans [OF range_le_right [OF right(4)]]
        by (fastforce simp: collected_def)
    next
      case keep
      have eq: "GetOverlapSSTs_loop level0 all i b e ssts =
          GetOverlapSSTs_loop level0 all (i + 1) b e (ssts @ [?f])"
        by (subst GetOverlapSSTs_loop.simps) (simp only: i keep Let_def if_True if_False)
      show ?thesis
        unfolding eq using i keep "1.prems"(2,3)
        by (intro "1.IH"(4) [OF i refl keep]) (auto simp: collected_def tk)
    qed
  qed
qed

lemma GetOverlapSSTs_result:
  assumes "r = GetOverlapSSTs v level bk ek"
  shows "(0 < level \<longrightarrow> r = filter (\<lambda>f. \<not> outside (map_option ExtractUserKey bk) (map_option ExtractUserKey ek) f)
            (v_ssts v ! level))
    \<and> set r \<subseteq> set (v_ssts v ! level)
    \<and> (\<forall>f\<in>set (v_ssts v ! level).
          \<not> outside (map_option ExtractUserKey bk) (map_option ExtractUserKey ek) f \<longrightarrow> f \<in> set r)
    \<and> (level = 0 \<longrightarrow> (\<forall>f\<in>set (v_ssts v ! 0) - set r. \<forall>g\<in>set r.
          ucmp (sst_large f) (sst_small g) < 0 \<or> ucmp (sst_large g) (sst_small f) < 0))"
proof -
  let ?b = "map_option ExtractUserKey bk" and ?e = "map_option ExtractUserKey ek"
  let ?all = "v_ssts v ! level"
  obtain b' e' where r: "range_le ?b ?e b' e'" "level \<noteq> 0 \<longrightarrow> b' = ?b \<and> e' = ?e"
    "r = filter (\<lambda>f. \<not> outside b' e' f) ?all"
    "level = 0 \<longrightarrow> (\<forall>f\<in>set r. \<not> extends_left b' f \<and> \<not> extends_right e' f)"
    using GetOverlapSSTs_loop_result [of 0 ?all "[]" "level = 0" ?b ?e] assms
    by (auto simp: collected_def GetOverlapSSTs_def)
  have wider: "\<not> outside ?b ?e f \<Longrightarrow> \<not> outside b' e' f" for f
    using r(1) bytewise.cmp_less_le_trans bytewise.cmp_le_less_trans
    by (fastforce simp: outside_def range_le_def bytewise.cmp_swap split: option.splits)
  have apart: "ucmp (sst_large f) (sst_small g) < 0 \<or> ucmp (sst_large g) (sst_small f) < 0"
    if "outside b' e' f" "g \<in> set r" "level = 0" for f g
  proof -
    have g: "\<not> extends_left b' g" "\<not> extends_right e' g" using r(4) that by auto
    note out = that(1)
    consider (l) x where "b' = Some x" "ucmp (sst_large f) x < 0"
      | (r) y where "e' = Some y" "ucmp y (sst_small f) < 0"
      using out by (auto simp: outside_def bytewise.cmp_swap split: option.splits)
    then show ?thesis
    proof cases
      case l
      then have "ucmp x (sst_small g) \<le> 0" using g(1) by (simp add: extends_left_def bytewise.cmp_le_iff)
      then show ?thesis using l(2) bytewise.cmp_less_le_trans by blast
    next
      case r
      then have "ucmp (sst_large g) y \<le> 0" using g(2) by (simp add: extends_right_def)
      then show ?thesis using r(2) bytewise.cmp_le_less_trans by blast
    qed
  qed
  show ?thesis using r(2,3) wider apart by auto
qed

text \<open>
  C26: \<^verbatim>\<open>GetOverlapSSTs\<close> always ends.  Above level 0 it returns exactly the files
  that meet the range, in order.  On level 0, where files overlap, it returns
  the files that meet some range containing the asked one, and no file it leaves
  out meets a file it returns.
\<close>

theorem GetOverlapSSTs_closed:
  assumes "r = GetOverlapSSTs v level bk ek"
  shows "(0 < level \<longrightarrow> r = filter (\<lambda>f. \<not> outside (map_option ExtractUserKey bk) (map_option ExtractUserKey ek) f)
            (v_ssts v ! level))
    \<and> set r \<subseteq> set (v_ssts v ! level)
    \<and> (\<forall>f\<in>set (v_ssts v ! level).
          \<not> outside (map_option ExtractUserKey bk) (map_option ExtractUserKey ek) f \<longrightarrow> f \<in> set r)
    \<and> (level = 0 \<longrightarrow> (\<forall>f\<in>set (v_ssts v ! 0) - set r. \<forall>g\<in>set r.
          ucmp (sst_large f) (sst_small g) < 0 \<or> ucmp (sst_large g) (sst_small f) < 0))"
  using assms by (rule GetOverlapSSTs_result)

lemma GetOverlapSSTs_closed_witness:
  "GetOverlapSSTs ((Version_new 7)\<lparr>v_ssts := [[], demo_level]\<rparr>) 1 (Some (InternalKey [3] 1 kTypeValue))
     (Some (InternalKey [5] 1 kTypeValue)) = take 2 demo_level"
  using GetOverlapSSTs_closed [OF refl, where v = "(Version_new 7)\<lparr>v_ssts := [[], demo_level]\<rparr>"
      and level = 1 and bk = "Some (InternalKey [3] 1 kTypeValue)" and ek = "Some (InternalKey [5] 1 kTypeValue)"]
  by (simp add: demo_level_def outside_def SSTMetaData_new_def sst_large_def sst_small_def)

section \<open>Where a flushed memory table goes\<close>

lemma PickLevel_loop_result:
  assumes "PickLevel_loop max_level num_levels max_size v s l level = out"
  shows "level \<le> out \<and> (level \<le> max_level \<longrightarrow> out \<le> max_level)
    \<and> (\<forall>k. level < k \<and> k \<le> out \<longrightarrow> \<not> IsOverlapInLevel v k (Some s) (Some l))"
  using assms
proof (induction max_level num_levels max_size v s l level rule: PickLevel_loop.induct)
  case (1 max_level num_levels max_size v s l level)
  define A where "A \<longleftrightarrow> IsOverlapInLevel v (level + 1) (Some s) (Some l)"
  define D where "D \<longleftrightarrow> level + 2 < num_levels \<and> TotalSSTSize (GetOverlapSSTs v (level + 2)
      (Some (InternalKey s kMaxSequenceNumber kValueTypeForSeek)) (Some (InternalKey l 0 kTypeDeletion)))
    > MaxGrandParentOverlapBytes max_size"
  have eq: "PickLevel_loop max_level num_levels max_size v s l level =
      (if level < max_level then if A then level else if D then level
         else PickLevel_loop max_level num_levels max_size v s l (level + 1) else level)"
    unfolding A_def D_def by (rule PickLevel_loop.simps)
  show ?case
  proof (cases "level < max_level \<and> \<not> A \<and> \<not> D")
    case False
    then have "out = level" using "1.prems" unfolding eq by (simp split: if_splits)
    then show ?thesis by auto
  next
    case True
    then have "PickLevel_loop max_level num_levels max_size v s l (level + 1) = out"
      using "1.prems" unfolding eq by simp
    with "1.IH" True have ih: "level + 1 \<le> out" "out \<le> max_level"
      "\<And>k. level + 1 < k \<Longrightarrow> k \<le> out \<Longrightarrow> \<not> IsOverlapInLevel v k (Some s) (Some l)"
      unfolding A_def D_def by auto
    have "\<not> IsOverlapInLevel v k (Some s) (Some l)" if "level < k" "k \<le> out" for k
      using ih(3) [of k] True that by (cases "k = level + 1") (auto simp: A_def)
    then show ?thesis using ih(1,2) by simp
  qed
qed



end
