(* ===== verification/Version_Get.thy ===== *)
theory Version_Get
  imports Version_Files
begin

text \<open>
  Lookups in a version: \<^verbatim>\<open>CallForEachOverlapSST\<close>, \<^verbatim>\<open>Version::Get\<close> and the
  seek statistics of \<^verbatim>\<open>src/db/version_set.cc\<close>.  The table cache is the
  parameter \<^verbatim>\<open>cache_get\<close>: for a file number, a file size and an internal key it
  gives the status and the entry the cache hands to \<^verbatim>\<open>SaveValue\<close>, at most one.
\<close>

section \<open>The saver\<close>

datatype SaverState = SaverNotFound | SaverFound | SaverDeleted | SaverCorrupt

record Saver =
  sv_state :: SaverState
  sv_user_key :: bytes
  sv_value :: "bytes option"

definition SaveValue :: "Saver \<Rightarrow> bytes \<Rightarrow> bytes \<Rightarrow> Saver" where
  "SaveValue s ikey v =
     (case ParseInternalKey ikey of
        None \<Rightarrow> s\<lparr>sv_state := SaverCorrupt\<rparr>
      | Some parsed \<Rightarrow>
          if ucmp (pk_user_key parsed) (sv_user_key s) = 0 then
            (if pk_type parsed = kTypeValue then s\<lparr>sv_state := SaverFound, sv_value := Some v\<rparr>
             else s\<lparr>sv_state := SaverDeleted\<rparr>)
          else s)"

section \<open>Walking the files a key may be in\<close>

definition NewestFirst :: "SSTMetaData list \<Rightarrow> SSTMetaData list" where
  "NewestFirst ssts = rev (sort_key sst_number ssts)"

definition level0_files :: "Version \<Rightarrow> bytes \<Rightarrow> SSTMetaData list" where
  "level0_files v user_key =
     filter (\<lambda>sst. 0 \<le> ucmp user_key (sst_small sst) \<and> ucmp user_key (sst_large sst) \<le> 0) (v_ssts v ! 0)"

text \<open>The callback returns whether to go on, and its state.\<close>

fun CallLevel0_loop ::
    "('s \<Rightarrow> nat \<Rightarrow> SSTMetaData \<Rightarrow> bool \<times> 's) \<Rightarrow> SSTMetaData list \<Rightarrow> 's \<Rightarrow> bool \<times> 's" where
  "CallLevel0_loop func [] st = (True, st)"
| "CallLevel0_loop func (sst # tmp) st =
     (case func st 0 sst of
        (False, st') \<Rightarrow> (False, st')
      | (True, st') \<Rightarrow> CallLevel0_loop func tmp st')"

fun CallLevels_loop ::
    "('s \<Rightarrow> nat \<Rightarrow> SSTMetaData \<Rightarrow> bool \<times> 's) \<Rightarrow> Version \<Rightarrow> bytes \<Rightarrow> bytes \<Rightarrow> nat list \<Rightarrow> 's \<Rightarrow> 's" where
  "CallLevels_loop func v user_key internal_key [] st = st"
| "CallLevels_loop func v user_key internal_key (level # levels) st =
     (let ssts = v_ssts v ! level;
          index = FindSST ssts internal_key
      in if ssts = [] then CallLevels_loop func v user_key internal_key levels st
         else if index < length ssts \<and> 0 \<le> ucmp user_key (sst_small (ssts ! index)) then
           (case func st level (ssts ! index) of
              (False, st') \<Rightarrow> st'
            | (True, st') \<Rightarrow> CallLevels_loop func v user_key internal_key levels st')
         else CallLevels_loop func v user_key internal_key levels st)"

definition CallForEachOverlapSST ::
    "Version \<Rightarrow> bytes \<Rightarrow> bytes \<Rightarrow> ('s \<Rightarrow> nat \<Rightarrow> SSTMetaData \<Rightarrow> bool \<times> 's) \<Rightarrow> 's \<Rightarrow> 's" where
  "CallForEachOverlapSST v user_key internal_key func st =
     (case CallLevel0_loop func (NewestFirst (level0_files v user_key)) st of
        (False, st') \<Rightarrow> st'
      | (True, st') \<Rightarrow> CallLevels_loop func v user_key internal_key [1..<length (v_ssts v)] st')"

section \<open>Get\<close>

record GetStats =
  seek_file :: "SSTMetaData option"
  seek_file_level :: int

record GetState =
  gs_saver :: Saver
  gs_stats :: GetStats
  gs_last_file_read :: "SSTMetaData option"
  gs_last_file_read_level :: int
  gs_s :: Status
  gs_found :: bool

definition Get_Match ::
    "(u64 \<Rightarrow> u64 \<Rightarrow> bytes \<Rightarrow> Status \<times> (bytes \<times> bytes) option) \<Rightarrow> bytes \<Rightarrow> GetState \<Rightarrow> nat \<Rightarrow> SSTMetaData \<Rightarrow> bool \<times> GetState"
where
  "Get_Match cache_get ikey st level sst =
     (let st1 = (if seek_file (gs_stats st) = None \<and> gs_last_file_read st \<noteq> None
                 then st\<lparr>gs_stats := \<lparr>seek_file = gs_last_file_read st,
                                      seek_file_level = gs_last_file_read_level st\<rparr>\<rparr>
                 else st);
          st2 = st1\<lparr>gs_last_file_read := Some sst, gs_last_file_read_level := int level\<rparr>;
          (s, entry) = cache_get (sst_number sst) (sst_size sst) ikey;
          saver = (case entry of None \<Rightarrow> gs_saver st2 | Some (k, v) \<Rightarrow> SaveValue (gs_saver st2) k v);
          st3 = st2\<lparr>gs_s := s, gs_saver := saver\<rparr>
      in if \<not> ok s then (False, st3\<lparr>gs_found := True\<rparr>)
         else case sv_state saver of
                SaverNotFound \<Rightarrow> (True, st3)
              | SaverFound \<Rightarrow> (False, st3\<lparr>gs_found := True\<rparr>)
              | SaverDeleted \<Rightarrow> (False, st3)
              | SaverCorrupt \<Rightarrow>
                  (False, st3\<lparr>gs_s := Status_new kCorruption (text_bytes ''corrupted key for '') (sv_user_key saver),
                              gs_found := True\<rparr>))"

definition Version_Get ::
    "(u64 \<Rightarrow> u64 \<Rightarrow> bytes \<Rightarrow> Status \<times> (bytes \<times> bytes) option) \<Rightarrow> Version \<Rightarrow> LookupKey \<Rightarrow> Status \<times> bytes option \<times> GetStats"
where
  "Version_Get cache_get v key =
     (let ikey = LookupKey_internal_key key;
          st0 = \<lparr>gs_saver = \<lparr>sv_state = SaverNotFound, sv_user_key = LookupKey_user_key key, sv_value = None\<rparr>,
                 gs_stats = \<lparr>seek_file = None, seek_file_level = - 1\<rparr>,
                 gs_last_file_read = None, gs_last_file_read_level = - 1,
                 gs_s = Status_OK, gs_found = False\<rparr>;
          st = CallForEachOverlapSST v (LookupKey_user_key key) ikey (Get_Match cache_get ikey) st0
      in (if gs_found st then gs_s st else Status_new kNotFound [] [],
          sv_value (gs_saver st), gs_stats st))"

section \<open>Seek statistics\<close>

text \<open>
  \<^verbatim>\<open>allowed_seeks\<close> belongs to the metadata the versions share and may have
  changed since the lookup: \<open>current_file\<close> is the metadata as the version has it
  now, and the update is made wherever the version holds the file.  The result
  says whether a compaction became due.
\<close>

definition current_file :: "SSTMetaData \<Rightarrow> Version \<Rightarrow> SSTMetaData" where
  "current_file sst v =
     (case find (\<lambda>f. sst_number f = sst_number sst) (concat (v_ssts v)) of None \<Rightarrow> sst | Some f \<Rightarrow> f)"

definition update_file :: "u64 \<Rightarrow> (SSTMetaData \<Rightarrow> SSTMetaData) \<Rightarrow> Version \<Rightarrow> Version" where
  "update_file number upd v =
     v\<lparr>v_ssts := map (map (\<lambda>f. if sst_number f = number then upd f else f)) (v_ssts v)\<rparr>"

definition Version_UpdateStats :: "GetStats \<Rightarrow> Version \<Rightarrow> bool \<times> Version" where
  "Version_UpdateStats stats v =
     (case seek_file stats of
        None \<Rightarrow> (False, v)
      | Some f \<Rightarrow>
          (let sst = current_file f v;
               sst' = sst\<lparr>allowed_seeks := allowed_seeks sst - 1\<rparr>;
               v1 = update_file (sst_number sst) (\<lambda>f. sst') v
           in if allowed_seeks sst' \<le> 0 \<and> v_sst_to_compact v = None
              then (True, v1\<lparr>v_sst_to_compact := Some sst', v_sst_to_compact_level := seek_file_level stats\<rparr>)
              else (False, v1)))"

definition Sample_Match :: "GetStats \<times> nat \<Rightarrow> nat \<Rightarrow> SSTMetaData \<Rightarrow> bool \<times> (GetStats \<times> nat)" where
  "Sample_Match st level sst =
     (case st of (stats, matches) \<Rightarrow>
        (let m = matches + 1;
             stats' = (if m = 1 then \<lparr>seek_file = Some sst, seek_file_level = int level\<rparr> else stats)
         in (m < 2, stats', m)))"

definition RecordReadSample :: "bytes \<Rightarrow> Version \<Rightarrow> bool \<times> Version" where
  "RecordReadSample internal_key v =
     (case ParseInternalKey internal_key of
        None \<Rightarrow> (False, v)
      | Some ikey \<Rightarrow>
          (let (stats, matches) = CallForEachOverlapSST v (pk_user_key ikey) internal_key Sample_Match
                 (\<lparr>seek_file = None, seek_file_level = - 1\<rparr>, 0)
           in if 2 \<le> matches then Version_UpdateStats stats v else (False, v)))"

section \<open>The files in the order of the calls\<close>

definition level_file :: "Version \<Rightarrow> bytes \<Rightarrow> bytes \<Rightarrow> nat \<Rightarrow> (nat \<times> SSTMetaData) list" where
  "level_file v user_key internal_key level =
     (let ssts = v_ssts v ! level;
          index = FindSST ssts internal_key
      in if index < length ssts \<and> 0 \<le> ucmp user_key (sst_small (ssts ! index))
         then [(level, ssts ! index)] else [])"

definition overlap_files :: "Version \<Rightarrow> bytes \<Rightarrow> bytes \<Rightarrow> (nat \<times> SSTMetaData) list" where
  "overlap_files v user_key internal_key =
     map (Pair 0) (NewestFirst (level0_files v user_key))
     @ concat (map (level_file v user_key internal_key) [1..<length (v_ssts v)])"

fun call_seq :: "('s \<Rightarrow> nat \<Rightarrow> SSTMetaData \<Rightarrow> bool \<times> 's) \<Rightarrow> (nat \<times> SSTMetaData) list \<Rightarrow> 's \<Rightarrow> 's" where
  "call_seq func [] st = st"
| "call_seq func ((level, sst) # fs) st =
     (case func st level sst of (False, st') \<Rightarrow> st' | (True, st') \<Rightarrow> call_seq func fs st')"

lemma call_seq_level0:
  "(case CallLevel0_loop func tmp st of (False, st') \<Rightarrow> st' | (True, st') \<Rightarrow> call_seq func fs st')
   = call_seq func (map (Pair 0) tmp @ fs) st"
  by (induction func tmp st rule: CallLevel0_loop.induct) (auto split: prod.splits bool.splits)

lemma CallLevels_seq:
  "CallLevels_loop func v uk ik levels st = call_seq func (concat (map (level_file v uk ik) levels)) st"
  by (induction levels arbitrary: st) (auto simp: level_file_def Let_def split: prod.splits bool.splits)

lemma CallForEach_seq:
  "CallForEachOverlapSST v uk ik func st = call_seq func (overlap_files v uk ik) st"
  unfolding CallForEachOverlapSST_def overlap_files_def call_seq_level0 [symmetric] CallLevels_seq ..

section \<open>What the tables hold\<close>

text \<open>
  \<open>entries n\<close> lists what the table with number \<open>n\<close> holds.  A table answers a
  lookup with its first entry at or after the key when that entry is for the
  user key, and otherwise with nothing or an entry for another user key.
\<close>

definition first_at :: "bytes \<Rightarrow> (bytes \<times> bytes) list \<Rightarrow> (bytes \<times> bytes) option" where
  "first_at ikey es = find (\<lambda>e. icmp ikey (fst e) \<le> 0) es"

definition same_user :: "bytes \<Rightarrow> (bytes \<times> bytes) option \<Rightarrow> (bytes \<times> bytes) option" where
  "same_user ikey r =
     (case r of None \<Rightarrow> None
      | Some (k, v) \<Rightarrow> if ExtractUserKey k = ExtractUserKey ikey then Some (k, v) else None)"

definition tables_answer ::
    "(u64 \<Rightarrow> u64 \<Rightarrow> bytes \<Rightarrow> Status \<times> (bytes \<times> bytes) option) \<Rightarrow> (u64 \<Rightarrow> (bytes \<times> bytes) list) \<Rightarrow> Version \<Rightarrow> bool"
where
  "tables_answer cache_get entries v \<longleftrightarrow>
     (\<forall>ssts\<in>set (v_ssts v). \<forall>f\<in>set ssts. \<forall>ikey.
        \<exists>r. cache_get (sst_number f) (sst_size f) ikey = (Status_OK, r)
          \<and> same_user ikey r = same_user ikey (first_at ikey (entries (sst_number f)))
          \<and> (\<forall>k v. r = Some (k, v) \<longrightarrow> ParseInternalKey k \<noteq> None))"

definition valid_key :: "bytes \<Rightarrow> bool" where
  "valid_key k \<longleftrightarrow> (\<exists>u s t. s \<le> kMaxSequenceNumber \<and> k = InternalKey u s t)"

definition file_holds :: "(u64 \<Rightarrow> (bytes \<times> bytes) list) \<Rightarrow> SSTMetaData \<Rightarrow> bool" where
  "file_holds entries f \<longleftrightarrow>
     (let es = entries (sst_number f) in
      sorted_wrt (\<lambda>a b. icmp (fst a) (fst b) < 0) es
      \<and> (\<forall>e\<in>set es. valid_key (fst e) \<and> icmp (smallest_key f) (fst e) \<le> 0 \<and> icmp (fst e) (largest_key f) \<le> 0)
      \<and> largest_key f \<in> fst ` set es)"

text \<open>
  \<open>above\<close>: files of lower levels, and of level 0 with higher numbers, hold the
  newer entries of every user key.
\<close>

definition above :: "nat \<times> SSTMetaData \<Rightarrow> nat \<times> SSTMetaData \<Rightarrow> bool" where
  "above a b \<longleftrightarrow> fst a < fst b \<or> (fst a = 0 \<and> fst b = 0 \<and> sst_number (snd b) < sst_number (snd a))"

definition newer_than :: "(bytes \<times> bytes) list \<Rightarrow> (bytes \<times> bytes) list \<Rightarrow> bool" where
  "newer_than es es' \<longleftrightarrow> (\<forall>e\<in>set es. \<forall>e'\<in>set es'.
     ExtractUserKey (fst e) = ExtractUserKey (fst e') \<longrightarrow> ExtractTag (fst e') < ExtractTag (fst e))"

definition located :: "Version \<Rightarrow> nat \<times> SSTMetaData \<Rightarrow> bool" where
  "located v a \<longleftrightarrow> fst a < length (v_ssts v) \<and> snd a \<in> set (v_ssts v ! fst a)"

definition version_ok :: "(u64 \<Rightarrow> (bytes \<times> bytes) list) \<Rightarrow> Version \<Rightarrow> bool" where
  "version_ok entries v \<longleftrightarrow>
     v_ssts v \<noteq> [] \<and> distinct (map sst_number (v_ssts v ! 0))
     \<and> (\<forall>l. 0 < l \<and> l < length (v_ssts v) \<longrightarrow> level_sorted (v_ssts v ! l))
     \<and> (\<forall>a. located v a \<longrightarrow> file_holds entries (snd a))
     \<and> (\<forall>a b. located v a \<and> located v b \<and> above a b \<longrightarrow>
           newer_than (entries (sst_number (snd a))) (entries (sst_number (snd b))))"

section \<open>The answer of one file\<close>

definition pick :: "(u64 \<Rightarrow> (bytes \<times> bytes) list) \<Rightarrow> bytes \<Rightarrow> SSTMetaData \<Rightarrow> (bytes \<times> bytes) option" where
  "pick entries ikey f = same_user ikey (first_at ikey (entries (sst_number f)))"

lemma find_Some_in: "find P xs = Some x \<Longrightarrow> x \<in> set xs \<and> P x"
  by (auto simp: find_Some_iff)

lemma pick_in:
  assumes "pick entries ikey f = Some (k, v)"
  shows "(k, v) \<in> set (entries (sst_number f))" "icmp ikey k \<le> 0" "ExtractUserKey k = ExtractUserKey ikey"
  using assms
  by (auto simp: pick_def same_user_def first_at_def split: option.splits if_splits dest: find_Some_in)

lemma icmp_same_user:
  "ExtractUserKey a = ExtractUserKey b \<Longrightarrow> icmp a b \<le> 0 \<longleftrightarrow> ExtractTag b \<le> ExtractTag a"
  "ExtractUserKey a = ExtractUserKey b \<Longrightarrow> icmp a b < 0 \<longleftrightarrow> ExtractTag b < ExtractTag a"
  by (auto simp: InternalKeyComparator_Compare_eq Let_def)

lemma squeeze_user:
  assumes "icmp a b \<le> 0" "icmp b c \<le> 0" "ExtractUserKey a = ExtractUserKey c"
  shows "ExtractUserKey b = ExtractUserKey a"
proof -
  have "ucmp (ExtractUserKey a) (ExtractUserKey b) \<le> 0" "ucmp (ExtractUserKey b) (ExtractUserKey a) \<le> 0"
    using assms icmp_user_le by metis+
  then have "ucmp (ExtractUserKey a) (ExtractUserKey b) = 0"
    using Bytewise_swap [of "ExtractUserKey a" "ExtractUserKey b"] by simp
  then show ?thesis by simp
qed

lemma find_first:
  "sorted_wrt R xs \<Longrightarrow> x \<in> set xs \<Longrightarrow> P x \<Longrightarrow> \<exists>y. find P xs = Some y \<and> P y \<and> (y = x \<or> R y x)"
  by (induction xs) auto

lemma pick_first:
  assumes "file_holds entries f" "(k, v) \<in> set (entries (sst_number f))"
    and "icmp ikey k \<le> 0" "ExtractUserKey k = ExtractUserKey ikey"
  obtains k0 v0 where "pick entries ikey f = Some (k0, v0)" "(k0, v0) = (k, v) \<or> ExtractTag k < ExtractTag k0"
proof -
  let ?es = "entries (sst_number f)"
  have "sorted_wrt (\<lambda>a b. icmp (fst a) (fst b) < 0) ?es" using assms(1) by (simp add: file_holds_def Let_def)
  from find_first [OF this assms(2), where P = "\<lambda>e. icmp ikey (fst e) \<le> 0"] assms(3)
  obtain e where e: "first_at ikey ?es = Some e" "icmp ikey (fst e) \<le> 0" "e = (k, v) \<or> icmp (fst e) k < 0"
    unfolding first_at_def by auto
  have u: "ExtractUserKey (fst e) = ExtractUserKey ikey"
    using e(3) assms(4) squeeze_user [OF e(2), of k] by auto
  show ?thesis
  proof (rule that)
    show "pick entries ikey f = Some (fst e, snd e)"
      by (cases e) (use u in \<open>simp add: pick_def e(1) same_user_def\<close>)
    show "(fst e, snd e) = (k, v) \<or> ExtractTag k < ExtractTag (fst e)"
      using e(3) u assms(4) by (auto simp: icmp_same_user)
  qed
qed

section \<open>The answer of the walk\<close>

fun first_pick :: "(SSTMetaData \<Rightarrow> (bytes \<times> bytes) option) \<Rightarrow> (nat \<times> SSTMetaData) list \<Rightarrow> (bytes \<times> bytes) option" where
  "first_pick p [] = None"
| "first_pick p (a # fs) = (case p (snd a) of None \<Rightarrow> first_pick p fs | Some e \<Rightarrow> Some e)"

lemma first_pick_None: "first_pick p fs = None \<longleftrightarrow> (\<forall>a\<in>set fs. p (snd a) = None)"
  by (induction fs) (auto split: option.splits)

lemma first_pick_at:
  assumes "a \<in> set fs" "p (snd a) = Some e" "sorted_wrt R fs"
  shows "\<exists>b e'. first_pick p fs = Some e' \<and> p (snd b) = Some e' \<and> b \<in> set fs \<and> (b = a \<or> R b a)"
  using assms
proof (induction fs)
  case (Cons c fs)
  show ?case
  proof (cases "p (snd c)")
    case None
    then have "a \<in> set fs" using Cons.prems(1,2) by auto
    then show ?thesis using Cons None by auto
  next
    case (Some e')
    then show ?thesis using Cons.prems by (intro exI [of _ c] exI [of _ e']) auto
  qed
qed simp

definition answer :: "(bytes \<times> bytes) option \<Rightarrow> Status \<times> bytes option" where
  "answer r =
     (case r of
        Some (k, v) \<Rightarrow>
          if map_option pk_type (ParseInternalKey k) = Some kTypeValue then (Status_OK, Some v)
          else (Status_new kNotFound [] [], None)
      | None \<Rightarrow> (Status_new kNotFound [] [], None))"

definition get_result :: "GetState \<Rightarrow> Status \<times> bytes option" where
  "get_result st = (if gs_found st then gs_s st else Status_new kNotFound [] [], sv_value (gs_saver st))"

definition searching :: "bytes \<Rightarrow> GetState \<Rightarrow> bool" where
  "searching uk st \<longleftrightarrow> gs_saver st = \<lparr>sv_state = SaverNotFound, sv_user_key = uk, sv_value = None\<rparr> \<and> \<not> gs_found st"

lemma ParseInternalKey_user: "ParseInternalKey k = Some p \<Longrightarrow> pk_user_key p = ExtractUserKey k"
  by (auto simp: ParseInternalKey_def ExtractUserKey_def Let_def split: if_splits)

lemma SaveValue_answer:
  assumes "sv = \<lparr>sv_state = SaverNotFound, sv_user_key = ExtractUserKey ikey, sv_value = None\<rparr>"
    and "ParseInternalKey k \<noteq> None"
  shows "SaveValue sv k x =
     (case same_user ikey (Some (k, x)) of
        None \<Rightarrow> sv
      | Some e \<Rightarrow>
          if map_option pk_type (ParseInternalKey k) = Some kTypeValue
          then sv\<lparr>sv_state := SaverFound, sv_value := Some x\<rparr>
          else sv\<lparr>sv_state := SaverDeleted\<rparr>)"
  using assms ParseInternalKey_user [of k]
  by (cases "ParseInternalKey k") (auto simp: SaveValue_def same_user_def)

lemma Get_Match_none:
  assumes "searching (ExtractUserKey ikey) st"
    and "cache_get (sst_number f) (sst_size f) ikey = (Status_OK, r)"
    and "\<forall>k v. r = Some (k, v) \<longrightarrow> ParseInternalKey k \<noteq> None" "same_user ikey r = None"
  shows "\<exists>st'. Get_Match cache_get ikey st level f = (True, st') \<and> searching (ExtractUserKey ikey) st'"
proof (cases r)
  case None
  then show ?thesis using assms(1,2) by (simp add: Get_Match_def Let_def searching_def)
next
  case (Some e)
  obtain k x where e: "e = (k, x)" by force
  have "SaveValue (gs_saver st) k x = gs_saver st"
    using SaveValue_answer [of "gs_saver st" ikey k x] assms(1,3,4) Some e by (simp add: searching_def)
  then show ?thesis using assms(1,2) Some e by (simp add: Get_Match_def Let_def searching_def)
qed

lemma Get_Match_some:
  assumes "searching (ExtractUserKey ikey) st"
    and "cache_get (sst_number f) (sst_size f) ikey = (Status_OK, r)"
    and "\<forall>k v. r = Some (k, v) \<longrightarrow> ParseInternalKey k \<noteq> None" "same_user ikey r = Some e"
  shows "\<exists>st'. Get_Match cache_get ikey st level f = (False, st') \<and> get_result st' = answer (Some e)"
proof -
  obtain k x where e: "r = Some (k, x)" "e = (k, x)"
    using assms(4) by (auto simp: same_user_def split: option.splits if_splits)
  have "SaveValue (gs_saver st) k x =
      (if map_option pk_type (ParseInternalKey k) = Some kTypeValue
       then (gs_saver st)\<lparr>sv_state := SaverFound, sv_value := Some x\<rparr>
       else (gs_saver st)\<lparr>sv_state := SaverDeleted\<rparr>)"
    using SaveValue_answer [of "gs_saver st" ikey k x] assms(1,3,4) e by (simp add: searching_def)
  then show ?thesis
    using assms(1,2) e
    by (cases "map_option pk_type (ParseInternalKey k) = Some kTypeValue")
      (auto simp: Get_Match_def Let_def searching_def get_result_def answer_def)
qed

lemma get_seq:
  assumes "tables_answer cache_get entries v" "\<forall>a\<in>set fs. located v a" "searching (ExtractUserKey ikey) st"
  shows "get_result (call_seq (Get_Match cache_get ikey) fs st) = answer (first_pick (pick entries ikey) fs)"
  using assms(2,3)
proof (induction fs arbitrary: st)
  case Nil
  then show ?case by (simp add: get_result_def searching_def answer_def)
next
  case (Cons a fs)
  obtain level f where a: "a = (level, f)" by force
  have "located v a" using Cons.prems(1) by simp
  then obtain r where r: "cache_get (sst_number f) (sst_size f) ikey = (Status_OK, r)"
    "same_user ikey r = pick entries ikey f" "\<forall>k v. r = Some (k, v) \<longrightarrow> ParseInternalKey k \<noteq> None"
    using assms(1) unfolding tables_answer_def located_def pick_def a fst_conv snd_conv
    by (metis nth_mem)
  note step = Get_Match_none [where ikey = ikey and r = r and f = f and st = st and cache_get = cache_get and level = level,
        OF Cons.prems(2) r(1) r(3), unfolded r(2)]
    Get_Match_some [where ikey = ikey and r = r and f = f and st = st and cache_get = cache_get and level = level,
        OF Cons.prems(2) r(1) r(3), unfolded r(2)]
  show ?case
  proof (cases "pick entries ikey f")
    case None
    then obtain st' where "Get_Match cache_get ikey st level f = (True, st')"
      "searching (ExtractUserKey ikey) st'" using step(1) by blast
    then show ?thesis using Cons.IH [of st'] Cons.prems(1) None by (simp add: a)
  next
    case (Some e)
    then obtain st' where "Get_Match cache_get ikey st level f = (False, st')"
      "get_result st' = answer (Some e)" using step(2) by blast
    then show ?thesis using Some by (simp add: a)
  qed
qed

lemma Version_Get_walk:
  assumes "tables_answer cache_get entries v"
    and "\<forall>a\<in>set (overlap_files v uk (InternalKey uk snap kValueTypeForSeek)). located v a"
  shows "\<exists>stats. Version_Get cache_get v (LookupKey_new uk snap) =
    (fst (answer (first_pick (pick entries (InternalKey uk snap kValueTypeForSeek))
            (overlap_files v uk (InternalKey uk snap kValueTypeForSeek)))),
     snd (answer (first_pick (pick entries (InternalKey uk snap kValueTypeForSeek))
            (overlap_files v uk (InternalKey uk snap kValueTypeForSeek)))), stats)"
proof -
  let ?ik = "InternalKey uk snap kValueTypeForSeek"
  let ?init = "\<lparr>gs_saver = \<lparr>sv_state = SaverNotFound, sv_user_key = uk, sv_value = None\<rparr>,
      gs_stats = \<lparr>seek_file = None, seek_file_level = - 1\<rparr>,
      gs_last_file_read = None, gs_last_file_read_level = - 1, gs_s = Status_OK, gs_found = False\<rparr>"
  let ?st = "call_seq (Get_Match cache_get ?ik) (overlap_files v uk ?ik) ?init"
  have "searching (ExtractUserKey ?ik) ?init" by (simp add: searching_def)
  from get_seq [OF assms this]
  have "get_result ?st = answer (first_pick (pick entries ?ik) (overlap_files v uk ?ik))" .
  moreover have "Version_Get cache_get v (LookupKey_new uk snap) =
      (fst (get_result ?st), snd (get_result ?st), gs_stats ?st)"
    by (simp add: Version_Get_def CallForEach_seq get_result_def Let_def)
  ultimately show ?thesis by auto
qed

section \<open>The order of the walk\<close>

lemma NewestFirst_set [simp]: "set (NewestFirst fs) = set fs"
  by (simp add: NewestFirst_def)

lemma NewestFirst_descending:
  assumes "distinct (map sst_number fs)"
  shows "sorted_wrt (\<lambda>f g. sst_number g < sst_number f) (NewestFirst fs)"
proof -
  have "distinct (map sst_number (sort_key sst_number fs))"
    using assms by (simp add: distinct_map)
  then have "sorted_wrt (\<lambda>a b. a < b) (map sst_number (sort_key sst_number fs))"
    by (simp add: strict_sorted_iff)
  then show ?thesis by (simp add: NewestFirst_def sorted_wrt_rev sorted_wrt_map)
qed

lemma level_file_in: "a \<in> set (level_file v uk ik l) \<Longrightarrow> fst a = l \<and> snd a \<in> set (v_ssts v ! l)"
  by (auto simp: level_file_def Let_def split: if_splits)

lemma above_level: "fst a < fst b \<Longrightarrow> above a b"
  by (simp add: above_def)

lemma level_files_above:
  "sorted_wrt (\<lambda>a b. a < b) ls \<Longrightarrow> sorted_wrt above (concat (map (level_file v uk ik) ls))"
proof (induction ls)
  case (Cons l ls)
  have "sorted_wrt above (level_file v uk ik l)" by (simp add: level_file_def Let_def)
  then show ?case
    using Cons by (auto simp: sorted_wrt_append intro!: above_level dest!: level_file_in)
qed simp

lemma overlap_files_above:
  assumes "distinct (map sst_number (v_ssts v ! 0))"
  shows "sorted_wrt above (overlap_files v uk ik)"
proof -
  have "distinct (map sst_number (level0_files v uk))"
    using assms unfolding level0_files_def by (rule distinct_map_filter)
  then have "sorted_wrt above (map (Pair 0) (NewestFirst (level0_files v uk)))"
    using NewestFirst_descending by (fastforce simp: sorted_wrt_map above_def elim: sorted_wrt_mono_rel [rotated])
  moreover have "sorted_wrt above (concat (map (level_file v uk ik) [1..<length (v_ssts v)]))"
    by (intro level_files_above) simp
  ultimately show ?thesis
    by (auto simp: overlap_files_def sorted_wrt_append intro!: above_level dest!: level_file_in)
qed

lemma overlap_files_located: "v_ssts v \<noteq> [] \<Longrightarrow> a \<in> set (overlap_files v uk ik) \<Longrightarrow> located v a"
  by (auto simp: overlap_files_def located_def level0_files_def dest!: level_file_in)

section \<open>The newest visible entry\<close>

definition visible ::
    "(u64 \<Rightarrow> (bytes \<times> bytes) list) \<Rightarrow> Version \<Rightarrow> bytes \<Rightarrow> u64 \<Rightarrow> (u64 \<times> ValueType \<times> bytes) set" where
  "visible entries v uk snap =
     {(s, t, x). s \<le> snap \<and> (\<exists>a. located v a \<and> (InternalKey uk s t, x) \<in> set (entries (sst_number (snd a))))}"

definition newest ::
    "(u64 \<times> ValueType \<times> bytes) set \<Rightarrow> u64 \<times> ValueType \<times> bytes \<Rightarrow> bool" where
  "newest E e \<longleftrightarrow> e \<in> E \<and> (\<forall>e'\<in>E. PackSequenceAndType (fst e') (fst (snd e')) \<le> PackSequenceAndType (fst e) (fst (snd e)))"

lemma version_ok_file: "version_ok entries v \<Longrightarrow> located v a \<Longrightarrow> file_holds entries (snd a)"
  unfolding version_ok_def by blast

lemma entry_visible:
  assumes "version_ok entries v" "located v a" "(k, x) \<in> set (entries (sst_number (snd a)))"
    and "snap \<le> kMaxSequenceNumber" "ExtractUserKey k = uk" "icmp (InternalKey uk snap kValueTypeForSeek) k \<le> 0"
  obtains s t where "k = InternalKey uk s t" "(s, t, x) \<in> visible entries v uk snap"
proof -
  have "file_holds entries (snd a)" using assms(1,2) by (rule version_ok_file)
  then have "valid_key k" using assms(3) by (force simp: file_holds_def Let_def)
  then obtain u s t where k: "s \<le> kMaxSequenceNumber" "k = InternalKey u s t" by (auto simp: valid_key_def)
  have u: "u = uk" using k(2) assms(5) by simp
  have "s \<le> snap"
    using lookup_key_visible [OF k(1) assms(4), of uk t] assms(6) k(2) u by simp
  then have "(s, t, x) \<in> visible entries v uk snap"
    using k(2) u assms(2,3) unfolding visible_def by blast
  with k(2) u show ?thesis using that by blast
qed

lemma newest_tag:
  assumes "version_ok entries v" "snap \<le> kMaxSequenceNumber" "newest (visible entries v uk snap) (s, t, x)"
    and "located v a" "(k, y) \<in> set (entries (sst_number (snd a)))" "ExtractUserKey k = uk"
    and "icmp (InternalKey uk snap kValueTypeForSeek) k \<le> 0"
  shows "ExtractTag k \<le> PackSequenceAndType s t"
proof -
  obtain s' t' where "k = InternalKey uk s' t'" "(s', t', y) \<in> visible entries v uk snap"
    using entry_visible [OF assms(1,4,5,2,6,7)] .
  then show ?thesis using assms(3) by (force simp: newest_def)
qed

lemma newest_visited:
  assumes ok: "version_ok entries v" and snap: "snap \<le> kMaxSequenceNumber"
    and n: "newest (visible entries v uk snap) (s, t, x)"
    and a: "located v (l, f)" "(InternalKey uk s t, x) \<in> set (entries (sst_number f))"
  shows "(l, f) \<in> set (overlap_files v uk (InternalKey uk snap kValueTypeForSeek))"
proof -
  let ?k = "InternalKey uk s t" and ?ik = "InternalKey uk snap kValueTypeForSeek"
  have "file_holds entries f" using version_ok_file [OF ok a(1)] by simp
  then have f: "icmp (smallest_key f) ?k \<le> 0" "icmp ?k (largest_key f) \<le> 0" "valid_key ?k"
    using a(2) by (force simp: file_holds_def Let_def)+
  have "s \<le> snap" using n by (simp add: newest_def visible_def)
  then have ik: "icmp ?ik ?k \<le> 0"
    using Pack_le_seek [OF _ snap, of s t] by (auto simp: not_less)
  have small: "0 \<le> ucmp uk (sst_small f)" and large: "ucmp uk (sst_large f) \<le> 0"
    using icmp_user_le [OF f(1)] icmp_user_le [OF f(2)] bytewise.cmp_swap [of "sst_small f" uk]
    by (auto simp: sst_small_def sst_large_def)
  show ?thesis
  proof (cases "l = 0")
    case True
    then show ?thesis using a(1) small large by (auto simp: overlap_files_def level0_files_def located_def)
  next
    case False
    let ?ssts = "v_ssts v ! l"
    have l: "l < length (v_ssts v)" "level_sorted ?ssts"
      using a(1) ok False by (auto simp: located_def version_ok_def)
    obtain j where j: "j < length ?ssts" "?ssts ! j = f" using a(1) by (auto simp: located_def in_set_conv_nth)
    note find = FindSST_split [OF l(2), where key = ?ik]
    let ?i = "FindSST ?ssts ?ik"
    have "\<not> icmp (largest_key f) ?ik < 0"
      using internal.cmp_le_trans [OF ik f(2)] internal.cmp_le_iff by blast
    then have i: "?i \<le> j" using find(2) [of j] j(2) not_le by blast
    have "?i = j"
    proof (rule ccontr)
      assume "?i \<noteq> j"
      then have ij: "?i < j" using i by simp
      let ?g = "?ssts ! ?i"
      have g: "located v (l, ?g)" using l(1) ij j(1) by (simp add: located_def)
      then have "file_holds entries ?g" using version_ok_file [OF ok g] by simp
      then obtain y where y: "(largest_key ?g, y) \<in> set (entries (sst_number ?g))"
        by (auto simp: file_holds_def Let_def)
      have ge: "icmp ?ik (largest_key ?g) \<le> 0"
        using find(3) [of ?i] ij j(1) internal.cmp_le_iff by simp
      have "icmp (largest_key ?g) (smallest_key f) < 0"
        using l(2) ij j by (auto simp: level_sorted_def sorted_wrt_iff_nth_less)
      then have less: "icmp (largest_key ?g) ?k < 0" using f(1) by (rule internal.cmp_less_le_trans)
      have u: "ExtractUserKey (largest_key ?g) = uk"
        using squeeze_user [OF ge, of ?k] less by simp
      have "ExtractTag (largest_key ?g) \<le> PackSequenceAndType s t"
        using newest_tag [OF ok snap n g] y u ge by simp
      moreover have "PackSequenceAndType s t < ExtractTag (largest_key ?g)"
        using less u by (simp add: icmp_same_user)
      ultimately show False by simp
    qed
    then have "(l, f) \<in> set (level_file v uk ?ik l)"
      using j small by (simp add: level_file_def)
    then show ?thesis using l(1) False by (auto simp: overlap_files_def intro!: bexI [of _ l])
  qed
qed

section \<open>A version with two files\<close>

definition demo_entries :: "u64 \<Rightarrow> (bytes \<times> bytes) list" where
  "demo_entries n =
     (if n = 7 then [(InternalKey [1] 9 kTypeValue, [42])]
      else if n = 3 then [(InternalKey [1] 2 kTypeValue, [7])] else [])"

definition demo_file :: "u64 \<Rightarrow> u64 \<Rightarrow> SSTMetaData" where
  "demo_file n s = SSTMetaData_new n 100 (InternalKey [1] s kTypeValue) (InternalKey [1] s kTypeValue)"

definition demo_version :: Version where
  "demo_version = (Version_new 2)\<lparr>v_ssts := [[demo_file 7 9], [demo_file 3 2]]\<rparr>"

definition demo_cache :: "u64 \<Rightarrow> u64 \<Rightarrow> bytes \<Rightarrow> Status \<times> (bytes \<times> bytes) option" where
  "demo_cache n s ikey = (Status_OK, first_at ikey (demo_entries n))"

lemma demo_file_fields [simp]:
  "sst_number (demo_file n s) = n" "smallest_key (demo_file n s) = InternalKey [1] s kTypeValue"
  "largest_key (demo_file n s) = InternalKey [1] s kTypeValue"
  by (simp_all add: demo_file_def SSTMetaData_new_def)

lemma demo_located: "located demo_version a \<longleftrightarrow> a = (0, demo_file 7 9) \<or> a = (1, demo_file 3 2)"
  by (cases a) (auto simp: located_def demo_version_def less_Suc_eq nth_Cons split: nat.splits)

lemma demo_max: "(9::u64) \<le> kMaxSequenceNumber" "(2::u64) \<le> kMaxSequenceNumber"
  by (simp_all add: kMaxSequenceNumber_def)

lemma demo_valid: "valid_key (InternalKey [1] 9 kTypeValue)" "valid_key (InternalKey [1] 2 kTypeValue)"
  using demo_max by (auto simp: valid_key_def)

lemma demo_tag_less: "PackSequenceAndType 2 kTypeValue < PackSequenceAndType 9 kTypeValue"
  using demo_max by (intro Pack_less) auto

lemma demo_version_ok: "version_ok demo_entries demo_version"
  unfolding version_ok_def
proof (intro conjI allI impI)
  show "v_ssts demo_version \<noteq> []" "distinct (map sst_number (v_ssts demo_version ! 0))"
    by (simp_all add: demo_version_def)
  show "level_sorted (v_ssts demo_version ! l)" if "0 < l \<and> l < length (v_ssts demo_version)" for l
    using that by (auto simp: demo_version_def level_sorted_def file_ok_def less_Suc_eq)
  show "file_holds demo_entries (snd a)" if "located demo_version a" for a
    using that demo_valid by (auto simp: demo_located file_holds_def demo_entries_def)
  show "newer_than (demo_entries (sst_number (snd a))) (demo_entries (sst_number (snd b)))"
    if "located demo_version a \<and> located demo_version b \<and> above a b" for a b
    using that demo_tag_less by (auto simp: demo_located above_def newer_than_def demo_entries_def)
qed

lemma demo_tables_answer: "tables_answer demo_cache demo_entries demo_version"
proof -
  have "ParseInternalKey k \<noteq> None" if "first_at ikey (demo_entries n) = Some (k, v)" for ikey n k v
    using that demo_max by (auto simp: first_at_def demo_entries_def split: if_splits)
  then show ?thesis unfolding tables_answer_def demo_cache_def by blast
qed

lemma demo_newest: "newest (visible demo_entries demo_version [1] 9) (9, kTypeValue, [42])"
proof -
  have e: "(s, t) = (9, kTypeValue) \<or> (s, t) = (2, kTypeValue)"
    if "InternalKey [1] s t = InternalKey [1] 9 kTypeValue \<or> InternalKey [1] s t = InternalKey [1] 2 kTypeValue"
      "s \<le> 9" for s t
  proof -
    have "s \<le> kMaxSequenceNumber" using that(2) demo_max(1) by (rule order_trans)
    then show ?thesis using that(1) demo_max by (auto simp: InternalKey_inject)
  qed
  have "located demo_version (0, demo_file 7 9)" by (simp add: demo_located)
  then have "(9, kTypeValue, [42]) \<in> visible demo_entries demo_version [1] 9"
    unfolding visible_def by (force simp: demo_entries_def)
  moreover have "PackSequenceAndType s t \<le> PackSequenceAndType 9 kTypeValue"
    if "(s, t, x) \<in> visible demo_entries demo_version [1] 9" for s t x
    using that e [of s t] demo_tag_less
    by (auto simp: visible_def demo_located demo_entries_def less_imp_le)
  ultimately show ?thesis by (auto simp: newest_def)
qed



end
