(* ===== verification/Version_Builder.thy ===== *)
theory Version_Builder
  imports Version_Get
begin

text \<open>
  \<^verbatim>\<open>VersionSet::Builder\<close> of \<^verbatim>\<open>src/db/version_set.cc\<close>: it applies a sequence of
  edits to a base version without the versions in between.  Metadata is passed
  by value, so the reference counts of shared metadata are not followed.  An
  access to \<^verbatim>\<open>levels_\<close> or \<^verbatim>\<open>compact_pointer_\<close> outside the tree, which the code
  does not guard, is \<^verbatim>\<open>None\<close>.
\<close>

section \<open>The builder\<close>

definition OrderBySmallestKey :: "SSTMetaData \<Rightarrow> SSTMetaData \<Rightarrow> bool" where
  "OrderBySmallestKey sst1 sst2 =
     (let r = icmp (smallest_key sst1) (smallest_key sst2)
      in if r \<noteq> 0 then r < 0 else sst_number sst1 < sst_number sst2)"

text \<open>\<^verbatim>\<open>std::set::insert\<close>: an equivalent element stays.\<close>

fun SSTSet_insert :: "SSTMetaData \<Rightarrow> SSTMetaData list \<Rightarrow> SSTMetaData list" where
  "SSTSet_insert f [] = [f]"
| "SSTSet_insert f (g # gs) =
     (if OrderBySmallestKey g f then g # SSTSet_insert f gs
      else if OrderBySmallestKey f g then f # g # gs else g # gs)"

record LevelState =
  deleted_numbers :: "u64 set"
  added_ssts :: "SSTMetaData list"

record Builder =
  bd_base :: Version
  bd_levels :: "LevelState list"

definition Builder_new :: "Version \<Rightarrow> Builder" where
  "Builder_new base =
     \<lparr>bd_base = base,
      bd_levels = replicate (length (v_ssts base)) \<lparr>deleted_numbers = {}, added_ssts = []\<rparr>\<rparr>"

text \<open>An update of the array element of a level.\<close>

definition at_level :: "int \<Rightarrow> ('a \<Rightarrow> 'a) \<Rightarrow> 'a list \<Rightarrow> 'a list option" where
  "at_level level upd xs =
     (if 0 \<le> level \<and> level < int (length xs) then Some (xs[nat level := upd (xs ! nat level)]) else None)"

fun Apply_pointers :: "(int \<times> bytes) list \<Rightarrow> bytes list \<Rightarrow> bytes list option" where
  "Apply_pointers [] ptrs = Some ptrs"
| "Apply_pointers ((level, key) # ps) ptrs =
     (case at_level level (\<lambda>_. key) ptrs of None \<Rightarrow> None | Some ptrs' \<Rightarrow> Apply_pointers ps ptrs')"

fun Apply_deleted :: "(int \<times> u64) list \<Rightarrow> LevelState list \<Rightarrow> LevelState list option" where
  "Apply_deleted [] ls = Some ls"
| "Apply_deleted ((level, number) # ds) ls =
     (case at_level level (\<lambda>s. s\<lparr>deleted_numbers := insert number (deleted_numbers s)\<rparr>) ls of
        None \<Rightarrow> None
      | Some ls' \<Rightarrow> Apply_deleted ds ls')"

text \<open>One seek for every 16 KB, at least a hundred; the quotient is cut to an \<^verbatim>\<open>int\<close>.\<close>

definition installed :: "SSTMetaData \<Rightarrow> SSTMetaData" where
  "installed f =
     (let seeks = sint (ucast (sst_size f div 16384) :: 32 word)
      in f\<lparr>sst_refs := 1, allowed_seeks := (if seeks < 100 then 100 else seeks)\<rparr>)"

fun Apply_new :: "(int \<times> SSTMetaData) list \<Rightarrow> LevelState list \<Rightarrow> LevelState list option" where
  "Apply_new [] ls = Some ls"
| "Apply_new ((level, f) # fs) ls =
     (case at_level level (\<lambda>s. s\<lparr>deleted_numbers := deleted_numbers s - {sst_number f},
                                 added_ssts := SSTSet_insert (installed f) (added_ssts s)\<rparr>) ls of
        None \<Rightarrow> None
      | Some ls' \<Rightarrow> Apply_new fs ls')"

definition Builder_Apply :: "VersionEdit \<Rightarrow> bytes list \<times> Builder \<Rightarrow> (bytes list \<times> Builder) option" where
  "Builder_Apply edit s =
     (case s of (ptrs, b) \<Rightarrow>
        (case Apply_pointers (compact_pointers edit) ptrs of
           None \<Rightarrow> None
         | Some ptrs' \<Rightarrow>
             (case Apply_deleted (deleted_ssts edit) (bd_levels b) of
                None \<Rightarrow> None
              | Some ls \<Rightarrow>
                  (case Apply_new (new_ssts edit) ls of
                     None \<Rightarrow> None
                   | Some ls' \<Rightarrow> Some (ptrs', b\<lparr>bd_levels := ls'\<rparr>)))))"

fun Builder_Apply_all :: "VersionEdit list \<Rightarrow> bytes list \<times> Builder \<Rightarrow> (bytes list \<times> Builder) option" where
  "Builder_Apply_all [] s = Some s"
| "Builder_Apply_all (e # es) s =
     (case Builder_Apply e s of None \<Rightarrow> None | Some s' \<Rightarrow> Builder_Apply_all es s')"

definition MaybeAddFile :: "u64 set \<Rightarrow> SSTMetaData list \<Rightarrow> SSTMetaData \<Rightarrow> SSTMetaData list" where
  "MaybeAddFile deleted ssts sst = (if sst_number sst \<in> deleted then ssts else ssts @ [sst])"

text \<open>\<^verbatim>\<open>std::upper_bound\<close> on a sorted range: the end of the elements the file is not before.\<close>

fun SaveTo_loop ::
    "u64 set \<Rightarrow> SSTMetaData list \<Rightarrow> SSTMetaData list \<Rightarrow> SSTMetaData list \<Rightarrow> SSTMetaData list" where
  "SaveTo_loop deleted base_iter [] ssts = foldl (MaybeAddFile deleted) ssts base_iter"
| "SaveTo_loop deleted base_iter (added_file # added_files) ssts =
     (let smaller = takeWhile (\<lambda>f. \<not> OrderBySmallestKey added_file f) base_iter;
          base_iter' = drop (length smaller) base_iter;
          ssts1 = foldl (MaybeAddFile deleted) ssts smaller
      in SaveTo_loop deleted base_iter' added_files (MaybeAddFile deleted ssts1 added_file))"

definition SaveTo_level :: "LevelState \<Rightarrow> SSTMetaData list \<Rightarrow> SSTMetaData list \<Rightarrow> SSTMetaData list" where
  "SaveTo_level s base ssts = SaveTo_loop (deleted_numbers s) base (added_ssts s) ssts"

definition Builder_SaveTo :: "Builder \<Rightarrow> Version \<Rightarrow> Version" where
  "Builder_SaveTo b v =
     v\<lparr>v_ssts := map (\<lambda>level. SaveTo_level (bd_levels b ! level) (v_ssts (bd_base b) ! level) (v_ssts v ! level))
        [0..<length (v_ssts v)]\<rparr>"

section \<open>The order of the files\<close>

abbreviation by_smallest :: "SSTMetaData list \<Rightarrow> bool" where
  "by_smallest \<equiv> sorted_wrt OrderBySmallestKey"

lemma Order_iff:
  "OrderBySmallestKey a b \<longleftrightarrow> icmp (smallest_key a) (smallest_key b) < 0
     \<or> (icmp (smallest_key a) (smallest_key b) = 0 \<and> sst_number a < sst_number b)"
  by (auto simp: OrderBySmallestKey_def Let_def)

lemma Order_irrefl: "\<not> OrderBySmallestKey a a"
  by (simp add: Order_iff internal.cmp_refl)

lemma Order_trans: "OrderBySmallestKey a b \<Longrightarrow> OrderBySmallestKey b c \<Longrightarrow> OrderBySmallestKey a c"
  unfolding Order_iff
  using internal.cmp_less_trans [of "smallest_key a" "smallest_key b" "smallest_key c"]
    internal.cmp_zero_left [of "smallest_key a" "smallest_key b" "smallest_key c"]
    internal.cmp_zero_right [of "smallest_key b" "smallest_key c" "smallest_key a"]
    internal.cmp_zero_trans [of "smallest_key a" "smallest_key b" "smallest_key c"]
  by (auto dest: less_trans)

lemma Order_asym: "OrderBySmallestKey a b \<Longrightarrow> \<not> OrderBySmallestKey b a"
  using Order_trans Order_irrefl by blast

lemma Order_total:
  assumes "\<not> OrderBySmallestKey a b" "sst_number a \<noteq> sst_number b"
  shows "OrderBySmallestKey b a"
  using assms internal.cmp_swap [of "smallest_key a" "smallest_key b"]
    internal.cmp_zero_sym [of "smallest_key a" "smallest_key b"]
  unfolding Order_iff by (cases "icmp (smallest_key a) (smallest_key b) = 0") (auto simp: not_less)

lemma by_smallest_unique:
  assumes "by_smallest xs" "by_smallest ys" "set xs = set ys"
  shows "xs = ys"
  using assms
proof (induction xs arbitrary: ys)
  case (Cons x xs)
  then obtain y ys' where ys: "ys = y # ys'" by (cases ys) auto
  have "x = y"
    using Cons.prems unfolding ys by (metis Order_asym insertE insertI1 list.simps(15) sorted_wrt.simps(2))
  moreover have "x \<notin> set xs" "y \<notin> set ys'" using Cons.prems ys Order_irrefl by auto
  then have "set xs = set ys'" using Cons.prems(3) ys \<open>x = y\<close> by auto
  then have "xs = ys'" using Cons.IH [of ys'] Cons.prems ys by simp
  ultimately show ?case using ys by simp
qed simp

lemma levels_unique:
  assumes "length xs = length ys" "\<forall>l<length ys. by_smallest (xs ! l) \<and> by_smallest (ys ! l) \<and> set (xs ! l) = set (ys ! l)"
  shows "xs = ys"
  using assms by (intro nth_equalityI [OF assms(1)] by_smallest_unique) auto

lemma SSTSet_insert_sorted:
  assumes "by_smallest gs" "\<forall>g\<in>set gs. sst_number g \<noteq> sst_number f"
  shows "by_smallest (SSTSet_insert f gs) \<and> set (SSTSet_insert f gs) = insert f (set gs)"
  using assms
proof (induction gs)
  case (Cons g gs)
  show ?case
  proof (cases "OrderBySmallestKey g f")
    case True
    then show ?thesis using Cons by auto
  next
    case False
    then have "OrderBySmallestKey f g" using Order_total Cons.prems(2) by auto
    then show ?thesis using False Cons.prems(1) Order_trans by auto
  qed
qed simp

lemma MaybeAdd_foldl: "foldl (MaybeAddFile d) ssts fs = ssts @ filter (\<lambda>f. sst_number f \<notin> d) fs"
  by (induction fs arbitrary: ssts) (auto simp: MaybeAddFile_def)

text \<open>The merge the loop walks through, before the deleted files are left out.\<close>

fun SaveTo_merge :: "SSTMetaData list \<Rightarrow> SSTMetaData list \<Rightarrow> SSTMetaData list" where
  "SaveTo_merge base [] = base"
| "SaveTo_merge base (f # fs) =
     takeWhile (\<lambda>g. \<not> OrderBySmallestKey f g) base
     @ f # SaveTo_merge (dropWhile (\<lambda>g. \<not> OrderBySmallestKey f g) base) fs"

lemma SaveTo_loop_merge:
  "SaveTo_loop d base fs ssts = ssts @ filter (\<lambda>f. sst_number f \<notin> d) (SaveTo_merge base fs)"
  by (induction fs arbitrary: base ssts)
    (simp_all add: MaybeAdd_foldl dropWhile_eq_drop Let_def, simp add: MaybeAddFile_def)

lemma SaveTo_merge_set: "set (SaveTo_merge base fs) = set base \<union> set fs"
  by (induction fs arbitrary: base) (simp_all, metis Un_assoc set_takeWhile_dropWhile)

lemma dropWhile_Order:
  assumes "by_smallest base" "x \<in> set (dropWhile (\<lambda>g. \<not> OrderBySmallestKey f g) base)"
  shows "OrderBySmallestKey f x"
  using assms by (induction base) (auto split: if_splits dest: Order_trans)

lemma SaveTo_merge_sorted:
  assumes "by_smallest base" "by_smallest fs" "\<forall>f\<in>set fs. \<forall>g\<in>set base. sst_number f \<noteq> sst_number g"
  shows "by_smallest (SaveTo_merge base fs)"
  using assms
proof (induction fs arbitrary: base)
  case (Cons f fs)
  let ?P = "\<lambda>g. \<not> OrderBySmallestKey f g"
  have split: "base = takeWhile ?P base @ dropWhile ?P base" by simp
  then have sorted: "by_smallest (takeWhile ?P base)" "by_smallest (dropWhile ?P base)"
    "\<forall>x\<in>set (takeWhile ?P base). \<forall>y\<in>set (dropWhile ?P base). OrderBySmallestKey x y"
    using Cons.prems(1) sorted_wrt_append by metis+
  have below: "OrderBySmallestKey x f" if "x \<in> set (takeWhile ?P base)" for x
    using that Cons.prems(3) Order_total by (metis list.set_intros(1) set_takeWhileD)
  have above: "OrderBySmallestKey f x" if "x \<in> set (dropWhile ?P base)" for x
    using that Cons.prems(1) by (rule dropWhile_Order [rotated])
  have rest: "by_smallest (SaveTo_merge (dropWhile ?P base) fs)"
    using Cons.prems sorted(2) by (intro Cons.IH) (auto dest: set_dropWhileD)
  have f_less: "OrderBySmallestKey f y" if "y \<in> set (dropWhile ?P base) \<union> set fs" for y
    using that by (elim UnE) (rule above, assumption, use Cons.prems(2) in simp)
  have t_less: "OrderBySmallestKey x y"
    if "x \<in> set (takeWhile ?P base)" "y \<in> set (dropWhile ?P base) \<union> set fs" for x y
    by (rule Order_trans [OF below [OF that(1)] f_less [OF that(2)]])
  have "\<forall>y\<in>set (SaveTo_merge (dropWhile ?P base) fs). OrderBySmallestKey f y"
    unfolding SaveTo_merge_set using f_less by blast
  then have rest': "by_smallest (f # SaveTo_merge (dropWhile ?P base) fs)" using rest by (simp only: sorted_wrt.simps)
  have "\<forall>x\<in>set (takeWhile ?P base). \<forall>y\<in>set (f # SaveTo_merge (dropWhile ?P base) fs). OrderBySmallestKey x y"
    unfolding set_simps SaveTo_merge_set using below t_less by blast
  then show ?case
    unfolding SaveTo_merge.simps sorted_wrt_append using sorted(1) rest' by blast
qed simp

section \<open>One level under an edit\<close>

text \<open>
  What a level holds for the builder, and what an edit means for the set of its
  files.
\<close>

definition level_view :: "LevelState \<Rightarrow> SSTMetaData list \<Rightarrow> SSTMetaData set" where
  "level_view s base = {f \<in> set base \<union> set (added_ssts s). sst_number f \<notin> deleted_numbers s}"

definition edit_level :: "VersionEdit \<Rightarrow> nat \<Rightarrow> SSTMetaData set \<Rightarrow> SSTMetaData set" where
  "edit_level e l S =
     {f \<in> S. (int l, sst_number f) \<notin> set (deleted_ssts e)} \<union> {installed f |f. (int l, f) \<in> set (new_ssts e)}"

definition numbers :: "LevelState \<Rightarrow> SSTMetaData list \<Rightarrow> u64 set" where
  "numbers s base = sst_number ` (set base \<union> set (added_ssts s))"

definition level_inv :: "LevelState \<Rightarrow> SSTMetaData list \<Rightarrow> bool" where
  "level_inv s base \<longleftrightarrow> by_smallest base \<and> by_smallest (added_ssts s)
     \<and> (\<forall>f\<in>set (added_ssts s). \<forall>g\<in>set base. sst_number f \<noteq> sst_number g)"

lemma installed_number [simp]: "sst_number (installed f) = sst_number f"
  by (simp add: installed_def Let_def)

lemma SaveTo_level_view:
  assumes "level_inv s base"
  shows "by_smallest (SaveTo_level s base []) \<and> set (SaveTo_level s base []) = level_view s base"
  using assms SaveTo_merge_sorted [of base "added_ssts s"]
  by (auto simp: SaveTo_level_def SaveTo_loop_merge SaveTo_merge_set level_inv_def level_view_def
      sorted_wrt_filter)

lemma Apply_new_level:
  assumes "level_inv s base" "sst_number f \<notin> numbers s base"
    and "s' = s\<lparr>deleted_numbers := deleted_numbers s - {sst_number f},
                added_ssts := SSTSet_insert (installed f) (added_ssts s)\<rparr>"
  shows "level_inv s' base \<and> level_view s' base = insert (installed f) (level_view s base)
    \<and> numbers s' base = insert (sst_number f) (numbers s base)"
proof -
  have ne: "\<forall>g\<in>set (added_ssts s). sst_number g \<noteq> sst_number (installed f)"
    using assms(2) by (simp add: numbers_def image_iff) (metis UnCI)
  have "by_smallest (added_ssts s') \<and> set (added_ssts s') = insert (installed f) (set (added_ssts s))"
    unfolding assms(3) using SSTSet_insert_sorted [OF _ ne] assms(1) by (simp add: level_inv_def)
  moreover have "\<forall>g\<in>set base \<union> set (added_ssts s). sst_number g \<noteq> sst_number f"
    using assms(2) by (simp add: numbers_def image_iff) metis
  ultimately show ?thesis
    using assms(1) unfolding assms(3) by (auto simp: level_inv_def level_view_def numbers_def)
qed

section \<open>All levels under an edit\<close>

definition edit_in_range :: "nat \<Rightarrow> VersionEdit \<Rightarrow> bool" where
  "edit_in_range n e \<longleftrightarrow>
     (\<forall>p\<in>set (compact_pointers e). level_ok (int n) (fst p))
     \<and> (\<forall>d\<in>set (deleted_ssts e). level_ok (int n) (fst d))
     \<and> (\<forall>f\<in>set (new_ssts e). level_ok (int n) (fst f))"

lemma level_ok_nat: "level_ok (int n) l \<Longrightarrow> 0 \<le> l \<and> nat l < n"
  by (simp add: level_ok_def nat_less_iff)

definition set_pointers :: "(int \<times> bytes) list \<Rightarrow> bytes list \<Rightarrow> bytes list" where
  "set_pointers ps ptrs = fold (\<lambda>p ptrs. ptrs[nat (fst p) := snd p]) ps ptrs"

lemma length_set_pointers [simp]: "length (set_pointers ps ptrs) = length ptrs"
  unfolding set_pointers_def by (induction ps arbitrary: ptrs) simp_all

lemma Apply_pointers_set:
  assumes "\<forall>p\<in>set ps. level_ok (int (length ptrs)) (fst p)"
  shows "Apply_pointers ps ptrs = Some (set_pointers ps ptrs)"
  using assms
proof (induction ps arbitrary: ptrs)
  case (Cons p ps)
  then show ?case
    using Cons.IH [of "ptrs[nat (fst p) := snd p]"]
    by (cases p) (simp add: set_pointers_def at_level_def level_ok_def)
qed (simp add: set_pointers_def)

lemma Apply_deleted_levels:
  assumes "\<forall>d\<in>set ds. level_ok (int (length ls)) (fst d)"
  shows "\<exists>ls'. Apply_deleted ds ls = Some ls' \<and> length ls' = length ls
    \<and> (\<forall>l<length ls. ls' ! l = (ls ! l)\<lparr>deleted_numbers := deleted_numbers (ls ! l) \<union> {k. (int l, k) \<in> set ds}\<rparr>)"
  using assms
proof (induction ds arbitrary: ls)
  case (Cons d ds)
  obtain level k where d: "d = (level, k)" by force
  have r: "0 \<le> level" "level < int (length ls)" using Cons.prems by (simp_all add: d level_ok_def)
  let ?ls1 = "ls[nat level := (ls ! nat level)\<lparr>deleted_numbers := insert k (deleted_numbers (ls ! nat level))\<rparr>]"
  obtain ls' where ls': "Apply_deleted ds ?ls1 = Some ls'" "length ls' = length ls"
    "\<forall>l<length ls. ls' ! l = (?ls1 ! l)\<lparr>deleted_numbers := deleted_numbers (?ls1 ! l) \<union> {k. (int l, k) \<in> set ds}\<rparr>"
    using Cons.IH [of ?ls1] Cons.prems by auto
  have "ls' ! l = (ls ! l)\<lparr>deleted_numbers := deleted_numbers (ls ! l) \<union> {k. (int l, k) \<in> set (d # ds)}\<rparr>"
    if "l < length ls" for l
    using ls'(3) that r by (cases "l = nat level") (auto simp: d intro!: arg_cong [of _ _ "\<lambda>x. _\<lparr>deleted_numbers := x\<rparr>"])
  then show ?case using ls'(1,2) r by (auto simp: d at_level_def)
qed simp

lemma Apply_new_levels:
  assumes "length bases = length ls" "\<forall>f\<in>set fs. level_ok (int (length ls)) (fst f)"
    and "\<forall>l<length ls. level_inv (ls ! l) (bases ! l)"
    and "distinct (map (\<lambda>p. (fst p, sst_number (snd p))) fs)"
    and "\<forall>p\<in>set fs. sst_number (snd p) \<notin> numbers (ls ! nat (fst p)) (bases ! nat (fst p))"
  shows "\<exists>ls'. Apply_new fs ls = Some ls' \<and> length ls' = length ls
    \<and> (\<forall>l<length ls. level_inv (ls' ! l) (bases ! l)
        \<and> level_view (ls' ! l) (bases ! l) =
            level_view (ls ! l) (bases ! l) \<union> {installed f |f. (int l, f) \<in> set fs}
        \<and> numbers (ls' ! l) (bases ! l) =
            numbers (ls ! l) (bases ! l) \<union> {sst_number f |f. (int l, f) \<in> set fs})"
  using assms
proof (induction fs arbitrary: ls)
  case (Cons p fs)
  obtain level f where p: "p = (level, f)" by force
  have r: "0 \<le> level" "level < int (length ls)" using Cons.prems(2) by (simp_all add: p level_ok_def)
  have i: "nat level < length ls" using r by simp
  let ?s = "ls ! nat level" and ?base = "bases ! nat level"
  let ?s1 = "?s\<lparr>deleted_numbers := deleted_numbers ?s - {sst_number f},
      added_ssts := SSTSet_insert (installed f) (added_ssts ?s)\<rparr>"
  let ?ls1 = "ls[nat level := ?s1]"
  have s1: "level_inv ?s1 ?base" "level_view ?s1 ?base = insert (installed f) (level_view ?s ?base)"
    "numbers ?s1 ?base = insert (sst_number f) (numbers ?s ?base)"
    using Apply_new_level [OF _ _ refl, of ?s ?base f] Cons.prems(3,5) r by (auto simp: p)
  have inv: "\<forall>l<length ?ls1. level_inv (?ls1 ! l) (bases ! l)"
    using s1(1) Cons.prems(3) i by (simp add: nth_list_update)
  have fresh: "\<forall>q\<in>set fs. sst_number (snd q) \<notin> numbers (?ls1 ! nat (fst q)) (bases ! nat (fst q))"
  proof
    fix q assume q: "q \<in> set fs"
    have "level_ok (int (length ls)) (fst q)" "sst_number (snd q) \<notin> numbers (ls ! nat (fst q)) (bases ! nat (fst q))"
      using q Cons.prems(2,5) by auto
    moreover have "(fst q, sst_number (snd q)) \<noteq> (level, sst_number f)"
      using Cons.prems(4) q by (force simp: p)
    ultimately show "sst_number (snd q) \<notin> numbers (?ls1 ! nat (fst q)) (bases ! nat (fst q))"
      using s1(3) r i by (cases "nat (fst q) = nat level") (auto simp: level_ok_def nth_list_update)
  qed
  obtain ls' where ls': "Apply_new fs ?ls1 = Some ls'" "length ls' = length ls"
    "\<forall>l<length ls. level_inv (ls' ! l) (bases ! l)
        \<and> level_view (ls' ! l) (bases ! l) =
            level_view (?ls1 ! l) (bases ! l) \<union> {installed f |f. (int l, f) \<in> set fs}
        \<and> numbers (ls' ! l) (bases ! l) =
            numbers (?ls1 ! l) (bases ! l) \<union> {sst_number f |f. (int l, f) \<in> set fs}"
    using Cons.IH [of ?ls1] Cons.prems(1,2,4) inv fresh by auto
  have view: "level_view (?ls1 ! l) (bases ! l) \<union> {installed f |f. (int l, f) \<in> set fs}
      = level_view (ls ! l) (bases ! l) \<union> {installed f |f. (int l, f) \<in> set (p # fs)}" if "l < length ls" for l
    using s1(2) r that by (cases "l = nat level") (auto simp: p)
  have nums: "numbers (?ls1 ! l) (bases ! l) \<union> {sst_number f |f. (int l, f) \<in> set fs}
      = numbers (ls ! l) (bases ! l) \<union> {sst_number f |f. (int l, f) \<in> set (p # fs)}" if "l < length ls" for l
    using s1(3) r that by (cases "l = nat level") (auto simp: p)
  have "Apply_new (p # fs) ls = Some ls'" using ls'(1) r by (simp add: p at_level_def)
  then show ?case using ls'(2,3) view nums by (intro exI [of _ ls']) simp
qed simp

section \<open>Sequences of edits\<close>

definition added_key :: "int \<times> SSTMetaData \<Rightarrow> int \<times> u64" where
  "added_key p = (fst p, sst_number (snd p))"

text \<open>
  File numbers are never used twice on a level: no file an edit adds has the
  number of another added file or of a file of the base.
\<close>

definition edits_fresh :: "SSTMetaData list list \<Rightarrow> VersionEdit list \<Rightarrow> bool" where
  "edits_fresh bases es \<longleftrightarrow>
     distinct (map added_key (concat (map new_ssts es)))
     \<and> (\<forall>p\<in>set (concat (map new_ssts es)). sst_number (snd p) \<notin> sst_number ` set (bases ! nat (fst p)))"

definition builder_inv :: "Builder \<Rightarrow> bool" where
  "builder_inv b \<longleftrightarrow> length (bd_levels b) = length (v_ssts (bd_base b))
     \<and> (\<forall>l<length (bd_levels b). level_inv (bd_levels b ! l) (v_ssts (bd_base b) ! l))"

definition builder_view :: "Builder \<Rightarrow> nat \<Rightarrow> SSTMetaData set" where
  "builder_view b l = level_view (bd_levels b ! l) (v_ssts (bd_base b) ! l)"

definition builder_numbers :: "Builder \<Rightarrow> nat \<Rightarrow> u64 set" where
  "builder_numbers b l = numbers (bd_levels b ! l) (v_ssts (bd_base b) ! l)"

lemma Builder_Apply_edit:
  assumes "builder_inv b" "length ptrs = length (bd_levels b)" "edit_in_range (length ptrs) e"
    and "distinct (map added_key (new_ssts e))"
    and "\<forall>p\<in>set (new_ssts e). sst_number (snd p) \<notin> builder_numbers b (nat (fst p))"
  shows "\<exists>b'. Builder_Apply e (ptrs, b) = Some (set_pointers (compact_pointers e) ptrs, b')
    \<and> builder_inv b' \<and> bd_base b' = bd_base b \<and> length (bd_levels b') = length ptrs
    \<and> (\<forall>l<length ptrs. builder_view b' l = edit_level e l (builder_view b l)
        \<and> builder_numbers b' l = builder_numbers b l \<union> {sst_number f |f. (int l, f) \<in> set (new_ssts e)})"
proof -
  let ?bases = "v_ssts (bd_base b)" and ?ls = "bd_levels b"
  have len: "length ?bases = length ?ls" using assms(1) by (simp add: builder_inv_def)
  have ptrs: "Apply_pointers (compact_pointers e) ptrs = Some (set_pointers (compact_pointers e) ptrs)"
    using assms(3) by (intro Apply_pointers_set) (simp add: edit_in_range_def)
  obtain ls where ls: "Apply_deleted (deleted_ssts e) ?ls = Some ls" "length ls = length ?ls"
    "\<forall>l<length ?ls. ls ! l = (?ls ! l)\<lparr>deleted_numbers := deleted_numbers (?ls ! l)
        \<union> {k. (int l, k) \<in> set (deleted_ssts e)}\<rparr>"
    using Apply_deleted_levels [of "deleted_ssts e" ?ls] assms(2,3) by (auto simp: edit_in_range_def)
  have inv: "\<forall>l<length ls. level_inv (ls ! l) (?bases ! l)"
    using assms(1) ls(2,3) by (simp add: builder_inv_def level_inv_def)
  have nums: "numbers (ls ! l) (?bases ! l) = builder_numbers b l" if "l < length ls" for l
    using ls(2,3) that by (simp add: numbers_def builder_numbers_def)
  have range: "\<forall>f\<in>set (new_ssts e). level_ok (int (length ls)) (fst f)"
    using assms(2,3) ls(2) by (simp add: edit_in_range_def)
  have fresh: "\<forall>p\<in>set (new_ssts e). sst_number (snd p) \<notin> numbers (ls ! nat (fst p)) (?bases ! nat (fst p))"
    using assms(5) nums range level_ok_nat by metis
  have dist: "distinct (map (\<lambda>p. (fst p, sst_number (snd p))) (new_ssts e))"
    using assms(4) by (simp add: added_key_def [abs_def])
  obtain ls' where ls': "Apply_new (new_ssts e) ls = Some ls'" "length ls' = length ls"
    "\<forall>l<length ls. level_inv (ls' ! l) (?bases ! l)
        \<and> level_view (ls' ! l) (?bases ! l) =
            level_view (ls ! l) (?bases ! l) \<union> {installed f |f. (int l, f) \<in> set (new_ssts e)}
        \<and> numbers (ls' ! l) (?bases ! l) =
            numbers (ls ! l) (?bases ! l) \<union> {sst_number f |f. (int l, f) \<in> set (new_ssts e)}"
    using Apply_new_levels [of ?bases ls, OF _ range inv dist fresh] len ls(2) by auto
  have view: "level_view (ls ! l) (?bases ! l) =
      {f \<in> builder_view b l. (int l, sst_number f) \<notin> set (deleted_ssts e)}" if "l < length ls" for l
    using ls(2,3) that by (auto simp: level_view_def builder_view_def)
  show ?thesis
    using ls' ls(1,2) ptrs assms(2) len view nums
    by (intro exI [of _ "b\<lparr>bd_levels := ls'\<rparr>"])
      (simp add: Builder_Apply_def builder_inv_def builder_view_def builder_numbers_def edit_level_def)
qed

lemma Builder_Apply_all_edits:
  assumes "builder_inv b" "length ptrs = length (bd_levels b)" "\<forall>e\<in>set es. edit_in_range (length ptrs) e"
    and "distinct (map added_key (concat (map new_ssts es)))"
    and "\<forall>p\<in>set (concat (map new_ssts es)). sst_number (snd p) \<notin> builder_numbers b (nat (fst p))"
  shows "\<exists>b'. Builder_Apply_all es (ptrs, b) = Some (fold (\<lambda>e. set_pointers (compact_pointers e)) es ptrs, b')
    \<and> builder_inv b' \<and> bd_base b' = bd_base b \<and> length (bd_levels b') = length ptrs
    \<and> (\<forall>l<length ptrs. builder_view b' l = fold (\<lambda>e. edit_level e l) es (builder_view b l))"
  using assms
proof (induction es arbitrary: ptrs b)
  case (Cons e es)
  obtain b1 where b1: "Builder_Apply e (ptrs, b) = Some (set_pointers (compact_pointers e) ptrs, b1)"
    "builder_inv b1" "bd_base b1 = bd_base b" "length (bd_levels b1) = length ptrs"
    "\<forall>l<length ptrs. builder_view b1 l = edit_level e l (builder_view b l)
        \<and> builder_numbers b1 l = builder_numbers b l \<union> {sst_number f |f. (int l, f) \<in> set (new_ssts e)}"
    using Builder_Apply_edit [OF Cons.prems(1,2), of e] Cons.prems(3-5) by auto
  let ?ptrs = "set_pointers (compact_pointers e) ptrs"
  have fresh: "sst_number (snd p) \<notin> builder_numbers b1 (nat (fst p))"
    if p: "p \<in> set (concat (map new_ssts es))" for p
  proof -
    have "level_ok (int (length ptrs)) (fst p)" using Cons.prems(3) p by (auto simp: edit_in_range_def)
    then have lev: "0 \<le> fst p" "nat (fst p) < length ptrs" using level_ok_nat by blast+
    have "added_key p \<notin> added_key ` set (new_ssts e)" using Cons.prems(4) p by auto
    then have "sst_number (snd p) \<notin> {sst_number f |f. (int (nat (fst p)), f) \<in> set (new_ssts e)}"
      using lev(1) by (force simp: added_key_def image_iff)
    then show ?thesis using b1(5) lev(2) Cons.prems(5) p by auto
  qed
  obtain b' where "Builder_Apply_all es (?ptrs, b1) = Some (fold (\<lambda>e. set_pointers (compact_pointers e)) es ?ptrs, b')"
    "builder_inv b'" "bd_base b' = bd_base b1" "length (bd_levels b') = length ?ptrs"
    "\<forall>l<length ?ptrs. builder_view b' l = fold (\<lambda>e. edit_level e l) es (builder_view b1 l)"
    using Cons.IH [OF b1(2), of ?ptrs] b1(4) Cons.prems(3,4) fresh by auto
  then show ?case using b1 by (intro exI [of _ b']) simp
qed simp

text \<open>The version a base becomes by a sequence of edits through one builder.\<close>

definition apply_edits :: "VersionEdit list \<Rightarrow> bytes list \<times> SSTMetaData list list \<Rightarrow>
    (bytes list \<times> SSTMetaData list list) option" where
  "apply_edits es s =
     (case s of (ptrs, ssts) \<Rightarrow>
        let n = length ssts in
        map_option (\<lambda>(ptrs', b). (ptrs', v_ssts (Builder_SaveTo b (Version_new n))))
          (Builder_Apply_all es (ptrs, Builder_new ((Version_new n)\<lparr>v_ssts := ssts\<rparr>))))"

fun apply_each :: "VersionEdit list \<Rightarrow> bytes list \<times> SSTMetaData list list \<Rightarrow>
    (bytes list \<times> SSTMetaData list list) option" where
  "apply_each [] s = Some s"
| "apply_each (e # es) s = (case apply_edits [e] s of None \<Rightarrow> None | Some s' \<Rightarrow> apply_each es s')"

lemma Builder_new_inv:
  assumes "\<forall>l<length (v_ssts base). by_smallest (v_ssts base ! l)"
  shows "builder_inv (Builder_new base)"
    "l < length (v_ssts base) \<Longrightarrow> builder_view (Builder_new base) l = set (v_ssts base ! l)"
    "l < length (v_ssts base) \<Longrightarrow> builder_numbers (Builder_new base) l = sst_number ` set (v_ssts base ! l)"
  using assms
  by (auto simp: builder_inv_def builder_view_def builder_numbers_def Builder_new_def level_inv_def
      level_view_def numbers_def)

lemma Builder_SaveTo_view:
  assumes "builder_inv b" "length (bd_levels b) = n" "l < n"
  shows "by_smallest (v_ssts (Builder_SaveTo b (Version_new n)) ! l)
    \<and> set (v_ssts (Builder_SaveTo b (Version_new n)) ! l) = builder_view b l"
  using assms SaveTo_level_view [of "bd_levels b ! l" "v_ssts (bd_base b) ! l"]
  by (simp add: builder_inv_def builder_view_def Builder_SaveTo_def Version_new_def)

lemma apply_edits_view:
  assumes "\<forall>l<length ssts. by_smallest (ssts ! l)" "length ptrs = length ssts"
    and "\<forall>e\<in>set es. edit_in_range (length ssts) e" "edits_fresh ssts es"
  shows "\<exists>ssts'. apply_edits es (ptrs, ssts) = Some (fold (\<lambda>e. set_pointers (compact_pointers e)) es ptrs, ssts')
    \<and> length ssts' = length ssts
    \<and> (\<forall>l<length ssts. by_smallest (ssts' ! l)
        \<and> set (ssts' ! l) = fold (\<lambda>e. edit_level e l) es (set (ssts ! l)))"
proof -
  let ?n = "length ssts"
  let ?base = "(Version_new ?n)\<lparr>v_ssts := ssts\<rparr>"
  note new = Builder_new_inv [of ?base, simplified]
  have len: "length (bd_levels (Builder_new ?base)) = ?n" by (simp add: Builder_new_def)
  have fresh: "\<forall>p\<in>set (concat (map new_ssts es)). sst_number (snd p) \<notin> builder_numbers (Builder_new ?base) (nat (fst p))"
  proof
    fix p assume p: "p \<in> set (concat (map new_ssts es))"
    then have "nat (fst p) < ?n" using assms(3) level_ok_nat by (auto simp: edit_in_range_def)
    then have eq: "builder_numbers (Builder_new ?base) (nat (fst p)) = sst_number ` set (ssts ! nat (fst p))"
      using new(3) [OF assms(1)] by simp
    show "sst_number (snd p) \<notin> builder_numbers (Builder_new ?base) (nat (fst p))"
      unfolding eq using p assms(4) unfolding edits_fresh_def by blast
  qed
  obtain b where b: "Builder_Apply_all es (ptrs, Builder_new ?base)
      = Some (fold (\<lambda>e. set_pointers (compact_pointers e)) es ptrs, b)"
    "builder_inv b" "length (bd_levels b) = ?n"
    "\<forall>l<?n. builder_view b l = fold (\<lambda>e. edit_level e l) es (builder_view (Builder_new ?base) l)"
    using Builder_Apply_all_edits [OF new(1) [OF assms(1)], of ptrs es] len assms(2-4) fresh
    by (auto simp: edits_fresh_def)
  have "length (v_ssts (Builder_SaveTo b (Version_new ?n))) = ?n"
    by (simp add: Builder_SaveTo_def Version_new_def)
  then show ?thesis
    using b(1,4) Builder_SaveTo_view [OF b(2,3)] new(2) [OF assms(1)]
    by (simp add: apply_edits_def)
qed

lemma fold_edit_numbers:
  "sst_number ` fold (\<lambda>e. edit_level e l) es S
     \<subseteq> sst_number ` S \<union> {sst_number f |f. (int l, f) \<in> set (concat (map new_ssts es))}"
proof (induction es arbitrary: S)
  case (Cons e es)
  have "sst_number ` edit_level e l S \<subseteq> sst_number ` S \<union> {sst_number f |f. (int l, f) \<in> set (new_ssts e)}"
    by (auto simp: edit_level_def)
  then have "sst_number ` edit_level e l S \<union> {sst_number f |f. (int l, f) \<in> set (concat (map new_ssts es))}
      \<subseteq> sst_number ` S \<union> {sst_number f |f. (int l, f) \<in> set (concat (map new_ssts (e # es)))}"
    by auto
  with Cons.IH [of "edit_level e l S"] show ?case unfolding fold_simps by (rule order_trans)
qed simp

section \<open>A compaction and a flush\<close>

definition demo_ssts :: "SSTMetaData list list" where
  "demo_ssts = v_ssts demo_version"

definition demo_edits :: "VersionEdit list" where
  "demo_edits =
     [AddSST 1 8 4096 (InternalKey [1] 9 kTypeValue) (InternalKey [1] 9 kTypeValue)
        (RemoveSST 1 3 (RemoveSST 0 7 (AppendCompactPointer 0 [1] VersionEdit_Clear))),
      AddSST 0 9 2048 (InternalKey [2] 11 kTypeValue) (InternalKey [5] 12 kTypeDeletion) VersionEdit_Clear]"

lemma demo_edits_ok:
  "\<forall>l<length demo_ssts. by_smallest (demo_ssts ! l)" "length [[], []] = length demo_ssts"
  "\<forall>e\<in>set demo_edits. edit_in_range (length demo_ssts) e" "edits_fresh demo_ssts demo_edits"
  by (auto simp: demo_ssts_def demo_version_def demo_edits_def edit_in_range_def edits_fresh_def added_key_def
      AddSST_def RemoveSST_def AppendCompactPointer_def VersionEdit_Clear_def level_ok_def SSTMetaData_new_def
      Version_new_def level_file_less_def Let_def less_Suc_eq)

text \<open>
  C17: The builder realises the meaning of the edits.  For edits whose levels are
  in the tree and whose file numbers are fresh, applied to a version whose
  levels are sorted, the builder never leaves its arrays, and every level of
  the saved version is sorted and holds exactly the files that the edits, one
  after the other, leave of the base: without the deleted ones, with the added
  ones.
\<close>

theorem Builder_refines_edits:
  assumes "\<forall>l<length ssts. by_smallest (ssts ! l)" "length ptrs = length ssts"
    and "\<forall>e\<in>set es. edit_in_range (length ssts) e" "edits_fresh ssts es"
  shows "\<exists>ptrs' b. Builder_Apply_all es (ptrs, Builder_new ((Version_new (length ssts))\<lparr>v_ssts := ssts\<rparr>)) = Some (ptrs', b)
    \<and> (\<forall>l<length ssts. by_smallest (v_ssts (Builder_SaveTo b (Version_new (length ssts))) ! l)
        \<and> set (v_ssts (Builder_SaveTo b (Version_new (length ssts))) ! l)
            = fold (\<lambda>e. edit_level e l) es (set (ssts ! l)))"
  using apply_edits_view [OF assms] by (auto simp: apply_edits_def Let_def)

lemma Builder_refines_edits_witness:
  "\<exists>ptrs' b. Builder_Apply_all demo_edits ([[], []], Builder_new ((Version_new 2)\<lparr>v_ssts := demo_ssts\<rparr>)) = Some (ptrs', b)
    \<and> sst_number ` set (v_ssts (Builder_SaveTo b (Version_new 2)) ! 1) = {8}"
proof -
  have n: "length demo_ssts = 2" by (simp add: demo_ssts_def demo_version_def)
  have "fold (\<lambda>e. edit_level e 1) demo_edits (set (demo_ssts ! 1))
      = {installed (SSTMetaData_new 8 4096 (InternalKey [1] 9 kTypeValue) (InternalKey [1] 9 kTypeValue))}"
    by (auto simp: demo_ssts_def demo_version_def demo_edits_def edit_level_def AddSST_def RemoveSST_def
        AppendCompactPointer_def VersionEdit_Clear_def SSTMetaData_new_def level_file_less_def)
  then show ?thesis
    using Builder_refines_edits [OF demo_edits_ok, unfolded n] by (fastforce simp: SSTMetaData_new_def)
qed

text \<open>
  C18: Recovery rebuilds the version the store was using.  Replaying the edits
  of a manifest through one builder, as \<^verbatim>\<open>Recover\<close> does, gives the same compact
  pointers and the same files in the same order as installing them one by one
  with a builder each, as \<^verbatim>\<open>LogAndApply\<close> did.
\<close>

theorem Builder_batch_equiv:
  assumes "\<forall>l<length ssts. by_smallest (ssts ! l)" "length ptrs = length ssts"
    and "\<forall>e\<in>set es. edit_in_range (length ssts) e" "edits_fresh ssts es"
  shows "apply_edits es (ptrs, ssts) = apply_each es (ptrs, ssts)
    \<and> apply_edits es (ptrs, ssts) \<noteq> None"
  using assms
proof (induction es arbitrary: ptrs ssts)
  case Nil
  obtain ssts' where ssts': "apply_edits [] (ptrs, ssts) = Some (ptrs, ssts')" "length ssts' = length ssts"
    "\<forall>l<length ssts. by_smallest (ssts' ! l) \<and> set (ssts' ! l) = set (ssts ! l)"
    using apply_edits_view [OF Nil] by auto
  then have "ssts' = ssts" using Nil(1) by (intro levels_unique) auto
  then show ?case using ssts' by simp
next
  case (Cons e es)
  have fresh1: "edits_fresh ssts [e]" using Cons.prems(4) by (auto simp: edits_fresh_def)
  obtain ssts1 where s1: "apply_edits [e] (ptrs, ssts) = Some (set_pointers (compact_pointers e) ptrs, ssts1)"
    "length ssts1 = length ssts"
    "\<forall>l<length ssts. by_smallest (ssts1 ! l) \<and> set (ssts1 ! l) = edit_level e l (set (ssts ! l))"
    using apply_edits_view [OF Cons.prems(1,2) _ fresh1] Cons.prems(3) by auto
  have fresh2: "edits_fresh ssts1 es"
    unfolding edits_fresh_def
  proof (intro conjI ballI)
    show "distinct (map added_key (concat (map new_ssts es)))" using Cons.prems(4) by (simp add: edits_fresh_def)
    fix p assume p: "p \<in> set (concat (map new_ssts es))"
    then have "level_ok (int (length ssts)) (fst p)" using Cons.prems(3) by (auto simp: edit_in_range_def)
    then have lev: "0 \<le> fst p" "nat (fst p) < length ssts" using level_ok_nat by blast+
    have "added_key p \<notin> added_key ` set (new_ssts e)" "sst_number (snd p) \<notin> sst_number ` set (ssts ! nat (fst p))"
      using Cons.prems(4) p by (auto simp: edits_fresh_def)
    then show "sst_number (snd p) \<notin> sst_number ` set (ssts1 ! nat (fst p))"
      using fold_edit_numbers [of "nat (fst p)" "[e]" "set (ssts ! nat (fst p))"] s1(3) lev
      by (force simp: added_key_def image_iff)
  qed
  let ?ptrs1 = "set_pointers (compact_pointers e) ptrs"
  have pre: "\<forall>l<length ssts1. by_smallest (ssts1 ! l)" "length ?ptrs1 = length ssts1"
    "\<forall>e\<in>set es. edit_in_range (length ssts1) e"
    using s1(2,3) Cons.prems(2,3) by simp_all
  obtain ssts' where a: "apply_edits (e # es) (ptrs, ssts)
      = Some (fold (\<lambda>e. set_pointers (compact_pointers e)) es ?ptrs1, ssts')" "length ssts' = length ssts"
    "\<forall>l<length ssts. by_smallest (ssts' ! l)
        \<and> set (ssts' ! l) = fold (\<lambda>e. edit_level e l) es (edit_level e l (set (ssts ! l)))"
    using apply_edits_view [OF Cons.prems] by auto
  obtain ssts2 where b: "apply_edits es (?ptrs1, ssts1)
      = Some (fold (\<lambda>e. set_pointers (compact_pointers e)) es ?ptrs1, ssts2)" "length ssts2 = length ssts1"
    "\<forall>l<length ssts1. by_smallest (ssts2 ! l) \<and> set (ssts2 ! l) = fold (\<lambda>e. edit_level e l) es (set (ssts1 ! l))"
    using apply_edits_view [OF pre fresh2] by auto
  have "ssts' = ssts2"
    using a(2,3) b(2,3) s1(2,3) by (intro levels_unique) auto
  then have "apply_edits (e # es) (ptrs, ssts) = apply_edits es (?ptrs1, ssts1)" using a(1) b(1) by simp
  moreover have "apply_each (e # es) (ptrs, ssts) = apply_each es (?ptrs1, ssts1)" using s1(1) by simp
  ultimately show ?case using Cons.IH [OF pre fresh2] by metis
qed

lemma Builder_batch_equiv_witness:
  "\<exists>s1. apply_edits [demo_edits ! 0] ([[], []], demo_ssts) = Some s1
    \<and> apply_edits demo_edits ([[], []], demo_ssts) = apply_edits [demo_edits ! 1] s1"
proof -
  have e: "demo_edits = [demo_edits ! 0, demo_edits ! 1]" by (simp add: demo_edits_def)
  have "apply_edits demo_edits ([[], []], demo_ssts) = apply_each [demo_edits ! 0, demo_edits ! 1] ([[], []], demo_ssts)"
    "apply_edits demo_edits ([[], []], demo_ssts) \<noteq> None"
    using Builder_batch_equiv [OF demo_edits_ok] e by metis+
  then show ?thesis by (simp split: option.splits)
qed

end
