(* ===== verification/Files.thy ===== *)
theory Files
  imports Status
begin

text \<open>
  The POSIX file wrappers of \<^verbatim>\<open>src/wal/writeable_file.cc\<close>,
  \<^verbatim>\<open>src/wal/include/writable_file.h\<close>, \<^verbatim>\<open>src/wal/sequential_file.cc\<close> and
  \<^verbatim>\<open>src/wal/include/sequential_file.h\<close>.  The operating system is the list of
  the outcomes of the system calls to come; when the list is used up, calls
  succeed.  \<^verbatim>\<open>EINTR\<close> is retried by the code and is not an outcome.
\<close>

section \<open>Writable files\<close>

datatype WriteOutcome = Wrote nat | WriteFailed errno

text \<open>
  \<^verbatim>\<open>wf_buf\<close> holds the first \<^verbatim>\<open>pos_\<close> bytes of \<^verbatim>\<open>buf_\<close>; \<^verbatim>\<open>wf_cache\<close> is what the
  operating system has received, and \<^verbatim>\<open>wf_durable\<close> how much of it an
  \<^verbatim>\<open>fsync\<close> has made durable.  \<^verbatim>\<open>wf_dir_syncs\<close> records the directories
  synchronised for a manifest.
\<close>

record WritableFile =
  wf_filename :: bytes
  wf_dirname :: bytes
  wf_is_manifest :: bool
  wf_buf :: bytes
  wf_cache :: bytes
  wf_durable :: nat
  wf_open :: bool
  wf_dir_syncs :: "bytes list"
  wf_writes :: "WriteOutcome list"
  wf_syncs :: "errno option list"

definition kWritableFileBufferSize :: nat where
  "kWritableFileBufferSize = 65536"

text \<open>\<^verbatim>\<open>Basename\<close> and \<^verbatim>\<open>Dirname\<close> look for the last slash, byte 0x2F.\<close>

fun rfind_slash :: "bytes \<Rightarrow> nat option" where
  "rfind_slash [] = None"
| "rfind_slash (c # s) =
     (case rfind_slash s of
        Some n \<Rightarrow> Some (Suc n)
      | None \<Rightarrow> if c = 0x2F then Some 0 else None)"

definition Basename :: "bytes \<Rightarrow> bytes" where
  "Basename filename =
     (case rfind_slash filename of None \<Rightarrow> filename | Some n \<Rightarrow> drop (n + 1) filename)"

definition Dirname :: "bytes \<Rightarrow> bytes" where
  "Dirname filename =
     (case rfind_slash filename of None \<Rightarrow> [0x2E] | Some n \<Rightarrow> take n filename)"

definition IsManifest :: "bytes \<Rightarrow> bool" where
  "IsManifest filename = (take 8 (Basename filename) = text_bytes ''MANIFEST'')"

text \<open>
  The constructor moves \<^verbatim>\<open>filename\<close> into \<^verbatim>\<open>filename_\<close> before it computes
  \<^verbatim>\<open>dirname_(Dirname(filename))\<close>, so \<^verbatim>\<open>Dirname\<close> sees what the move left: the
  parameter \<^verbatim>\<open>moved_from\<close> (the standard leaves it unspecified; the usual
  libraries leave the empty string).
\<close>

definition WritableFile_new ::
    "(bytes \<Rightarrow> bytes) \<Rightarrow> bytes \<Rightarrow> bytes \<Rightarrow> WriteOutcome list \<Rightarrow> errno option list \<Rightarrow> WritableFile"
where
  "WritableFile_new moved_from filename existing writes syncs =
     \<lparr> wf_filename = filename, wf_dirname = Dirname (moved_from filename),
       wf_is_manifest = IsManifest filename, wf_buf = [], wf_cache = existing,
       wf_durable = 0, wf_open = True, wf_dir_syncs = [], wf_writes = writes, wf_syncs = syncs \<rparr>"

text \<open>
  The loop of \<^verbatim>\<open>WriteUnbuffered\<close>: \<^verbatim>\<open>write\<close> may accept a part of the data; the
  rest is offered again.
\<close>

fun WriteUnbuffered_loop ::
    "bytes \<Rightarrow> bytes \<Rightarrow> bytes \<Rightarrow> WriteOutcome list \<Rightarrow> Status \<times> bytes \<times> WriteOutcome list" where
  "WriteUnbuffered_loop name data cache os =
     (if data = [] then (Status_OK, cache, os)
      else case os of
             [] \<Rightarrow> (Status_OK, cache @ data, [])
           | WriteFailed e # os' \<Rightarrow> (PosixError name e, cache, os')
           | Wrote n # os' \<Rightarrow> WriteUnbuffered_loop name (drop n data) (cache @ take n data) os')"

declare WriteUnbuffered_loop.simps [simp del]

definition WriteUnbuffered :: "bytes \<Rightarrow> WritableFile \<Rightarrow> Status \<times> WritableFile" where
  "WriteUnbuffered data f =
     (let (s, cache, os) = WriteUnbuffered_loop (wf_filename f) data (wf_cache f) (wf_writes f)
      in (s, f\<lparr>wf_cache := cache, wf_writes := os\<rparr>))"

definition FlushBuffer :: "WritableFile \<Rightarrow> Status \<times> WritableFile" where
  "FlushBuffer f =
     (let (status, f') = WriteUnbuffered (wf_buf f) f in (status, f'\<lparr>wf_buf := []\<rparr>))"

definition WritableFile_Append :: "WritableFile \<Rightarrow> bytes \<Rightarrow> Status \<times> WritableFile" where
  "WritableFile_Append f data =
     (let copy_size = min (length data) (kWritableFileBufferSize - length (wf_buf f));
          f1 = f\<lparr>wf_buf := wf_buf f @ take copy_size data\<rparr>;
          write_data = drop copy_size data
      in if write_data = [] then (Status_OK, f1)
         else
           let (status, f2) = FlushBuffer f1 in
           if \<not> ok status then (status, f2)
           else if length write_data < kWritableFileBufferSize
           then (Status_OK, f2\<lparr>wf_buf := write_data\<rparr>)
           else WriteUnbuffered write_data f2)"

definition WritableFile_Flush :: "WritableFile \<Rightarrow> Status \<times> WritableFile" where
  "WritableFile_Flush f = FlushBuffer f"

text \<open>
  \<^verbatim>\<open>SyncFd\<close> on the file itself makes the whole cache durable; on a directory it
  is recorded.  Opening the directory and synchronising it share one outcome.
\<close>

definition SyncFd :: "bytes \<Rightarrow> WritableFile \<Rightarrow> Status \<times> WritableFile" where
  "SyncFd fd_path f =
     (case wf_syncs f of
        Some e # os \<Rightarrow> (PosixError fd_path e, f\<lparr>wf_syncs := os\<rparr>)
      | None # os \<Rightarrow> (Status_OK, f\<lparr>wf_syncs := os\<rparr>)
      | [] \<Rightarrow> (Status_OK, f))"

definition SyncDirIfManifest :: "WritableFile \<Rightarrow> Status \<times> WritableFile" where
  "SyncDirIfManifest f =
     (if \<not> wf_is_manifest f then (Status_OK, f)
      else
        let (status, f1) = SyncFd (wf_dirname f) f in
        if ok status then (status, f1\<lparr>wf_dir_syncs := wf_dir_syncs f1 @ [wf_dirname f]\<rparr>)
        else (status, f1))"

definition WritableFile_Sync :: "WritableFile \<Rightarrow> Status \<times> WritableFile" where
  "WritableFile_Sync f =
     (let (status, f1) = SyncDirIfManifest f in
      if \<not> ok status then (status, f1)
      else
        let (status, f2) = FlushBuffer f1 in
        if \<not> ok status then (status, f2)
        else
          let (status, f3) = SyncFd (wf_filename f2) f2 in
          if ok status then (status, f3\<lparr>wf_durable := length (wf_cache f3)\<rparr>)
          else (status, f3))"

definition WritableFile_Close :: "errno option \<Rightarrow> WritableFile \<Rightarrow> Status \<times> WritableFile" where
  "WritableFile_Close close_result f =
     (let (status, f1) = FlushBuffer f;
          status' = (case close_result of
                       Some e \<Rightarrow> if ok status then PosixError (wf_filename f1) e else status
                     | None \<Rightarrow> status)
      in (status', f1\<lparr>wf_open := False\<rparr>))"

section \<open>Sequential files\<close>

record SequentialFile =
  sf_filename :: bytes
  sf_rest :: bytes
  sf_calls :: "errno option list"

definition SequentialFile_Read :: "nat \<Rightarrow> SequentialFile \<Rightarrow> Status \<times> bytes option \<times> SequentialFile" where
  "SequentialFile_Read n f =
     (case sf_calls f of
        Some e # os \<Rightarrow> (PosixError (sf_filename f) e, None, f\<lparr>sf_calls := os\<rparr>)
      | None # os \<Rightarrow>
          (Status_OK, Some (take n (sf_rest f)), f\<lparr>sf_rest := drop n (sf_rest f), sf_calls := os\<rparr>)
      | [] \<Rightarrow> (Status_OK, Some (take n (sf_rest f)), f\<lparr>sf_rest := drop n (sf_rest f)\<rparr>))"

definition SequentialFile_Skip :: "nat \<Rightarrow> SequentialFile \<Rightarrow> Status \<times> SequentialFile" where
  "SequentialFile_Skip n f =
     (case sf_calls f of
        Some e # os \<Rightarrow> (PosixError (sf_filename f) e, f\<lparr>sf_calls := os\<rparr>)
      | None # os \<Rightarrow> (Status_OK, f\<lparr>sf_rest := drop n (sf_rest f), sf_calls := os\<rparr>)
      | [] \<Rightarrow> (Status_OK, f\<lparr>sf_rest := drop n (sf_rest f)\<rparr>))"

text \<open>The loop of \<^verbatim>\<open>ReadFileToString\<close>, which reads 8192 bytes at a time.\<close>

function ReadFileToString_loop :: "SequentialFile \<Rightarrow> bytes \<Rightarrow> Status \<times> bytes" where
  "ReadFileToString_loop file data =
     (case SequentialFile_Read 8192 file of
        (s, None, file') \<Rightarrow> (s, data)
      | (s, Some fragment, file') \<Rightarrow>
          if \<not> ok s then (s, data)
          else if fragment = [] then (s, data @ fragment)
          else ReadFileToString_loop file' (data @ fragment))"
  by auto
termination
  by (relation "measure (\<lambda>(file, data). length (sf_rest file))")
    (auto simp: SequentialFile_Read_def split: list.splits option.splits)

declare ReadFileToString_loop.simps [simp del]

section \<open>What an appender relies on\<close>

text \<open>
  The contract between a log writer and its file: \<^verbatim>\<open>written\<close> is the byte
  string the file stands for (received by the operating system or buffered), a
  successful append extends it, a flush keeps it, and a file ahead of which no
  system call fails does not fail.
\<close>

locale log_file =
  fixes append :: "'f \<Rightarrow> bytes \<Rightarrow> Status \<times> 'f"
    and flush :: "'f \<Rightarrow> Status \<times> 'f"
    and written :: "'f \<Rightarrow> bytes"
    and healthy :: "'f \<Rightarrow> bool"
  assumes append_written: "append f d = (s, f') \<Longrightarrow> ok s \<Longrightarrow> written f' = written f @ d"
    and flush_written: "flush f = (s, f') \<Longrightarrow> ok s \<Longrightarrow> written f' = written f"
    and append_healthy: "healthy f \<Longrightarrow> append f d = (s, f') \<Longrightarrow> ok s \<and> healthy f'"
    and flush_healthy: "healthy f \<Longrightarrow> flush f = (s, f') \<Longrightarrow> ok s \<and> healthy f'"
begin

lemma append_healthy_written:
  "healthy f \<Longrightarrow> append f d = (s, f') \<Longrightarrow> ok s \<and> healthy f' \<and> written f' = written f @ d"
  using append_healthy append_written by blast

lemma flush_healthy_written:
  "healthy f \<Longrightarrow> flush f = (s, f') \<Longrightarrow> ok s \<and> healthy f' \<and> written f' = written f"
  using flush_healthy flush_written by blast

end

section \<open>Correctness of the writable file\<close>

definition wf_written :: "WritableFile \<Rightarrow> bytes" where
  "wf_written f = wf_cache f @ wf_buf f"

definition wf_healthy :: "WritableFile \<Rightarrow> bool" where
  "wf_healthy f = (\<forall>os\<in>set (wf_writes f). case os of WriteFailed e \<Rightarrow> False | Wrote n \<Rightarrow> True)"

lemma WriteUnbuffered_loop_result:
  assumes "WriteUnbuffered_loop name data cache os = (s, cache', os')"
  shows "(ok s \<longrightarrow> cache' = cache @ data) \<and> (\<exists>n. cache' = cache @ take n data) \<and> set os' \<subseteq> set os
    \<and> (list_all (\<lambda>w. case w of WriteFailed e \<Rightarrow> False | Wrote n \<Rightarrow> True) os \<longrightarrow> ok s)"
  using assms
proof (induction os arbitrary: data cache)
  case Nil
  then show ?case
    by (auto simp: WriteUnbuffered_loop.simps split: if_splits intro: exI [of _ "length data"])
next
  case (Cons w os)
  show ?case
  proof (cases "data = []")
    case False
    show ?thesis
    proof (cases w)
      case (Wrote n)
      with Cons.prems False
      have "WriteUnbuffered_loop name (drop n data) (cache @ take n data) os = (s, cache', os')"
        by (simp add: WriteUnbuffered_loop.simps [of _ _ _ "_ # _"])
      from Cons.IH [OF this] Wrote obtain m
        where "cache' = (cache @ take n data) @ take m (drop n data)"
          "ok s \<longrightarrow> cache' = cache @ data" "set os' \<subseteq> set os"
          "list_all (\<lambda>w. case w of WriteFailed e \<Rightarrow> False | Wrote n \<Rightarrow> True) os \<longrightarrow> ok s"
        by auto
      moreover from this have "cache' = cache @ take (n + m) data"
        by (simp add: take_add)
      then have "\<exists>k. cache' = cache @ take k data" by blast
      ultimately show ?thesis using Wrote by (intro conjI) (simp_all add: subset_insertI2)
    next
      case (WriteFailed e)
      with Cons.prems False show ?thesis
        by (auto simp: WriteUnbuffered_loop.simps [of _ _ _ "_ # _"] intro: exI [of _ 0])
    qed
  qed (use Cons.prems in \<open>auto simp: WriteUnbuffered_loop.simps\<close>)
qed

lemma WriteUnbuffered_result:
  assumes "WriteUnbuffered data f = (s, f')"
  shows "ok s \<Longrightarrow> wf_cache f' = wf_cache f @ data"
    and "\<exists>n. wf_cache f' = wf_cache f @ take n data"
    and "wf_healthy f \<Longrightarrow> ok s \<and> wf_healthy f'"
    and "wf_buf f' = wf_buf f"
proof -
  obtain cache os where c: "WriteUnbuffered_loop (wf_filename f) data (wf_cache f) (wf_writes f) =
      (s, cache, os)" "f' = f\<lparr>wf_cache := cache, wf_writes := os\<rparr>"
    using assms by (auto simp: WriteUnbuffered_def split: prod.splits)
  note r = WriteUnbuffered_loop_result [OF c(1)]
  show "ok s \<Longrightarrow> wf_cache f' = wf_cache f @ data" "\<exists>n. wf_cache f' = wf_cache f @ take n data"
    "wf_buf f' = wf_buf f"
    using r c(2) by simp_all
  show "wf_healthy f \<Longrightarrow> ok s \<and> wf_healthy f'"
    using r c(2) by (auto simp: wf_healthy_def list_all_iff)
qed

lemma FlushBuffer_result:
  assumes "FlushBuffer f = (s, f')"
  shows "ok s \<Longrightarrow> wf_cache f' = wf_written f"
    and "\<exists>n. wf_cache f' = take n (wf_written f)"
    and "wf_healthy f \<Longrightarrow> ok s \<and> wf_healthy f'"
    and "wf_buf f' = []"
proof -
  obtain f1 where f1: "WriteUnbuffered (wf_buf f) f = (s, f1)" "f' = f1\<lparr>wf_buf := []\<rparr>"
    using assms by (auto simp: FlushBuffer_def split: prod.splits)
  note r = WriteUnbuffered_result [OF f1(1)]
  show "ok s \<Longrightarrow> wf_cache f' = wf_written f" using r(1) f1(2) by (simp add: wf_written_def)
  obtain n where "wf_cache f1 = wf_cache f @ take n (wf_buf f)" using r(2) by auto
  then have "wf_cache f' = take (length (wf_cache f) + n) (wf_written f)"
    using f1(2) by (simp add: wf_written_def)
  then show "\<exists>n. wf_cache f' = take n (wf_written f)" by blast
  show "wf_healthy f \<Longrightarrow> ok s \<and> wf_healthy f'" using r(3) f1(2) by (simp add: wf_healthy_def)
  show "wf_buf f' = []" using f1(2) by simp
qed

lemma WritableFile_Append_result:
  assumes "WritableFile_Append f d = (s, f')"
  shows "ok s \<Longrightarrow> wf_written f' = wf_written f @ d"
    and "\<exists>n. wf_cache f' = take n (wf_written f @ d)"
    and "wf_healthy f \<Longrightarrow> ok s \<and> wf_healthy f'"
proof -
  define n where "n = min (length d) (kWritableFileBufferSize - length (wf_buf f))"
  define f1 where "f1 = f\<lparr>wf_buf := wf_buf f @ take n d\<rparr>"
  obtain sf f2 where f2: "FlushBuffer f1 = (sf, f2)" by (cases "FlushBuffer f1")
  note flush = FlushBuffer_result [OF f2]
  have w1: "wf_written f1 @ drop n d = wf_written f @ d" by (simp add: f1_def wf_written_def)
  have h1: "wf_healthy f1 = wf_healthy f" by (simp add: f1_def wf_healthy_def)
  consider "drop n d = []" "s = Status_OK" "f' = f1"
    | "\<not> ok sf" "s = sf" "f' = f2"
    | "ok sf" "s = Status_OK" "f' = f2\<lparr>wf_buf := drop n d\<rparr>"
    | "ok sf" "WriteUnbuffered (drop n d) f2 = (s, f')"
    using assms f2 by (auto simp: WritableFile_Append_def Let_def n_def f1_def split: if_splits)
  then have "(ok s \<longrightarrow> wf_written f' = wf_written f @ d) \<and> (\<exists>n. wf_cache f' = take n (wf_written f @ d))
      \<and> (wf_healthy f \<longrightarrow> ok s \<and> wf_healthy f')"
  proof cases
    case 1
    then have "wf_cache f' = take (length (wf_cache f)) (wf_written f @ d)"
      by (simp add: f1_def wf_written_def)
    with 1 w1 h1 show ?thesis by auto
  next
    case 2
    obtain k where "wf_cache f2 = take k (wf_written f1)" using flush(2) by auto
    also have "\<dots> = take (min k (length (wf_written f1))) (wf_written f1 @ drop n d)"
      by (simp add: min_def)
    finally show ?thesis using 2 flush(3) h1 unfolding w1 by auto
  next
    case 3
    have "wf_cache f' = take (length (wf_written f1)) (wf_written f @ d)"
      using flush(1) 3 by (simp add: w1 [symmetric])
    moreover have "wf_written f' = wf_written f @ d"
      using flush(1) 3 by (simp add: w1 [symmetric]) (simp add: wf_written_def)
    moreover have "wf_healthy f \<Longrightarrow> ok s \<and> wf_healthy f'"
      using 3 flush(3) h1 by (simp add: wf_healthy_def)
    ultimately show ?thesis by blast
  next
    case 4
    note r = WriteUnbuffered_result [OF 4(2)]
    obtain k where "wf_cache f' = wf_cache f2 @ take k (drop n d)" using r(2) by auto
    then have "wf_cache f' = take (length (wf_written f1) + k) (wf_written f @ d)"
      using flush(1) 4 by (simp add: w1 [symmetric])
    moreover have "ok s \<Longrightarrow> wf_written f' = wf_written f @ d"
      using flush(1,4) 4 r(1,4) by (simp add: w1 [symmetric]) (simp add: wf_written_def)
    moreover have "wf_healthy f \<Longrightarrow> ok s \<and> wf_healthy f'"
      using flush(3) r(3) h1 by simp
    ultimately show ?thesis by blast
  qed
  then show "ok s \<Longrightarrow> wf_written f' = wf_written f @ d"
    and "\<exists>n. wf_cache f' = take n (wf_written f @ d)"
    and "wf_healthy f \<Longrightarrow> ok s \<and> wf_healthy f'" by auto
qed

interpretation posix: log_file WritableFile_Append WritableFile_Flush wf_written wf_healthy
proof unfold_locales
  fix f f' :: WritableFile and d s
  assume "WritableFile_Flush f = (s, f')"
  note r = FlushBuffer_result [OF this [unfolded WritableFile_Flush_def]]
  show "ok s \<Longrightarrow> wf_written f' = wf_written f" using r(1,4) by (simp add: wf_written_def)
  show "wf_healthy f \<Longrightarrow> ok s \<and> wf_healthy f'" by (rule r(3))
qed (auto dest: WritableFile_Append_result)

lemma wf_written_flushed: "wf_buf f = [] \<Longrightarrow> wf_written f = wf_cache f"
  by (simp add: wf_written_def)

end
