(* ===== verification/Filename.thy ===== *)
theory Filename
  imports Util Files
begin

text \<open>
  The names of the database files and the switch of \<^verbatim>\<open>CURRENT\<close>:
  \<^verbatim>\<open>src/db/filename.cc\<close>, \<^verbatim>\<open>src/db/include/filename.h\<close>, and the file helpers of
  \<^verbatim>\<open>src/utils/include/util.h\<close> it uses.  The file system is a map from names to
  contents; each system call takes its outcome from a script, and succeeds when
  the script is used up.
\<close>

section \<open>Names\<close>

datatype FileType =
  kWalFile | kDBLockFile | kSSTFile | kManifestFile | kCurrentFile | kTempFile | kInfoLogFile

text \<open>\<^verbatim>\<open>std::format\<close> with \<^verbatim>\<open>{:06}\<close>: decimal digits, padded with zeros to six.\<close>

fun decimal :: "nat \<Rightarrow> bytes" where
  "decimal n = (if n < 10 then [48 + of_nat n] else decimal (n div 10) @ [48 + of_nat (n mod 10)])"

declare decimal.simps [simp del]

definition format06 :: "u64 \<Rightarrow> bytes" where
  "format06 number = (let ds = decimal (unat number) in replicate (6 - length ds) 48 @ ds)"

definition MakeFileName :: "bytes \<Rightarrow> u64 \<Rightarrow> bytes \<Rightarrow> bytes" where
  "MakeFileName dbname number suffix =
     dbname @ text_bytes ''/'' @ format06 number @ text_bytes ''.'' @ suffix"

definition WalFileName :: "bytes \<Rightarrow> u64 \<Rightarrow> bytes" where
  "WalFileName dbname number = MakeFileName dbname number (text_bytes ''wal'')"

definition SSTFileName :: "bytes \<Rightarrow> u64 \<Rightarrow> bytes" where
  "SSTFileName dbname number = MakeFileName dbname number (text_bytes ''sst'')"

definition ManifestFileName :: "bytes \<Rightarrow> u64 \<Rightarrow> bytes" where
  "ManifestFileName dbname number = dbname @ text_bytes ''/MANIFEST-'' @ format06 number"

definition CurrentFileName :: "bytes \<Rightarrow> bytes" where
  "CurrentFileName dbname = dbname @ text_bytes ''/CURRENT''"

definition LockFileName :: "bytes \<Rightarrow> bytes" where
  "LockFileName dbname = dbname @ text_bytes ''/LOCK''"

definition TempFileName :: "bytes \<Rightarrow> u64 \<Rightarrow> bytes" where
  "TempFileName dbname number = MakeFileName dbname number (text_bytes ''dbtmp'')"

definition InfoLogFileName :: "bytes \<Rightarrow> bytes" where
  "InfoLogFileName dbname = dbname @ text_bytes ''/LOG''"

definition OldInfoLogFileName :: "bytes \<Rightarrow> bytes" where
  "OldInfoLogFileName dbname = dbname @ text_bytes ''/LOG.old''"

text \<open>\<^verbatim>\<open>None\<close> is the result \<^verbatim>\<open>false\<close>.\<close>

definition ParseFileName :: "bytes \<Rightarrow> (u64 \<times> FileType) option" where
  "ParseFileName filename =
     (if filename = text_bytes ''CURRENT'' then Some (0, kCurrentFile)
      else if filename = text_bytes ''LOCK'' then Some (0, kDBLockFile)
      else if filename = text_bytes ''LOG'' \<or> filename = text_bytes ''LOG.old''
      then Some (0, kInfoLogFile)
      else if take 9 filename = text_bytes ''MANIFEST-'' then
        (case ConsumeDecimalNumber (drop 9 filename) of
           (True, Some num, rest) \<Rightarrow> if rest \<noteq> [] then None else Some (num, kManifestFile)
         | _ \<Rightarrow> None)
      else
        (case ConsumeDecimalNumber filename of
           (True, Some num, suffix) \<Rightarrow>
             if suffix = text_bytes ''.wal'' then Some (num, kWalFile)
             else if suffix = text_bytes ''.sst'' then Some (num, kSSTFile)
             else if suffix = text_bytes ''.dbtmp'' then Some (num, kTempFile)
             else None
         | _ \<Rightarrow> None))"

section \<open>Files\<close>

record FS =
  fs_files :: "bytes \<rightharpoonup> bytes"
  fs_calls :: "errno option list"
  fs_writes :: "WriteOutcome list"

text \<open>The outcome of the next call other than a write.\<close>

definition next_call :: "FS \<Rightarrow> errno option \<times> FS" where
  "next_call fs =
     (case fs_calls fs of [] \<Rightarrow> (None, fs) | c # cs \<Rightarrow> (c, fs\<lparr>fs_calls := cs\<rparr>))"

fun WriteSync_loop ::
    "bytes \<Rightarrow> bytes \<Rightarrow> bytes \<Rightarrow> WriteOutcome list \<Rightarrow> Status \<times> bytes \<times> WriteOutcome list" where
  "WriteSync_loop fname ptr written os =
     (if ptr = [] then (Status_OK, written, os)
      else case os of
             [] \<Rightarrow> (Status_OK, written @ ptr, [])
           | WriteFailed e # os' \<Rightarrow> (PosixError fname e, written, os')
           | Wrote n # os' \<Rightarrow> WriteSync_loop fname (drop n ptr) (written @ take n ptr) os')"

declare WriteSync_loop.simps [simp del]

definition WriteStringToFileSync :: "bytes \<Rightarrow> bytes \<Rightarrow> FS \<Rightarrow> Status \<times> FS" where
  "WriteStringToFileSync data fname fs =
     (case next_call fs of
        (Some e, fs1) \<Rightarrow> (PosixError fname e, fs1)
      | (None, fs1) \<Rightarrow>
          (let (s, written, os) = WriteSync_loop fname data [] (fs_writes fs1);
               fs2 = fs1\<lparr>fs_files := (fs_files fs1)(fname \<mapsto> written), fs_writes := os\<rparr>
           in if \<not> ok s then (s, fs2)
              else case next_call fs2 of
                     (Some e, fs3) \<Rightarrow> (PosixError fname e, fs3)
                   | (None, fs3) \<Rightarrow> (Status_OK, fs3)))"

definition RenameFile :: "bytes \<Rightarrow> bytes \<Rightarrow> FS \<Rightarrow> Status \<times> FS" where
  "RenameFile src dst fs =
     (case next_call fs of
        (Some e, fs1) \<Rightarrow> (PosixError src e, fs1)
      | (None, fs1) \<Rightarrow>
          (case fs_files fs1 src of
             None \<Rightarrow> (PosixError src ENOENT, fs1)
           | Some c \<Rightarrow> (Status_OK, fs1\<lparr>fs_files := (fs_files fs1)(src := None, dst \<mapsto> c)\<rparr>)))"

definition RemoveFile :: "bytes \<Rightarrow> FS \<Rightarrow> Status \<times> FS" where
  "RemoveFile fname fs =
     (case next_call fs of
        (Some e, fs1) \<Rightarrow> (PosixError fname e, fs1)
      | (None, fs1) \<Rightarrow>
          (case fs_files fs1 fname of
             None \<Rightarrow> (PosixError fname ENOENT, fs1)
           | Some c \<Rightarrow> (Status_OK, fs1\<lparr>fs_files := (fs_files fs1)(fname := None)\<rparr>)))"

text \<open>
  \<^verbatim>\<open>std::format("{}\<newline>", contents.data())\<close> formats a C string, up to its first NUL
  byte; the result of \<^verbatim>\<open>RemoveFile\<close> is ignored.
\<close>

definition SetCurrentFile :: "bytes \<Rightarrow> u64 \<Rightarrow> FS \<Rightarrow> Status \<times> FS" where
  "SetCurrentFile dbname manifest_number fs =
     (let manifest = ManifestFileName dbname manifest_number;
          contents = drop (length dbname + 1) manifest;
          tmp = TempFileName dbname manifest_number;
          (s1, fs1) = WriteStringToFileSync (takeWhile (\<lambda>c. c \<noteq> 0) contents @ [10]) tmp fs;
          (s2, fs2) = (if ok s1 then RenameFile tmp (CurrentFileName dbname) fs1 else (s1, fs1))
      in if \<not> ok s2 then (s2, snd (RemoveFile tmp fs2)) else (s2, fs2))"

section \<open>Parsing gives back what was formatted\<close>

lemma digit_code: "n < 10 \<Longrightarrow> is_digit (48 + of_nat n) \<and> unat (48 + of_nat n :: byte) = 48 + n"
proof -
  assume n: "n < 10"
  then have "unat (48 + of_nat n :: byte) = 48 + n"
    by (simp add: unat_word_ariths unat_of_nat take_bit_nat_eq_self)
  then show ?thesis using n by (simp add: is_digit_def word_le_nat_alt)
qed

lemma decimal_digits: "\<forall>d\<in>set (decimal n). is_digit d"
proof (induction n rule: decimal.induct)
  case (1 n)
  show ?case
    using "1.IH" digit_code [of n] digit_code [of "n mod 10"] by (subst decimal.simps) auto
qed

lemma decimal_value_snoc: "decimal_value (ds @ [d]) = 10 * decimal_value ds + (unat d - 48)"
  by (simp add: decimal_value_def)

lemma decimal_value_decimal: "decimal_value (decimal n) = n"
proof (induction n rule: decimal.induct)
  case (1 n)
  show ?case
  proof (cases "n < 10")
    case True
    then show ?thesis
      using digit_code [of n] by (subst decimal.simps) (simp add: decimal_value_def)
  next
    case False
    then show ?thesis
      using digit_code [of "n mod 10"] "1.IH" [OF False]
      by (subst decimal.simps) (simp add: decimal_value_snoc)
  qed
qed

lemma decimal_not_Nil: "decimal n \<noteq> []"
  by (subst decimal.simps) simp

lemma decimal_value_zeros: "decimal_value (replicate k 48 @ ds) = decimal_value ds"
  by (induction k) (simp_all add: decimal_value_def)

lemma format06_digits: "\<forall>d\<in>set (format06 n). is_digit d" "format06 n \<noteq> []"
  "decimal_value (format06 n) = unat n"
  using decimal_digits [of "unat n"] decimal_not_Nil
  by (auto simp: format06_def Let_def is_digit_def decimal_value_zeros decimal_value_decimal)

lemma Consume_format06:
  assumes "rest = [] \<or> \<not> is_digit (hd rest)"
  shows "ConsumeDecimalNumber (format06 n @ rest) = (True, Some n, rest)"
  using ConsumeDecimalNumber_digits [OF format06_digits(1) assms, of n] format06_digits(2,3) [of n]
    unat_u64_less [of n] by simp

lemma is_digit_letters: "\<not> is_digit 46" "\<not> is_digit 67" "\<not> is_digit 76" "\<not> is_digit 77"
  by (simp_all add: is_digit_def)

lemma text_bytes_eval [simp]:
  "text_bytes ''CURRENT'' = [67, 85, 82, 82, 69, 78, 84]" "text_bytes ''LOCK'' = [76, 79, 67, 75]"
  "text_bytes ''LOG'' = [76, 79, 71]" "text_bytes ''LOG.old'' = [76, 79, 71, 46, 111, 108, 100]"
  "text_bytes ''MANIFEST-'' = [77, 65, 78, 73, 70, 69, 83, 84, 45]"
  "text_bytes ''.wal'' = [46, 119, 97, 108]" "text_bytes ''.sst'' = [46, 115, 115, 116]"
  "text_bytes ''.dbtmp'' = [46, 100, 98, 116, 109, 112]"
  "text_bytes ''.'' = [46]" "text_bytes ''/'' = [47]"
  "text_bytes ''wal'' = [119, 97, 108]" "text_bytes ''sst'' = [115, 115, 116]"
  "text_bytes ''dbtmp'' = [100, 98, 116, 109, 112]"
  "text_bytes ''/MANIFEST-'' = [47, 77, 65, 78, 73, 70, 69, 83, 84, 45]"
  "text_bytes ''/CURRENT'' = [47, 67, 85, 82, 82, 69, 78, 84]" "text_bytes ''/LOCK'' = [47, 76, 79, 67, 75]"
  "text_bytes ''/LOG'' = [47, 76, 79, 71]" "text_bytes ''/LOG.old'' = [47, 76, 79, 71, 46, 111, 108, 100]"
  by (simp_all add: text_bytes_def)

lemma Parse_numbered:
  assumes "suffix = [46, 119, 97, 108] \<and> t = kWalFile \<or> suffix = [46, 115, 115, 116] \<and> t = kSSTFile
    \<or> suffix = [46, 100, 98, 116, 109, 112] \<and> t = kTempFile"
  shows "ParseFileName (format06 n @ suffix) = Some (n, t)"
proof -
  obtain d ds where f: "format06 n = d # ds" using format06_digits(2) by (cases "format06 n") auto
  have d: "is_digit d" using format06_digits(1) [of n] f by simp
  have s: "suffix = [] \<or> \<not> is_digit (hd suffix)" using assms by (auto simp: is_digit_def)
  have "d \<noteq> 67" "d \<noteq> 76" "d \<noteq> 77" using d is_digit_letters by auto
  then show ?thesis
    using assms Consume_format06 [OF s, of n] f by (auto simp: ParseFileName_def)
qed

text \<open>
  C30: A directory listing is understood.  For every number, the name the store
  gives a log, table, manifest or temporary file parses to this number and
  type, and the fixed names parse to theirs.
\<close>

theorem ParseFileName_roundtrip:
  "(\<forall>dbname.
      ParseFileName (drop (length dbname + 1) (WalFileName dbname n)) = Some (n, kWalFile)
    \<and> ParseFileName (drop (length dbname + 1) (SSTFileName dbname n)) = Some (n, kSSTFile)
    \<and> ParseFileName (drop (length dbname + 1) (TempFileName dbname n)) = Some (n, kTempFile)
    \<and> ParseFileName (drop (length dbname + 1) (ManifestFileName dbname n)) = Some (n, kManifestFile)
    \<and> ParseFileName (drop (length dbname + 1) (CurrentFileName dbname)) = Some (0, kCurrentFile)
    \<and> ParseFileName (drop (length dbname + 1) (LockFileName dbname)) = Some (0, kDBLockFile)
    \<and> ParseFileName (drop (length dbname + 1) (InfoLogFileName dbname)) = Some (0, kInfoLogFile)
    \<and> ParseFileName (drop (length dbname + 1) (OldInfoLogFileName dbname)) = Some (0, kInfoLogFile))"
proof -
  have m: "ParseFileName ([77, 65, 78, 73, 70, 69, 83, 84, 45] @ format06 n) = Some (n, kManifestFile)"
    using Consume_format06 [of "[]" n] by (simp add: ParseFileName_def)
  show ?thesis
    using Parse_numbered [of _ kWalFile n] Parse_numbered [of _ kSSTFile n] Parse_numbered [of _ kTempFile n] m
    by (simp add: WalFileName_def SSTFileName_def TempFileName_def MakeFileName_def ManifestFileName_def
        CurrentFileName_def LockFileName_def InfoLogFileName_def OldInfoLogFileName_def)
      (simp add: ParseFileName_def)
qed

section \<open>Switching CURRENT\<close>

text \<open>What \<^verbatim>\<open>Recover\<close> makes of \<^verbatim>\<open>CURRENT\<close>: the name without its last byte, a newline.\<close>

definition manifest_of_current :: "bytes \<Rightarrow> bytes \<Rightarrow> bytes option" where
  "manifest_of_current dbname current =
     (if current = [] \<or> last current \<noteq> 10 then None
      else Some (dbname @ text_bytes ''/'' @ butlast current))"

lemma WriteSync_loop_ok:
  "WriteSync_loop fname ptr written os = (s, w, os') \<Longrightarrow> ok s \<Longrightarrow> w = written @ ptr"
proof (induction fname ptr written os rule: WriteSync_loop.induct)
  case (1 fname ptr written os)
  show ?case
    using "1.prems" "1.IH"
    by (simp add: WriteSync_loop.simps [of fname ptr] split: list.splits WriteOutcome.splits if_splits)
      fastforce
qed

lemma next_call_files [simp]: "next_call fs = (c, fs') \<Longrightarrow> fs_files fs' = fs_files fs"
  by (auto simp: next_call_def split: list.splits)

lemma WriteString_files:
  "WriteStringToFileSync data fname fs = (s, fs') \<Longrightarrow>
   (\<forall>x. x \<noteq> fname \<longrightarrow> fs_files fs' x = fs_files fs x) \<and> (ok s \<longrightarrow> fs_files fs' fname = Some data)"
  unfolding WriteStringToFileSync_def
  by (auto simp: Let_def dest!: next_call_files dest: WriteSync_loop_ok split: prod.splits option.splits if_splits)

lemma RemoveFile_files: "x \<noteq> fname \<Longrightarrow> fs_files (snd (RemoveFile fname fs)) x = fs_files fs x"
  by (auto simp: RemoveFile_def dest!: next_call_files split: prod.splits option.splits)

lemma RenameFile_files:
  "RenameFile src dst fs = (s, fs') \<Longrightarrow>
   (\<not> ok s \<longrightarrow> fs_files fs' = fs_files fs)
   \<and> (ok s \<longrightarrow> fs_files fs' = (fs_files fs)(src := None, dst := fs_files fs src))"
  unfolding RenameFile_def
  by (auto dest!: next_call_files split: prod.splits option.splits)

lemma Temp_not_Current: "TempFileName dbname n \<noteq> CurrentFileName dbname"
proof
  assume "TempFileName dbname n = CurrentFileName dbname"
  then have "last (TempFileName dbname n) = last (CurrentFileName dbname)" by simp
  then show False by (simp add: TempFileName_def MakeFileName_def CurrentFileName_def)
qed

lemma manifest_contents:
  "takeWhile (\<lambda>c. c \<noteq> 0) (drop (length dbname + 1) (ManifestFileName dbname n)) =
     drop (length dbname + 1) (ManifestFileName dbname n)"
proof -
  have "c \<noteq> 0" if "c \<in> set (format06 n)" for c
    using format06_digits(1) [of n] that by (auto simp: is_digit_def)
  then have "takeWhile (\<lambda>c. c \<noteq> 0) (format06 n) = format06 n" by (simp add: takeWhile_eq_all_conv)
  then show ?thesis by (simp add: ManifestFileName_def)
qed

lemma manifest_of_contents:
  "manifest_of_current dbname (drop (length dbname + 1) (ManifestFileName dbname n) @ [10]) =
     Some (ManifestFileName dbname n)"
  by (simp add: manifest_of_current_def ManifestFileName_def butlast_append)

text \<open>
  C24: The manifest switch is all or nothing.  Whatever the calls of
  \<^verbatim>\<open>SetCurrentFile\<close> return, it touches no file but its temporary one and
  \<^verbatim>\<open>CURRENT\<close>; when it reports success, \<^verbatim>\<open>CURRENT\<close> is exactly what the recovery
  resolves to the new manifest, and when it reports an error, \<^verbatim>\<open>CURRENT\<close> is what
  it was.
\<close>

theorem SetCurrentFile_atomic:
  assumes "SetCurrentFile dbname n fs = (s, fs')"
  shows "(\<forall>x. x \<noteq> CurrentFileName dbname \<and> x \<noteq> TempFileName dbname n \<longrightarrow> fs_files fs' x = fs_files fs x)
    \<and> (ok s \<longrightarrow> (\<exists>c. fs_files fs' (CurrentFileName dbname) = Some c
          \<and> manifest_of_current dbname c = Some (ManifestFileName dbname n))
        \<and> fs_files fs' (TempFileName dbname n) = None)
    \<and> (\<not> ok s \<longrightarrow> fs_files fs' (CurrentFileName dbname) = fs_files fs (CurrentFileName dbname))"
proof -
  let ?tmp = "TempFileName dbname n" and ?cur = "CurrentFileName dbname"
  let ?c = "drop (length dbname + 1) (ManifestFileName dbname n)"
  obtain s1 fs1 where w: "WriteStringToFileSync (?c @ [10]) ?tmp fs = (s1, fs1)" by fastforce
  note w' = WriteString_files [OF w]
  note d = assms [unfolded SetCurrentFile_def Let_def manifest_contents]
  show ?thesis
  proof (cases "ok s1")
    case False
    have "s = s1" "fs' = snd (RemoveFile ?tmp fs1)"
      using d w False by simp_all
    then show ?thesis using False w' RemoveFile_files Temp_not_Current by metis
  next
    case True
    obtain s2 fs2 where r: "RenameFile ?tmp ?cur fs1 = (s2, fs2)" by fastforce
    note r' = RenameFile_files [OF r]
    have s: "s = s2" "fs' = (if ok s2 then fs2 else snd (RemoveFile ?tmp fs2))"
      using d w r True by (simp_all split: if_splits)
    show ?thesis
    proof (cases "ok s2")
      case True
      have "fs_files fs2 = (fs_files fs1)(?tmp := None, ?cur := Some (?c @ [10]))"
        using r' w' True \<open>ok s1\<close> by simp
      then show ?thesis
        using True s w' manifest_of_contents Temp_not_Current by simp
    next
      case False
      then show ?thesis using s r' w' RemoveFile_files Temp_not_Current by metis
    qed
  qed
qed

lemma SetCurrentFile_atomic_witness:
  "fs_files (snd (SetCurrentFile [100] 7 \<lparr>fs_files = [CurrentFileName [100] \<mapsto> [1]],
      fs_calls = [None, None, Some ENOENT], fs_writes = [Wrote 3]\<rparr>)) (CurrentFileName [100]) = Some [1]"
proof -
  let ?fs = "\<lparr>fs_files = [CurrentFileName [100] \<mapsto> [1]], fs_calls = [None, None, Some ENOENT],
    fs_writes = [Wrote 3]\<rparr>"
  obtain s fs' where r: "SetCurrentFile [100] 7 ?fs = (s, fs')" by fastforce
  have "\<not> ok s"
    using r by (simp add: SetCurrentFile_def Let_def WriteStringToFileSync_def next_call_def
        manifest_contents [where dbname = "[100]", simplified] ManifestFileName_def
        WriteSync_loop.simps RenameFile_def split: prod.splits) auto
  then show ?thesis using SetCurrentFile_atomic [OF r] r by simp
qed

end
