(* ===== verification/Wal_Format.thy ===== *)
theory Wal_Format
  imports Files
begin

text \<open>
  The physical format of the write-ahead log and of the manifest
  (\<^verbatim>\<open>src/wal/include/wal_format.h\<close>), and the specification both the writer and
  the reader are proved against: a log is a sequence of 32768-byte blocks, a
  logical record is cut into fragments none of which crosses a block boundary,
  and a block tail too short for a header is filled with zeroes.
\<close>

datatype RecordType = kZeroType | kFullType | kFirstType | kMiddleType | kLastType

primrec RecordType_code :: "RecordType \<Rightarrow> nat" where
  "RecordType_code kZeroType = 0"
| "RecordType_code kFullType = 1"
| "RecordType_code kFirstType = 2"
| "RecordType_code kMiddleType = 3"
| "RecordType_code kLastType = 4"

definition kMaxRecordType :: nat where
  "kMaxRecordType = RecordType_code kLastType"

definition kBlockSize :: nat where
  "kBlockSize = 32768"

definition kHeaderSize :: nat where
  "kHeaderSize = 4 + 2 + 1"

lemma wal_sizes [simp]: "kBlockSize = 32768" "kHeaderSize = 7" "kMaxRecordType = 4"
  by (simp_all add: kBlockSize_def kHeaderSize_def kMaxRecordType_def)

text \<open>
  \<^verbatim>\<open>crc\<close> stands for the checksum of the \<^verbatim>\<open>crc32c\<close> library over a type byte and
  the data.  A physical record at block offset \<^verbatim>\<open>off\<close>, the padding before it
  included, and the offset after it:
\<close>

definition wal_start :: "nat \<Rightarrow> nat" where
  "wal_start off = (if kBlockSize - off < kHeaderSize then 0 else off)"

definition wal_pad :: "nat \<Rightarrow> bytes" where
  "wal_pad off = (if kBlockSize - off < kHeaderSize then replicate (kBlockSize - off) 0 else [])"

definition wal_header :: "(bytes \<Rightarrow> u32) \<Rightarrow> RecordType \<Rightarrow> bytes \<Rightarrow> bytes" where
  "wal_header crc t data =
     EncodeFixed32 (crc (of_nat (RecordType_code t) # data))
     @ [of_nat (length data mod 256), of_nat (length data div 256), of_nat (RecordType_code t)]"

fun wal_layout :: "(bytes \<Rightarrow> u32) \<Rightarrow> nat \<Rightarrow> (RecordType \<times> bytes) list \<Rightarrow> bytes" where
  "wal_layout crc off [] = []"
| "wal_layout crc off ((t, data) # ps) =
     wal_pad off @ wal_header crc t data @ data
     @ wal_layout crc (wal_start off + kHeaderSize + length data) ps"

fun wal_offset :: "nat \<Rightarrow> (RecordType \<times> bytes) list \<Rightarrow> nat" where
  "wal_offset off [] = off"
| "wal_offset off ((t, data) # ps) = wal_offset (wal_start off + kHeaderSize + length data) ps"

text \<open>A sequence of physical records fits when none crosses its block.\<close>

fun wal_fits :: "nat \<Rightarrow> (RecordType \<times> bytes) list \<Rightarrow> bool" where
  "wal_fits off [] = (off \<le> kBlockSize)"
| "wal_fits off ((t, data) # ps) =
     (off \<le> kBlockSize \<and> t \<noteq> kZeroType \<and> wal_start off + kHeaderSize + length data \<le> kBlockSize
      \<and> wal_fits (wal_start off + kHeaderSize + length data) ps)"

text \<open>
  The fragments of one logical record: what is left of it, cut at the space the
  block has.  \<^verbatim>\<open>begin_rec\<close> tells whether this is the first fragment.
\<close>

function wal_fragments :: "nat \<Rightarrow> bool \<Rightarrow> bytes \<Rightarrow> (RecordType \<times> bytes) list" where
  "wal_fragments off begin_rec data =
     (let avail = kBlockSize - wal_start off - kHeaderSize;
          fragment_length = min (length data) avail;
          last_fragment = (length data = fragment_length);
          t = (if begin_rec \<and> last_fragment then kFullType else if begin_rec then kFirstType
               else if last_fragment then kLastType else kMiddleType)
      in (t, take fragment_length data) #
         (if last_fragment then []
          else wal_fragments (wal_start off + kHeaderSize + fragment_length) False
                 (drop fragment_length data)))"
  by auto
termination
  by (relation "measure (\<lambda>(off, begin_rec, data).
        2 * length data + (if off = kBlockSize - kHeaderSize then 1 else 0))")
    (auto simp: wal_start_def min_def)

declare wal_fragments.simps [simp del]

lemma wal_layout_append:
  "wal_layout crc off (ps @ qs) = wal_layout crc off ps @ wal_layout crc (wal_offset off ps) qs"
  by (induction crc off ps rule: wal_layout.induct) auto

lemma wal_offset_append: "wal_offset off (ps @ qs) = wal_offset (wal_offset off ps) qs"
  by (induction off ps rule: wal_offset.induct) auto

lemma wal_fits_append:
  "wal_fits off (ps @ qs) \<longleftrightarrow> wal_fits off ps \<and> wal_fits (wal_offset off ps) qs"
  by (induction off ps rule: wal_fits.induct) (auto elim: wal_fits.elims)

lemma length_wal_header [simp]: "length (wal_header crc t data) = 7"
  by (simp add: wal_header_def)

lemma wal_offset_le: "wal_fits off ps \<Longrightarrow> wal_offset off ps \<le> kBlockSize"
  by (induction off ps rule: wal_fits.induct) auto

lemma wal_fragments_fits: "off \<le> kBlockSize \<Longrightarrow> wal_fits off (wal_fragments off b data)"
proof (induction off b data rule: wal_fragments.induct)
  case (1 off b data)
  have *: "wal_start off + 7 \<le> 32768" using 1(2) by (auto simp: wal_start_def)
  show ?case
    using 1 * by (subst wal_fragments.simps) (auto simp: Let_def min_def)
qed

text \<open>The fragments joined are the record; their types tell where it starts and ends.\<close>

lemma wal_fragments_concat: "concat (map snd (wal_fragments off b data)) = data"
  by (induction off b data rule: wal_fragments.induct)
    (subst wal_fragments.simps, auto simp: Let_def)

text \<open>The fragments of a list of records written one after the other.\<close>

fun wal_records :: "nat \<Rightarrow> bytes list \<Rightarrow> (RecordType \<times> bytes) list" where
  "wal_records off [] = []"
| "wal_records off (r # rs) =
     (let ps = wal_fragments off True r in ps @ wal_records (wal_offset off ps) rs)"

lemma wal_records_fits: "off \<le> kBlockSize \<Longrightarrow> wal_fits off (wal_records off rs)"
  by (induction rs arbitrary: off)
    (simp_all add: Let_def wal_fits_append wal_fragments_fits wal_offset_le del: wal_sizes)

end
