(* ===== verification/Wal_Writer.thy ===== *)
theory Wal_Writer
  imports Wal_Format
begin

text \<open>
  The log writer of \<^verbatim>\<open>src/wal/wal_writer.cc\<close>.  The file it appends to is a
  parameter (\<^verbatim>\<open>app\<close>, \<^verbatim>\<open>flush\<close>), with the contract \<^verbatim>\<open>log_file\<close>; the
  checksum library is the parameters \<^verbatim>\<open>crc\<close> (\<^verbatim>\<open>crc32c::Crc32c\<close>) and
  \<^verbatim>\<open>ext_crc\<close> (\<^verbatim>\<open>crc32c::Extend\<close>).
\<close>

record 'f Writer =
  wr_dest :: 'f
  wr_block_offset :: nat
  wr_type_crc :: "u32 list"

definition InitTypeCrc :: "(bytes \<Rightarrow> u32) \<Rightarrow> u32 list" where
  "InitTypeCrc crc = map (\<lambda>i. crc [of_nat i]) [0..<kMaxRecordType + 1]"

definition Writer_new :: "(bytes \<Rightarrow> u32) \<Rightarrow> 'f \<Rightarrow> 'f Writer" where
  "Writer_new crc dest =
     \<lparr> wr_dest = dest, wr_block_offset = 0, wr_type_crc = InitTypeCrc crc \<rparr>"

definition Writer_new_at :: "(bytes \<Rightarrow> u32) \<Rightarrow> 'f \<Rightarrow> u64 \<Rightarrow> 'f Writer" where
  "Writer_new_at crc dest dest_length =
     \<lparr> wr_dest = dest, wr_block_offset = unat dest_length mod kBlockSize,
       wr_type_crc = InitTypeCrc crc \<rparr>"

text \<open>
  The asserts of \<^verbatim>\<open>EmitPhysicalRecord\<close> (the length fits two bytes and the block)
  are proved of its caller below.
\<close>

definition EmitPhysicalRecord ::
    "('f \<Rightarrow> bytes \<Rightarrow> Status \<times> 'f) \<Rightarrow> ('f \<Rightarrow> Status \<times> 'f) \<Rightarrow> (u32 \<Rightarrow> bytes \<Rightarrow> u32) \<Rightarrow>
     'f Writer \<Rightarrow> RecordType \<Rightarrow> bytes \<Rightarrow> Status \<times> 'f Writer"
where
  "EmitPhysicalRecord app flush ext_crc w t ptr =
     (let n = length ptr;
          crc = ext_crc (wr_type_crc w ! RecordType_code t) ptr;
          buf = EncodeFixed32 crc @
            [of_nat (n mod 256), of_nat (n div 256), of_nat (RecordType_code t)];
          (s, f1) = app (wr_dest w) buf;
          (s, f3) =
            (if ok s then
               let (s, f2) = app f1 ptr in
               if ok s then flush f2 else (s, f2)
             else (s, f1))
      in (s, w\<lparr>wr_dest := f3, wr_block_offset := wr_block_offset w + (kHeaderSize + n)\<rparr>))"

text \<open>
  One iteration of the \<^verbatim>\<open>do\<close> loop of \<^verbatim>\<open>AddRecord\<close>: \<^verbatim>\<open>ptr\<close> is what is left of
  the record, the third result what is left after it.  The status of the append
  of the padding is dropped, as in the code.
\<close>

definition AddRecord_iteration ::
    "('f \<Rightarrow> bytes \<Rightarrow> Status \<times> 'f) \<Rightarrow> ('f \<Rightarrow> Status \<times> 'f) \<Rightarrow> (u32 \<Rightarrow> bytes \<Rightarrow> u32) \<Rightarrow>
     'f Writer \<Rightarrow> bytes \<Rightarrow> bool \<Rightarrow> Status \<times> 'f Writer \<times> bytes"
where
  "AddRecord_iteration app flush ext_crc w ptr begin_rec =
     (let leftover = kBlockSize - wr_block_offset w;
          w1 = (if leftover < kHeaderSize then
                  (if 0 < leftover
                   then w\<lparr>wr_dest := snd (app (wr_dest w) (replicate leftover 0)),
                          wr_block_offset := 0\<rparr>
                   else w\<lparr>wr_block_offset := 0\<rparr>)
                else w);
          avail = kBlockSize - wr_block_offset w1 - kHeaderSize;
          fragment_length = (if length ptr < avail then length ptr else avail);
          end_rec = (length ptr = fragment_length);
          t = (if begin_rec \<and> end_rec then kFullType else if begin_rec then kFirstType
               else if end_rec then kLastType else kMiddleType);
          (s, w2) = EmitPhysicalRecord app flush ext_crc w1 t (take fragment_length ptr)
      in (s, w2, drop fragment_length ptr))"

lemma Emit_block_offset:
  "EmitPhysicalRecord app flush ext_crc w t ptr = (s, w') \<Longrightarrow>
   wr_block_offset w' = wr_block_offset w + kHeaderSize + length ptr"
  by (auto simp: EmitPhysicalRecord_def Let_def split: prod.splits if_splits)

lemma AddRecord_iteration_offsets:
  assumes "AddRecord_iteration app flush ext_crc w ptr b = (s, w', left)"
  obtains o1 k where "o1 = (if kBlockSize - wr_block_offset w < kHeaderSize then 0 else wr_block_offset w)"
    "k = (if length ptr < kBlockSize - o1 - kHeaderSize then length ptr else kBlockSize - o1 - kHeaderSize)"
    "left = drop k ptr" "wr_block_offset w' = o1 + kHeaderSize + length (take k ptr)"
proof -
  define w1 where "w1 = (if kBlockSize - wr_block_offset w < kHeaderSize then
      (if 0 < kBlockSize - wr_block_offset w
       then w\<lparr>wr_dest := snd (app (wr_dest w) (replicate (kBlockSize - wr_block_offset w) 0)),
              wr_block_offset := 0\<rparr>
       else w\<lparr>wr_block_offset := 0\<rparr>) else w)"
  define k where "k = (if length ptr < kBlockSize - wr_block_offset w1 - kHeaderSize then length ptr
      else kBlockSize - wr_block_offset w1 - kHeaderSize)"
  have o1: "wr_block_offset w1 =
      (if kBlockSize - wr_block_offset w < kHeaderSize then 0 else wr_block_offset w)"
    by (simp add: w1_def)
  obtain t where "(case EmitPhysicalRecord app flush ext_crc w1 t (take k ptr) of
      (s, w2) \<Rightarrow> (s, w2, drop k ptr)) = (s, w', left)"
    using assms unfolding AddRecord_iteration_def Let_def w1_def [symmetric] k_def [symmetric] by (rule that)
  then have "left = drop k ptr" "EmitPhysicalRecord app flush ext_crc w1 t (take k ptr) = (s, w')"
    by (auto split: prod.splits)
  then show ?thesis using that [OF o1 k_def] Emit_block_offset by blast
qed

lemma AddRecord_iteration_measure:
  assumes "AddRecord_iteration app flush ext_crc w ptr b = (s, w', left)" "0 < length left"
  shows "2 * length left + (if wr_block_offset w' = kBlockSize - kHeaderSize then 1 else 0)
    < 2 * length ptr + (if wr_block_offset w = kBlockSize - kHeaderSize then 1 else (0::nat))"
proof -
  obtain o1 k where "o1 = (if kBlockSize - wr_block_offset w < kHeaderSize then 0 else wr_block_offset w)"
    "k = (if length ptr < kBlockSize - o1 - kHeaderSize then length ptr else kBlockSize - o1 - kHeaderSize)"
    "left = drop k ptr" "wr_block_offset w' = o1 + kHeaderSize + length (take k ptr)"
    using assms(1) by (rule AddRecord_iteration_offsets)
  note o1 = this(1) and k = this(2) and left = this(3) and off = this(4)
  have k_less: "k < length ptr" using assms(2) left by simp
  then have k_eq: "k = kBlockSize - o1 - kHeaderSize" using k by (metis less_irrefl)
  have off': "wr_block_offset w' = o1 + kHeaderSize + k" using off k_less by simp
  show ?thesis
  proof (cases "k = 0")
    case True
    have "o1 = kBlockSize - kHeaderSize" "wr_block_offset w = o1"
      using o1 k_eq True by (simp_all split: if_splits)
    then show ?thesis using left off' True by simp
  next
    case False
    have "length left = length ptr - k" using left by simp
    then show ?thesis using k_less False by (simp split: if_split) linarith
  qed
qed

function AddRecord_loop ::
    "('f \<Rightarrow> bytes \<Rightarrow> Status \<times> 'f) \<Rightarrow> ('f \<Rightarrow> Status \<times> 'f) \<Rightarrow> (u32 \<Rightarrow> bytes \<Rightarrow> u32) \<Rightarrow>
     'f Writer \<Rightarrow> bytes \<Rightarrow> bool \<Rightarrow> Status \<times> 'f Writer"
where
  "AddRecord_loop app flush ext_crc w ptr begin_rec =
     (case AddRecord_iteration app flush ext_crc w ptr begin_rec of (s, w2, left) \<Rightarrow>
        if ok s \<and> 0 < length left then AddRecord_loop app flush ext_crc w2 left False
        else (s, w2))"
  by auto
termination
  by (relation "measure (\<lambda>(app, flush, ext_crc, w, ptr, begin_rec).
        2 * length ptr + (if wr_block_offset w = kBlockSize - kHeaderSize then 1 else 0))")
    (simp_all only: wf_measure in_measure prod.case, metis AddRecord_iteration_measure)

declare AddRecord_loop.simps [simp del]

definition AddRecord ::
    "('f \<Rightarrow> bytes \<Rightarrow> Status \<times> 'f) \<Rightarrow> ('f \<Rightarrow> Status \<times> 'f) \<Rightarrow> (u32 \<Rightarrow> bytes \<Rightarrow> u32) \<Rightarrow>
     'f Writer \<Rightarrow> bytes \<Rightarrow> Status \<times> 'f Writer"
where
  "AddRecord app flush ext_crc w record_data = AddRecord_loop app flush ext_crc w record_data True"

text \<open>Several records one after the other, stopping at the first failure.\<close>

fun AddRecords ::
    "('f \<Rightarrow> bytes \<Rightarrow> Status \<times> 'f) \<Rightarrow> ('f \<Rightarrow> Status \<times> 'f) \<Rightarrow> (u32 \<Rightarrow> bytes \<Rightarrow> u32) \<Rightarrow>
     'f Writer \<Rightarrow> bytes list \<Rightarrow> Status \<times> 'f Writer"
where
  "AddRecords app flush ext_crc w [] = (Status_OK, w)"
| "AddRecords app flush ext_crc w (r # rs) =
     (let (s, w1) = AddRecord app flush ext_crc w r
      in if ok s then AddRecords app flush ext_crc w1 rs else (s, w1))"

section \<open>The writer implements the layout\<close>

text \<open>
  What the writer needs of the checksum library: extending the checksum of a
  prefix is the checksum of the whole.
\<close>

definition crc_extends :: "(bytes \<Rightarrow> u32) \<Rightarrow> (u32 \<Rightarrow> bytes \<Rightarrow> u32) \<Rightarrow> bool" where
  "crc_extends crc ext_crc = (\<forall>a b. ext_crc (crc a) b = crc (a @ b))"

lemma InitTypeCrc_nth: "InitTypeCrc crc ! RecordType_code t = crc [of_nat (RecordType_code t)]"
  by (cases t) (simp_all add: InitTypeCrc_def upt_rec)

context log_file begin

lemma Emit_ok:
  assumes "healthy (wr_dest w)" "wr_type_crc w = InitTypeCrc crc"
    and "EmitPhysicalRecord append flush ext_crc w t ptr = (s, w')"
    and crc: "crc_extends crc ext_crc"
  shows "ok s \<and> healthy (wr_dest w') \<and> wr_type_crc w' = InitTypeCrc crc
    \<and> wr_block_offset w' = wr_block_offset w + kHeaderSize + length ptr
    \<and> written (wr_dest w') = written (wr_dest w) @ wal_header crc t ptr @ ptr"
proof -
  let ?b = "wal_header crc t ptr"
  have b: "EncodeFixed32 (ext_crc (wr_type_crc w ! RecordType_code t) ptr) @
      [of_nat (length ptr mod 256), of_nat (length ptr div 256), of_nat (RecordType_code t)] = ?b"
    using crc by (simp add: assms(2) InitTypeCrc_nth crc_extends_def wal_header_def)
  obtain s1 f1 where 1: "append (wr_dest w) ?b = (s1, f1)" by fastforce
  obtain s2 f2 where 2: "append f1 ptr = (s2, f2)" by fastforce
  obtain s3 f3 where 3: "flush f2 = (s3, f3)" by fastforce
  have a1: "ok s1" "healthy f1" "written f1 = written (wr_dest w) @ ?b"
    using append_healthy_written [OF assms(1) 1] by auto
  have a2: "ok s2" "healthy f2" "written f2 = written f1 @ ptr"
    using append_healthy_written [OF a1(2) 2] by auto
  have a3: "ok s3" "healthy f3" "written f3 = written f2"
    using flush_healthy_written [OF a2(2) 3] by auto
  have "w' = w\<lparr>wr_dest := f3, wr_block_offset := wr_block_offset w + (kHeaderSize + length ptr)\<rparr>"
    "s = s3"
    using assms(3) a1 a2 a3 unfolding EmitPhysicalRecord_def Let_def b 1 by (auto simp: 2 3)
  with a1 a2 a3 assms(2) show ?thesis by simp
qed

text \<open>The step over the end of a block.\<close>

lemma pad_step:
  assumes "healthy (wr_dest w)" "wr_block_offset w \<le> kBlockSize"
    and "w1 = (if kBlockSize - wr_block_offset w < kHeaderSize then
                 (if 0 < kBlockSize - wr_block_offset w
                  then w\<lparr>wr_dest := snd (append (wr_dest w) (replicate (kBlockSize - wr_block_offset w) 0)),
                         wr_block_offset := 0\<rparr>
                  else w\<lparr>wr_block_offset := 0\<rparr>)
               else w)"
  shows "healthy (wr_dest w1) \<and> wr_type_crc w1 = wr_type_crc w
    \<and> wr_block_offset w1 = wal_start (wr_block_offset w)
    \<and> written (wr_dest w1) = written (wr_dest w) @ wal_pad (wr_block_offset w)"
proof -
  obtain s f where "append (wr_dest w) (replicate (kBlockSize - wr_block_offset w) 0) = (s, f)"
    by fastforce
  from append_healthy_written [OF assms(1) this] this assms show ?thesis
    by (auto simp: wal_start_def wal_pad_def)
qed

lemma AddRecord_loop_ok:
  assumes "healthy (wr_dest w)" "wr_type_crc w = InitTypeCrc crc" "wr_block_offset w \<le> kBlockSize"
    and "AddRecord_loop append flush ext_crc w ptr b = (s, w')"
    and "crc_extends crc ext_crc"
  shows "ok s \<and> healthy (wr_dest w') \<and> wr_type_crc w' = InitTypeCrc crc
    \<and> wr_block_offset w' = wal_offset (wr_block_offset w) (wal_fragments (wr_block_offset w) b ptr)
    \<and> written (wr_dest w') = written (wr_dest w) @
        wal_layout crc (wr_block_offset w) (wal_fragments (wr_block_offset w) b ptr)"
  using assms
proof (induction "wr_block_offset w" b ptr arbitrary: w s w' rule: wal_fragments.induct)
  case (1 b ptr)
  define w1 where "w1 = (if kBlockSize - wr_block_offset w < kHeaderSize then
                 (if 0 < kBlockSize - wr_block_offset w
                  then w\<lparr>wr_dest := snd (append (wr_dest w) (replicate (kBlockSize - wr_block_offset w) 0)),
                         wr_block_offset := 0\<rparr>
                  else w\<lparr>wr_block_offset := 0\<rparr>)
               else w)"
  note pad = pad_step [OF "1.prems"(1,3) w1_def]
  define avail where "avail = kBlockSize - wal_start (wr_block_offset w) - kHeaderSize"
  define k where "k = min (length ptr) avail"
  define t where "t = (if b \<and> length ptr = k then kFullType else if b then kFirstType
               else if length ptr = k then kLastType else kMiddleType)"
  have k: "(if length ptr < avail then length ptr else avail) = k" by (simp add: k_def)
  obtain s2 w2 where emit: "EmitPhysicalRecord append flush ext_crc w1 t (take k ptr) = (s2, w2)"
    by fastforce
  have e: "ok s2" "healthy (wr_dest w2)" "wr_type_crc w2 = InitTypeCrc crc"
    "wr_block_offset w2 = wal_start (wr_block_offset w) + kHeaderSize + k"
    "written (wr_dest w2) = written (wr_dest w) @ wal_pad (wr_block_offset w)
       @ wal_header crc t (take k ptr) @ take k ptr"
    using Emit_ok [OF _ _ emit "1.prems"(5)] pad "1.prems"(2) by (simp_all add: k_def)
  have off1: "wr_block_offset w1 = wal_start (wr_block_offset w)" using pad by blast
  have loop: "AddRecord_loop append flush ext_crc w ptr b =
      (if 0 < length (drop k ptr) then AddRecord_loop append flush ext_crc w2 (drop k ptr) False
       else (s2, w2))"
    unfolding AddRecord_loop.simps [of append flush ext_crc w ptr b] AddRecord_iteration_def
      Let_def w1_def [symmetric]
      off1 avail_def [symmetric] k t_def [symmetric] emit
    using e(1) by simp
  have frags: "wal_fragments (wr_block_offset w) b ptr = (t, take k ptr) #
      (if length ptr = k then [] else wal_fragments (wr_block_offset w2) False (drop k ptr))"
    by (subst wal_fragments.simps) (simp add: Let_def avail_def k_def t_def e(4))
  show ?case
  proof (cases "length ptr = k")
    case True
    then have k_eq: "k = length ptr" by simp
    with loop "1.prems"(4) have "s = s2" "w' = w2" by simp_all
    with e frags show ?thesis by (simp add: k_eq)
  next
    case False
    then have "0 < length (drop k ptr)" by (simp add: k_def)
    with loop "1.prems"(4) have rec: "AddRecord_loop append flush ext_crc w2 (drop k ptr) False = (s, w')"
      by simp
    have le: "wr_block_offset w2 \<le> kBlockSize"
      using "1.prems"(3) unfolding e(4) by (auto simp: k_def avail_def wal_start_def)
    have "ok s \<and> healthy (wr_dest w') \<and> wr_type_crc w' = InitTypeCrc crc
      \<and> wr_block_offset w' = wal_offset (wr_block_offset w2) (wal_fragments (wr_block_offset w2) False (drop k ptr))
      \<and> written (wr_dest w') = written (wr_dest w2) @
        wal_layout crc (wr_block_offset w2) (wal_fragments (wr_block_offset w2) False (drop k ptr))"
      by (rule "1.hyps" [OF avail_def k_def refl t_def False e(4) [symmetric] e(2,3) le rec
            "1.prems"(5)])
    moreover have "length (take k ptr) = k" by (simp add: k_def)
    ultimately show ?thesis using e frags False by simp
  qed
qed

lemma AddRecord_ok:
  assumes "healthy (wr_dest w)" "wr_type_crc w = InitTypeCrc crc" "wr_block_offset w \<le> kBlockSize"
    and "AddRecord append flush ext_crc w r = (s, w')"
    and "crc_extends crc ext_crc"
  shows "ok s \<and> healthy (wr_dest w') \<and> wr_type_crc w' = InitTypeCrc crc
    \<and> wr_block_offset w' = wal_offset (wr_block_offset w) (wal_fragments (wr_block_offset w) True r)
    \<and> written (wr_dest w') = written (wr_dest w) @
        wal_layout crc (wr_block_offset w) (wal_fragments (wr_block_offset w) True r)"
  by (rule AddRecord_loop_ok [OF assms(1-3) assms(4) [unfolded AddRecord_def] assms(5)])

lemma AddRecords_ok:
  assumes "healthy (wr_dest w)" "wr_type_crc w = InitTypeCrc crc" "wr_block_offset w \<le> kBlockSize"
    and "AddRecords append flush ext_crc w rs = (s, w')"
    and "crc_extends crc ext_crc"
  shows "ok s \<and> healthy (wr_dest w') \<and> written (wr_dest w') = written (wr_dest w) @
        wal_layout crc (wr_block_offset w) (wal_records (wr_block_offset w) rs)"
  using assms
proof (induction rs arbitrary: w)
  case (Cons r rs)
  obtain s1 w1 where 1: "AddRecord append flush ext_crc w r = (s1, w1)" by fastforce
  note a = AddRecord_ok [OF Cons.prems(1-3) 1 Cons.prems(5)]
  have "wr_block_offset w1 \<le> kBlockSize"
    using a wal_offset_le [OF wal_fragments_fits [OF Cons.prems(3)]] by auto
  moreover have "AddRecords append flush ext_crc w1 rs = (s, w')"
    using Cons.prems(4) 1 a by simp
  moreover have h: "healthy (wr_dest w1)" "wr_type_crc w1 = InitTypeCrc crc" using a by auto
  ultimately have "ok s \<and> healthy (wr_dest w') \<and> written (wr_dest w') = written (wr_dest w1) @
        wal_layout crc (wr_block_offset w1) (wal_records (wr_block_offset w1) rs)"
    by (intro Cons.IH [OF h _ _ Cons.prems(5)])
  with a show ?case by (simp add: Let_def wal_layout_append del: wal_sizes)
qed simp

end

end
