(* ===== verification/Wal_Reader.thy ===== *)
theory Wal_Reader
  imports Wal_Format
begin

text \<open>
  The log reader of \<^verbatim>\<open>src/wal/wal_reader.cc\<close>: it finds the physical records in
  the blocks it reads, checks their checksums and puts the fragments of a
  logical record together.  Every call it makes to the \<^verbatim>\<open>Reporter\<close> is kept in
  \<^verbatim>\<open>rd_reports\<close>.  The checksum library is the parameter \<^verbatim>\<open>crc\<close>.
\<close>

record Reader =
  rd_file :: SequentialFile
  rd_has_reporter :: bool
  rd_checksum :: bool
  rd_buffer :: bytes
  rd_eof :: bool
  rd_last_record_offset :: u64
  rd_end_of_buffer_offset :: u64
  rd_initial_offset :: u64
  rd_resyncing :: bool
  rd_reports :: "(u64 \<times> Status) list"

definition Reader_new :: "SequentialFile \<Rightarrow> bool \<Rightarrow> bool \<Rightarrow> u64 \<Rightarrow> Reader" where
  "Reader_new file has_reporter checksum initial_offset =
     \<lparr> rd_file = file, rd_has_reporter = has_reporter, rd_checksum = checksum, rd_buffer = [],
       rd_eof = False, rd_last_record_offset = 0, rd_end_of_buffer_offset = 0,
       rd_initial_offset = initial_offset, rd_resyncing = (initial_offset > 0), rd_reports = [] \<rparr>"

text \<open>The extended record types the reader returns.\<close>

definition kEof :: u32 where "kEof = of_nat (kMaxRecordType + 1)"

definition kBadRecord :: u32 where "kBadRecord = of_nat (kMaxRecordType + 2)"

lemma reader_codes [simp]: "kEof = 5" "kBadRecord = 6"
  by (simp_all add: kEof_def kBadRecord_def)

definition ReportDrop :: "u64 \<Rightarrow> Status \<Rightarrow> Reader \<Rightarrow> Reader" where
  "ReportDrop n reason r =
     (if rd_has_reporter r
         \<and> rd_end_of_buffer_offset r - of_nat (length (rd_buffer r)) - n \<ge> rd_initial_offset r
      then r\<lparr>rd_reports := rd_reports r @ [(n, reason)]\<rparr> else r)"

definition ReportCorruption :: "u64 \<Rightarrow> string \<Rightarrow> Reader \<Rightarrow> Reader" where
  "ReportCorruption n reason r = ReportDrop n (Corruption reason) r"

definition SkipToInitialBlock :: "Reader \<Rightarrow> bool \<times> Reader" where
  "SkipToInitialBlock r =
     (let offset_in_block = rd_initial_offset r mod of_nat kBlockSize;
          location = rd_initial_offset r - offset_in_block;
          block_start_location =
            (if offset_in_block > of_nat (kBlockSize - 6) then location + of_nat kBlockSize
             else location);
          r1 = r\<lparr>rd_end_of_buffer_offset := block_start_location\<rparr>
      in if block_start_location > 0 then
           let (skip_status, file) = SequentialFile_Skip (unat block_start_location) (rd_file r1);
               r2 = r1\<lparr>rd_file := file\<rparr>
           in if \<not> ok skip_status then (False, ReportDrop block_start_location skip_status r2)
              else (True, r2)
         else (True, r1))"

text \<open>
  The part of \<^verbatim>\<open>ReadPhysicalRecord\<close> after a whole header is in the buffer.  The
  out-parameter \<^verbatim>\<open>result\<close> keeps its old value on the early returns.
\<close>

definition ParsePhysicalRecord ::
    "(bytes \<Rightarrow> u32) \<Rightarrow> bytes \<Rightarrow> Reader \<Rightarrow> u32 \<times> bytes \<times> Reader" where
  "ParsePhysicalRecord crc result r =
     (let header = rd_buffer r;
          a = ucast (header ! 4) AND 0xff :: u32;
          b = ucast (header ! 5) AND 0xff :: u32;
          type_code = scast (header ! 6) :: u32;
          len = unat (a OR push_bit 8 b);
          drop_size = of_nat (length (rd_buffer r)) :: u64
      in if kHeaderSize + len > length (rd_buffer r) then
           let r1 = r\<lparr>rd_buffer := []\<rparr> in
           if \<not> rd_eof r1
           then (kBadRecord, result, ReportCorruption drop_size ''bad record length'' r1)
           else (kEof, result, r1)
         else if type_code = 0 \<and> len = 0 then (kBadRecord, result, r\<lparr>rd_buffer := []\<rparr>)
         else if rd_checksum r \<and> crc (take (1 + len) (drop 6 header)) \<noteq> DecodeFixed32 header
         then (kBadRecord, result,
               ReportCorruption drop_size ''checksum mismatch'' (r\<lparr>rd_buffer := []\<rparr>))
         else
           let r1 = r\<lparr>rd_buffer := drop (kHeaderSize + len) (rd_buffer r)\<rparr> in
           if rd_end_of_buffer_offset r1 - of_nat (length (rd_buffer r1)) - of_nat kHeaderSize
                - of_nat len < rd_initial_offset r1
           then (kBadRecord, [], r1)
           else (type_code, take len (drop kHeaderSize header), r1))"

function ReadPhysicalRecord ::
    "(bytes \<Rightarrow> u32) \<Rightarrow> bytes \<Rightarrow> Reader \<Rightarrow> u32 \<times> bytes \<times> Reader" where
  "ReadPhysicalRecord crc result r =
     (if length (rd_buffer r) < kHeaderSize then
        if \<not> rd_eof r then
          case SequentialFile_Read kBlockSize (rd_file r) of (status, data, file) \<Rightarrow>
            (let buffer = (case data of None \<Rightarrow> [] | Some d \<Rightarrow> d);
                 r1 = r\<lparr>rd_file := file, rd_buffer := buffer,
                        rd_end_of_buffer_offset :=
                          rd_end_of_buffer_offset r + of_nat (length buffer)\<rparr>
             in if \<not> ok status then
                  (kEof, result,
                   (ReportDrop (of_nat kBlockSize) status (r1\<lparr>rd_buffer := []\<rparr>))\<lparr>rd_eof := True\<rparr>)
                else if length buffer < kBlockSize
                then ReadPhysicalRecord crc result (r1\<lparr>rd_eof := True\<rparr>)
                else ReadPhysicalRecord crc result r1)
        else (kEof, result, r\<lparr>rd_buffer := []\<rparr>)
      else ParsePhysicalRecord crc result r)"
  by auto
termination
  by (relation "measure (\<lambda>(crc, result, r).
        if length (rd_buffer r) < kHeaderSize then (if rd_eof r then 1 else 2) else 0)") auto

declare ReadPhysicalRecord.simps [simp del]

text \<open>
  One iteration of the loop of \<^verbatim>\<open>ReadRecord\<close>.  The loop variables are the
  current fragment, \<^verbatim>\<open>in_fragmented_record\<close>, \<^verbatim>\<open>scratch\<close> and
  \<^verbatim>\<open>prospective_record_offset\<close>.  \<^verbatim>\<open>Inl\<close> is a return: the record, or \<^verbatim>\<open>None\<close> for
  \<^verbatim>\<open>false\<close>; \<^verbatim>\<open>Inr\<close> goes round again.
\<close>

type_synonym ReadVars = "bytes \<times> bool \<times> bytes \<times> u64"

definition ReadRecord_iteration ::
    "(bytes \<Rightarrow> u32) \<Rightarrow> ReadVars \<Rightarrow> Reader \<Rightarrow>
     (bytes option \<times> Reader) + (ReadVars \<times> Reader)" where
  "ReadRecord_iteration crc vars r0 =
     (case vars of (old_fragment, in_fragmented_record, scratch, prospective) \<Rightarrow>
      case ReadPhysicalRecord crc old_fragment r0 of (record_type, fragment, r1) \<Rightarrow>
      let physical_record_offset =
            rd_end_of_buffer_offset r1 - of_nat (length (rd_buffer r1)) - of_nat kHeaderSize
            - of_nat (length fragment);
          partial = (\<lambda>reason r. if in_fragmented_record \<and> scratch \<noteq> []
                       then ReportCorruption (of_nat (length scratch)) reason r else r)
      in
      if rd_resyncing r1 \<and> record_type = 3
      then Inr ((fragment, in_fragmented_record, scratch, prospective), r1)
      else if rd_resyncing r1 \<and> record_type = 4
      then Inr ((fragment, in_fragmented_record, scratch, prospective), r1\<lparr>rd_resyncing := False\<rparr>)
      else
        let r2 = r1\<lparr>rd_resyncing := False\<rparr> in
        if record_type = 1 then
          Inl (Some fragment,
               (partial ''partial record without end(1)'' r2)
                 \<lparr>rd_last_record_offset := physical_record_offset\<rparr>)
        else if record_type = 2 then
          Inr ((fragment, True, fragment, physical_record_offset),
               partial ''partial record without end(2)'' r2)
        else if record_type = 3 then
          (if \<not> in_fragmented_record
           then Inr ((fragment, in_fragmented_record, scratch, prospective),
                     ReportCorruption (of_nat (length fragment))
                       ''missing start of fragment record(1)'' r2)
           else Inr ((fragment, in_fragmented_record, scratch @ fragment, prospective), r2))
        else if record_type = 4 then
          (if \<not> in_fragmented_record
           then Inr ((fragment, in_fragmented_record, scratch, prospective),
                     ReportCorruption (of_nat (length fragment))
                       ''missing start of fragmented record(2)'' r2)
           else Inl (Some (scratch @ fragment), r2\<lparr>rd_last_record_offset := prospective\<rparr>))
        else if record_type = kEof then Inl (None, r2)
        else if record_type = kBadRecord then
          (if in_fragmented_record
           then Inr ((fragment, False, [], prospective),
                     ReportCorruption (of_nat (length scratch)) ''error in middle of record'' r2)
           else Inr ((fragment, in_fragmented_record, scratch, prospective), r2))
        else
          Inr ((fragment, False, [], prospective),
               ReportCorruption
                 (of_nat (length fragment + (if in_fragmented_record then length scratch else 0)))
                 ''unknown record type'' r2))"

text \<open>The bytes the reader has not looked at yet.\<close>

definition unread :: "Reader \<Rightarrow> nat" where
  "unread r = length (rd_buffer r) + length (sf_rest (rd_file r))"

lemma Report_simps [simp]:
  "rd_buffer (ReportDrop n s r) = rd_buffer r" "rd_file (ReportDrop n s r) = rd_file r"
  "rd_buffer (ReportCorruption n m r) = rd_buffer r" "rd_file (ReportCorruption n m r) = rd_file r"
  by (simp_all add: ReportDrop_def ReportCorruption_def)

lemma ParsePhysicalRecord_unread:
  "ParsePhysicalRecord crc result r = (t, res, r') \<Longrightarrow> kHeaderSize \<le> length (rd_buffer r) \<Longrightarrow>
   unread r' < unread r"
  by (auto simp: ParsePhysicalRecord_def Let_def unread_def split: if_splits)

lemma SequentialFile_Read_rest:
  "SequentialFile_Read n f = (s, data, f') \<Longrightarrow>
   length (sf_rest f') + (case data of None \<Rightarrow> 0 | Some d \<Rightarrow> length d) = length (sf_rest f)"
  by (auto simp: SequentialFile_Read_def split: list.splits option.splits)

lemma ReadPhysicalRecord_fill:
  assumes "length (rd_buffer r) < kHeaderSize" "\<not> rd_eof r"
    and "SequentialFile_Read kBlockSize (rd_file r) = (status, data, fl)"
  shows "ReadPhysicalRecord crc result r =
    (let buffer = (case data of None \<Rightarrow> [] | Some d \<Rightarrow> d);
         r1 = r\<lparr>rd_file := fl, rd_buffer := buffer,
                rd_end_of_buffer_offset := rd_end_of_buffer_offset r + of_nat (length buffer)\<rparr>
     in if \<not> ok status then
          (kEof, result,
            (ReportDrop (of_nat kBlockSize) status (r1\<lparr>rd_buffer := []\<rparr>))\<lparr>rd_eof := True\<rparr>)
        else ReadPhysicalRecord crc result
               (if length buffer < kBlockSize then r1\<lparr>rd_eof := True\<rparr> else r1))"
  using assms by (subst ReadPhysicalRecord.simps) (simp add: Let_def)

lemma ReadPhysicalRecord_end:
  "length (rd_buffer r) < kHeaderSize \<Longrightarrow> rd_eof r \<Longrightarrow>
   ReadPhysicalRecord crc result r = (kEof, result, r\<lparr>rd_buffer := []\<rparr>)"
  by (subst ReadPhysicalRecord.simps) simp

lemma ReadPhysicalRecord_parse:
  "kHeaderSize \<le> length (rd_buffer r) \<Longrightarrow>
   ReadPhysicalRecord crc result r = ParsePhysicalRecord crc result r"
  by (subst ReadPhysicalRecord.simps) simp

lemma ReadPhysicalRecord_unread:
  "ReadPhysicalRecord crc result r = (t, res, r') \<Longrightarrow>
   unread r' \<le> unread r \<and> (t \<noteq> kEof \<longrightarrow> unread r' < unread r)"
proof (induction "if length (rd_buffer r) < kHeaderSize then (if rd_eof r then 1 else 2) else 0::nat"
    arbitrary: r rule: less_induct)
  case less
  show ?case
  proof (cases "length (rd_buffer r) < kHeaderSize")
    case short: True
    show ?thesis
    proof (cases "rd_eof r")
      case True
      with less.prems short show ?thesis by (auto simp: ReadPhysicalRecord_end unread_def)
    next
      case False
      obtain status data fl where
        rd: "SequentialFile_Read kBlockSize (rd_file r) = (status, data, fl)"
        by (rule prod_cases3)
      define buffer where "buffer = (case data of None \<Rightarrow> [] | Some d \<Rightarrow> d)"
      define r1 where "r1 = r\<lparr>rd_file := fl, rd_buffer := buffer,
          rd_end_of_buffer_offset := rd_end_of_buffer_offset r + of_nat (length buffer)\<rparr>"
      define r2 where "r2 = (if length buffer < kBlockSize then r1\<lparr>rd_eof := True\<rparr> else r1)"
      have len: "unread r2 = length (sf_rest (rd_file r))" "unread r1 = unread r2"
        using SequentialFile_Read_rest [OF rd]
        by (auto simp: unread_def r2_def r1_def buffer_def split: option.splits)
      note fill = ReadPhysicalRecord_fill [OF short False rd, of crc result, unfolded Let_def,
          folded buffer_def, folded r1_def, folded r2_def]
      show ?thesis
      proof (cases "ok status")
        case True
        then have "ReadPhysicalRecord crc result r2 = (t, res, r')" using less.prems fill by simp
        moreover have "(if length (rd_buffer r2) < kHeaderSize then (if rd_eof r2 then 1 else 2) else 0)
            < (if length (rd_buffer r) < kHeaderSize then (if rd_eof r then 1 else 2) else 0::nat)"
          using short False by (auto simp: r2_def r1_def)
        ultimately have "unread r' \<le> unread r2 \<and> (t \<noteq> kEof \<longrightarrow> unread r' < unread r2)"
          by (intro less.hyps)
        then show ?thesis using len by (auto simp: unread_def)
      next
        case False
        then show ?thesis using less.prems fill len by (auto simp: unread_def r1_def)
      qed
    qed
  next
    case False
    with less.prems ParsePhysicalRecord_unread [of crc result r t res r'] show ?thesis
      by (auto simp: ReadPhysicalRecord_parse)
  qed
qed

lemma ReadRecord_iteration_unread:
  assumes "ReadRecord_iteration crc vars r = x"
  shows "case x of Inl (res, r') \<Rightarrow> unread r' \<le> unread r \<and> (res \<noteq> None \<longrightarrow> unread r' < unread r)
    | Inr (vars', r') \<Rightarrow> unread r' < unread r"
proof -
  obtain f b s p where v: "vars = (f, b, s, p)" by (rule prod_cases4)
  obtain t fr r1 where phys: "ReadPhysicalRecord crc f r = (t, fr, r1)" by (rule prod_cases3)
  note u = ReadPhysicalRecord_unread [OF phys]
  have [simp]: "unread (q\<lparr>rd_resyncing := False\<rparr>) = unread q"
    "unread (q\<lparr>rd_last_record_offset := l\<rparr>) = unread q"
    "unread (ReportCorruption n m q) = unread q" for q l n m
    by (simp_all add: unread_def)
  show ?thesis
    using u unfolding assms [symmetric] ReadRecord_iteration_def v prod.case phys Let_def
    by simp
qed

function ReadRecord_loop :: "(bytes \<Rightarrow> u32) \<Rightarrow> ReadVars \<Rightarrow> Reader \<Rightarrow> bytes option \<times> Reader" where
  "ReadRecord_loop crc vars r =
     (case ReadRecord_iteration crc vars r of
        Inl res \<Rightarrow> res
      | Inr (vars', r') \<Rightarrow> ReadRecord_loop crc vars' r')"
  by auto
termination
  by (relation "measure (\<lambda>(crc, vars, r). unread r)")
    (auto dest: ReadRecord_iteration_unread)

declare ReadRecord_loop.simps [simp del]

text \<open>
  \<^verbatim>\<open>ReadRecord\<close>: \<^verbatim>\<open>None\<close> where the code returns \<^verbatim>\<open>false\<close>, and the record
  otherwise.
\<close>

definition ReadRecord :: "(bytes \<Rightarrow> u32) \<Rightarrow> Reader \<Rightarrow> bytes option \<times> Reader" where
  "ReadRecord crc r =
     (let (started, r1) =
        (if rd_last_record_offset r < rd_initial_offset r then SkipToInitialBlock r else (True, r))
      in if \<not> started then (None, r1) else ReadRecord_loop crc ([], False, [], 0) r1)"

lemma ReadRecord_loop_unread:
  "ReadRecord_loop crc vars r = (res, r') \<Longrightarrow>
   unread r' \<le> unread r \<and> (res \<noteq> None \<longrightarrow> unread r' < unread r)"
proof (induction crc vars r rule: ReadRecord_loop.induct)
  case (1 crc vars r)
  show ?case
  proof (cases "ReadRecord_iteration crc vars r")
    case (Inl x)
    with 1 ReadRecord_iteration_unread [OF Inl] show ?thesis
      by (subst (asm) ReadRecord_loop.simps) auto
  next
    case (Inr x)
    obtain vars' r1 where x: "x = (vars', r1)" by (cases x)
    have "ReadRecord_loop crc vars' r1 = (res, r')"
      using 1(2) Inr by (subst (asm) ReadRecord_loop.simps) (simp add: x)
    from 1(1) [OF Inr x [symmetric] this] ReadRecord_iteration_unread [OF Inr] show ?thesis
      by (auto simp: x)
  qed
qed

lemma SkipToInitialBlock_unread: "SkipToInitialBlock r = (b, r') \<Longrightarrow> unread r' \<le> unread r"
  by (auto simp: SkipToInitialBlock_def SequentialFile_Skip_def Let_def unread_def
      split: if_splits prod.splits list.splits option.splits)

lemma ReadRecord_unread:
  "ReadRecord crc r = (Some x, r') \<Longrightarrow> unread r' < unread r"
  by (auto simp: ReadRecord_def Let_def split: if_splits prod.splits
      dest!: ReadRecord_loop_unread SkipToInitialBlock_unread)

text \<open>
  How the clients read a log: \<^verbatim>\<open>ReadRecord\<close> until it returns \<^verbatim>\<open>false\<close>.
\<close>

function ReadRecords :: "(bytes \<Rightarrow> u32) \<Rightarrow> Reader \<Rightarrow> bytes list \<times> Reader" where
  "ReadRecords crc r =
     (case ReadRecord crc r of
        (None, r') \<Rightarrow> ([], r')
      | (Some x, r') \<Rightarrow> (case ReadRecords crc r' of (xs, r'') \<Rightarrow> (x # xs, r'')))"
  by auto
termination
  by (relation "measure (\<lambda>(crc, r). unread r)") (auto dest: sym ReadRecord_unread)

declare ReadRecords.simps [simp del]

end
