(* ===== verification/Wal_Log.thy ===== *)
theory Wal_Log
  imports Wal_Writer Wal_Reader
begin

text \<open>
  The reader against the writer: what the reader of
  \<^verbatim>\<open>src/wal/wal_reader.cc\<close> returns on a log that
  \<^verbatim>\<open>src/wal/wal_writer.cc\<close> wrote, whole or cut off at any byte by a crash.
\<close>

section \<open>Positions in a log\<close>

lemma take_append_ge: "length xs \<le> n \<Longrightarrow> take n (xs @ ys) = xs @ take (n - length xs) ys"
  by simp

text \<open>
  The reader stands at offset \<^verbatim>\<open>off\<close> of a block, the unread bytes are \<^verbatim>\<open>rest\<close>,
  and nothing has gone wrong: the buffer is the rest of the block and \<^verbatim>\<open>eof_\<close>
  is set when the block is not a whole one.
\<close>

definition reading :: "Reader \<Rightarrow> nat \<Rightarrow> bytes \<Rightarrow> bool" where
  "reading r off rest \<longleftrightarrow>
     off \<le> kBlockSize \<and> rd_buffer r = take (kBlockSize - off) rest
     \<and> sf_rest (rd_file r) = drop (kBlockSize - off) rest
     \<and> (rd_eof r \<longleftrightarrow> length rest < kBlockSize - off)
     \<and> sf_calls (rd_file r) = [] \<and> rd_initial_offset r = 0 \<and> \<not> rd_resyncing r
     \<and> rd_reports r = []"

lemma reading_new:
  "sf_calls f = [] \<Longrightarrow> reading (Reader_new f rep chk 0) kBlockSize (sf_rest f)"
  by (simp add: reading_def Reader_new_def)

lemma wal_length_decode:
  assumes "n < 65536"
  shows "unat ((ucast (of_nat (n mod 256) :: byte) AND 0xff :: u32)
    OR push_bit 8 (ucast (of_nat (n div 256) :: byte) AND 0xff)) = n"
proof -
  define w where "w = (of_nat n :: u32)"
  have w: "unat w = n" using assms by (simp add: w_def unat_of_nat take_bit_nat_eq_self)
  have ff: "(0xff::u32) = mask 8" by (simp add: mask_eq_exp_minus_1)
  have lo: "(of_nat (n mod 256) :: byte) = ucast w"
    by (simp add: word_unat_eq_iff unat_of_nat unsigned_ucast_eq w take_bit_eq_mod)
  have hi: "(of_nat (n div 256) :: byte) = ucast (drop_bit 8 w)"
    by (simp add: word_unat_eq_iff unat_of_nat unsigned_ucast_eq unat_drop_bit_div w take_bit_eq_mod)
  have t: "take_bit 16 w = w" using assms w by (intro take_bit_word_small) simp
  have b: "bit w k \<Longrightarrow> k < 16" for k
    using arg_cong [OF t, of "\<lambda>w. bit w k"] by (simp add: bit_simps)
  have "(ucast (ucast w :: byte) AND mask 8 :: u32)
      OR push_bit 8 (ucast (ucast (drop_bit 8 w) :: byte) AND mask 8) = w"
  proof (rule bit_eqI)
    fix k assume "possible_bit TYPE(u32) k"
    then show "bit ((ucast (ucast w :: byte) AND mask 8 :: u32)
      OR push_bit 8 (ucast (ucast (drop_bit 8 w) :: byte) AND mask 8)) k = bit w k"
      using b [of k] by (cases "k < 8") (auto simp: bit_simps)
  qed
  then show ?thesis unfolding lo hi ff by (simp only: w)
qed

lemma parse_complete:
  assumes r: "reading r off (wal_header crc t data @ data @ rest)"
    and fits: "off + kHeaderSize + length data \<le> kBlockSize" and t: "t \<noteq> kZeroType"
  shows "\<exists>r'. ReadPhysicalRecord crc res r = (of_nat (RecordType_code t), data, r')
    \<and> reading r' (off + kHeaderSize + length data) rest"
proof -
  let ?n = "length data"
  let ?b = "rd_buffer r"
  have b: "?b = wal_header crc t data @ data @ take (kBlockSize - off - kHeaderSize - ?n) rest"
    using r fits by (simp add: reading_def)
  have h: "?b ! 4 = of_nat (?n mod 256)" "?b ! 5 = of_nat (?n div 256)"
    "?b ! 6 = of_nat (RecordType_code t)" "drop 6 ?b = of_nat (RecordType_code t) # drop 7 ?b"
    "DecodeFixed32 ?b = crc (of_nat (RecordType_code t) # data)"
    unfolding b by (simp_all add: wal_header_def nth_append)
  have n: "?n < 65536" using fits by simp
  have ty: "(scast (of_nat (RecordType_code t) :: byte) :: u32) = of_nat (RecordType_code t)"
    by (cases t) simp_all
  have nz: "(of_nat (RecordType_code t) :: u32) \<noteq> 0" using t by (cases t) simp_all
  have d: "take ?n (drop 7 ?b) = data" "length ?b \<ge> 7 + ?n" unfolding b by simp_all
  define r' where "r' = r\<lparr>rd_buffer := drop (kHeaderSize + ?n) ?b\<rparr>"
  have "ReadPhysicalRecord crc res r = ParsePhysicalRecord crc res r"
    using d by (intro ReadPhysicalRecord_parse) simp
  also have "\<dots> = (of_nat (RecordType_code t), data, r')"
    unfolding ParsePhysicalRecord_def Let_def h wal_length_decode [OF n] ty r'_def
    using d nz r by (simp add: reading_def)
  finally have "ReadPhysicalRecord crc res r = (of_nat (RecordType_code t), data, r')" .
  moreover have "reading r' (off + kHeaderSize + ?n) rest"
    using r fits unfolding reading_def r'_def by (auto simp: b drop_Cons')
  ultimately show ?thesis by blast
qed

lemma parse_cut:
  assumes r: "reading r off (take m (wal_header crc t data @ data))"
    and fits: "off + kHeaderSize + length data \<le> kBlockSize" and m: "m < kHeaderSize + length data"
  shows "\<exists>r'. ReadPhysicalRecord crc res r = (kEof, res, r') \<and> rd_reports r' = []"
proof -
  let ?n = "length data"
  let ?b = "rd_buffer r"
  have eof: "rd_eof r" and b: "?b = take m (wal_header crc t data @ data)" and rep: "rd_reports r = []"
    using r fits m by (auto simp: reading_def)
  show ?thesis
  proof (cases "m < kHeaderSize")
    case True
    then have "length ?b < kHeaderSize" by (simp add: b)
    then show ?thesis using eof rep by (simp add: ReadPhysicalRecord_end)
  next
    case False
    then have h: "?b ! 4 = of_nat (?n mod 256)" "?b ! 5 = of_nat (?n div 256)"
      "length ?b = m"
      using m unfolding b by (simp_all add: wal_header_def nth_append)
    have n: "?n < 65536" using fits by simp
    have "ReadPhysicalRecord crc res r = ParsePhysicalRecord crc res r"
      using False h by (intro ReadPhysicalRecord_parse) simp
    also have "\<dots> = (kEof, res, r\<lparr>rd_buffer := []\<rparr>)"
      unfolding ParsePhysicalRecord_def Let_def h wal_length_decode [OF n] using m eof by simp
    finally show ?thesis using rep by simp
  qed
qed

lemma fill_block:
  assumes r: "reading r off rest" and off: "kBlockSize - off < kHeaderSize"
    and len: "kBlockSize - off \<le> length rest"
  shows "\<exists>r'. ReadPhysicalRecord crc res r = ReadPhysicalRecord crc res r'
    \<and> reading r' 0 (drop (kBlockSize - off) rest)"
proof -
  let ?rest = "drop (kBlockSize - off) rest"
  have b: "length (rd_buffer r) < kHeaderSize" "\<not> rd_eof r"
    and sf: "sf_rest (rd_file r) = ?rest" "sf_calls (rd_file r) = []"
    using assms by (auto simp: reading_def)
  have rd: "SequentialFile_Read kBlockSize (rd_file r) = (Status_OK, Some (take kBlockSize ?rest),
      (rd_file r)\<lparr>sf_rest := drop kBlockSize ?rest\<rparr>)"
    using sf by (simp add: SequentialFile_Read_def)
  note fill = ReadPhysicalRecord_fill [OF b rd, of crc res, unfolded Let_def]
  show ?thesis
    by (rule exI, rule conjI, subst fill, simp)
      (use r sf in \<open>auto simp: reading_def\<close>)
qed

text \<open>The next physical record is whole.\<close>

lemma read_complete:
  assumes r: "reading r off (wal_pad off @ wal_header crc t data @ data @ rest)"
    and fits: "wal_start off + kHeaderSize + length data \<le> kBlockSize" and t: "t \<noteq> kZeroType"
  shows "\<exists>r'. ReadPhysicalRecord crc res r = (of_nat (RecordType_code t), data, r')
    \<and> reading r' (wal_start off + kHeaderSize + length data) rest"
proof (cases "kBlockSize - off < kHeaderSize")
  case True
  then have len: "length (wal_pad off) = kBlockSize - off" and st: "wal_start off = 0"
    by (simp_all add: wal_pad_def wal_start_def)
  obtain r' where r': "ReadPhysicalRecord crc res r = ReadPhysicalRecord crc res r'"
    "reading r' 0 (wal_header crc t data @ data @ rest)"
    using fill_block [OF r True, of crc res] by (auto simp: len)
  show ?thesis
    using parse_complete [OF r'(2), of res] fits t unfolding r'(1) st by simp
next
  case False
  then have "wal_pad off = []" and st: "wal_start off = off"
    by (simp_all add: wal_pad_def wal_start_def)
  then have "reading r off (wal_header crc t data @ data @ rest)" using r by simp
  from parse_complete [OF this, of res] fits t show ?thesis by (simp add: st)
qed

text \<open>The log ends inside the next physical record.\<close>

lemma read_cut:
  assumes r: "reading r off (take m (wal_pad off @ wal_header crc t data @ data))"
    and fits: "wal_start off + kHeaderSize + length data \<le> kBlockSize"
    and m: "m < length (wal_pad off) + kHeaderSize + length data"
  shows "\<exists>r'. ReadPhysicalRecord crc res r = (kEof, res, r') \<and> rd_reports r' = []"
proof (cases "kBlockSize - off < kHeaderSize")
  case True
  then have len: "length (wal_pad off) = kBlockSize - off" and st: "wal_start off = 0"
    by (simp_all add: wal_pad_def wal_start_def)
  show ?thesis
  proof (cases "m < kBlockSize - off")
    case short: True
    then have "length (rd_buffer r) < kHeaderSize" "rd_eof r" "rd_reports r = []"
      using r True len by (auto simp: reading_def)
    then show ?thesis by (simp add: ReadPhysicalRecord_end)
  next
    case False
    then have l: "kBlockSize - off \<le> length (take m (wal_pad off @ wal_header crc t data @ data))"
      using len by simp
    have eq: "drop (kBlockSize - off) (take m (wal_pad off @ wal_header crc t data @ data))
        = take (m - (kBlockSize - off)) (wal_header crc t data @ data)"
      by (simp only: len [symmetric] drop_take drop_append) simp
    obtain r' where r': "ReadPhysicalRecord crc res r = ReadPhysicalRecord crc res r'"
      "reading r' 0 (take (m - (kBlockSize - off)) (wal_header crc t data @ data))"
      using fill_block [OF r True l, of crc res] unfolding eq by blast
    show ?thesis
      using parse_cut [OF r'(2), of res] fits m False len unfolding r'(1) st by simp
  qed
next
  case False
  then have p: "wal_pad off = []" and st: "wal_start off = off"
    by (simp_all add: wal_pad_def wal_start_def)
  then have "reading r off (take m (wal_header crc t data @ data))" using r by simp
  from parse_cut [OF this, of res] fits m show ?thesis by (simp add: st p)
qed

section \<open>Logical records\<close>

text \<open>
  What one iteration of the loop of \<^verbatim>\<open>ReadRecord\<close> does with the fragments of a
  record; \<^verbatim>\<open>b\<close> tells that the fragment is the first of its record.
\<close>

lemma iteration_fragment:
  assumes phys: "ReadPhysicalRecord crc f r = (of_nat (RecordType_code t), data, r1)"
    and r1: "reading r1 off rest"
    and t: "t = (if b \<and> e then kFullType else if b then kFirstType else if e then kLastType else kMiddleType)"
    and sc: "b \<Longrightarrow> scratch = []"
  shows "\<exists>pr' l. ReadRecord_iteration crc (f, \<not> b, scratch, pr) r =
    (if e then Inl (Some (scratch @ data), r1\<lparr>rd_resyncing := False, rd_last_record_offset := l\<rparr>)
     else Inr ((data, True, scratch @ data, pr'), r1\<lparr>rd_resyncing := False\<rparr>))"
proof -
  define ph where "ph = rd_end_of_buffer_offset r1 - of_nat (length (rd_buffer r1))
      - of_nat kHeaderSize - of_nat (length data)"
  have rs: "\<not> rd_resyncing r1" using r1 by (simp add: reading_def)
  show ?thesis
    unfolding ReadRecord_iteration_def prod.case phys Let_def ph_def [symmetric]
    by (intro exI [of _ "if b then ph else pr"], cases b; cases e) (simp_all add: t sc rs)
qed

lemma iteration_eof:
  assumes "ReadPhysicalRecord crc f r = (kEof, res, r1)"
  shows "ReadRecord_iteration crc (f, b, scratch, pr) r = Inl (None, r1\<lparr>rd_resyncing := False\<rparr>)"
  using assms by (simp add: ReadRecord_iteration_def)

lemma reading_updates [simp]:
  "reading r off rest \<Longrightarrow> reading (r\<lparr>rd_resyncing := False\<rparr>) off rest"
  "reading (r\<lparr>rd_last_record_offset := l\<rparr>) off rest = reading r off rest"
  by (simp_all add: reading_def)

lemma ReadRecord_loop_fragments:
  assumes "off \<le> kBlockSize" "b \<Longrightarrow> scratch = []"
    and "reading r off (wal_layout crc off (wal_fragments off b data) @ rest)"
  shows "\<exists>r'. ReadRecord_loop crc (f, \<not> b, scratch, pr) r = (Some (scratch @ data), r')
    \<and> reading r' (wal_offset off (wal_fragments off b data)) rest"
  using assms
proof (induction off b data arbitrary: r f scratch pr rule: wal_fragments.induct)
  case (1 off b data)
  define avail where "avail = kBlockSize - wal_start off - kHeaderSize"
  define k where "k = min (length data) avail"
  define e where "e = (length data = k)"
  define t where "t = (if b \<and> e then kFullType else if b then kFirstType
               else if e then kLastType else kMiddleType)"
  let ?off = "wal_start off + kHeaderSize + k"
  let ?more = "wal_fragments ?off False (drop k data)"
  have lk: "length (take k data) = k" by (simp add: k_def)
  have frags: "wal_fragments off b data = (t, take k data) # (if e then [] else ?more)"
    by (subst wal_fragments.simps) (simp add: Let_def avail_def k_def t_def e_def)
  have fits: "?off \<le> kBlockSize"
    using "1.prems"(1) by (auto simp: k_def avail_def wal_start_def)
  have nz: "t \<noteq> kZeroType" by (simp add: t_def)
  have layout: "wal_layout crc off (wal_fragments off b data) @ rest = wal_pad off
      @ wal_header crc t (take k data) @ take k data
      @ ((if e then [] else wal_layout crc ?off ?more) @ rest)"
    unfolding frags using lk by simp
  obtain r1 where r1: "ReadPhysicalRecord crc f r = (of_nat (RecordType_code t), take k data, r1)"
      "reading r1 ?off ((if e then [] else wal_layout crc ?off ?more) @ rest)"
    using read_complete [OF "1.prems"(3) [unfolded layout] _ nz, of f] fits unfolding lk by blast
  obtain pr' l where it: "ReadRecord_iteration crc (f, \<not> b, scratch, pr) r =
    (if e then Inl (Some (scratch @ take k data), r1\<lparr>rd_resyncing := False, rd_last_record_offset := l\<rparr>)
     else Inr ((take k data, True, scratch @ take k data, pr'), r1\<lparr>rd_resyncing := False\<rparr>))"
    using iteration_fragment [OF r1 t_def "1.prems"(2)] by blast
  show ?case
  proof (cases e)
    case True
    then have "take k data = data" by (simp add: e_def)
    then show ?thesis
      using True it r1(2) lk unfolding frags by (subst ReadRecord_loop.simps) simp
  next
    case False
    then have rd: "reading (r1\<lparr>rd_resyncing := False\<rparr>) ?off (wal_layout crc ?off ?more @ rest)"
      using r1(2) by simp
    have "\<exists>r'. ReadRecord_loop crc (take k data, \<not> False, scratch @ take k data, pr')
        (r1\<lparr>rd_resyncing := False\<rparr>) = (Some ((scratch @ take k data) @ drop k data), r')
      \<and> reading r' (wal_offset ?off ?more) rest"
      by (rule "1.IH" [OF avail_def k_def e_def t_def [folded e_def] _ fits _ rd]) (use False in auto)
    then show ?thesis
      using False it lk unfolding frags by (subst ReadRecord_loop.simps) simp
  qed
qed

text \<open>The same when the log is cut inside the record: nothing is returned or reported.\<close>

lemma loop_eof:
  "ReadPhysicalRecord crc f r = (kEof, res, r1) \<Longrightarrow>
   ReadRecord_loop crc (f, b, scratch, pr) r = (None, r1\<lparr>rd_resyncing := False\<rparr>)"
  by (subst ReadRecord_loop.simps) (simp add: iteration_eof)

lemma ReadRecord_loop_cut:
  assumes "off \<le> kBlockSize" "b \<Longrightarrow> scratch = []"
    and "n < length (wal_layout crc off (wal_fragments off b data))"
    and "reading r off (take n (wal_layout crc off (wal_fragments off b data)))"
  shows "\<exists>r'. ReadRecord_loop crc (f, \<not> b, scratch, pr) r = (None, r') \<and> rd_reports r' = []"
  using assms
proof (induction off b data arbitrary: r f scratch pr n rule: wal_fragments.induct)
  case (1 off b data)
  define avail where "avail = kBlockSize - wal_start off - kHeaderSize"
  define k where "k = min (length data) avail"
  define e where "e = (length data = k)"
  define t where "t = (if b \<and> e then kFullType else if b then kFirstType
               else if e then kLastType else kMiddleType)"
  let ?off = "wal_start off + kHeaderSize + k"
  let ?more = "wal_fragments ?off False (drop k data)"
  let ?head = "wal_pad off @ wal_header crc t (take k data) @ take k data"
  have lk: "length (take k data) = k" by (simp add: k_def)
  have frags: "wal_fragments off b data = (t, take k data) # (if e then [] else ?more)"
    by (subst wal_fragments.simps) (simp add: Let_def avail_def k_def t_def e_def)
  have fits: "?off \<le> kBlockSize"
    using "1.prems"(1) by (auto simp: k_def avail_def wal_start_def)
  have nz: "t \<noteq> kZeroType" by (simp add: t_def)
  have layout: "wal_layout crc off (wal_fragments off b data) =
      ?head @ (if e then [] else wal_layout crc ?off ?more)"
    unfolding frags using lk by simp
  show ?case
  proof (cases "n < length ?head")
    case True
    then have "reading r off (take n ?head)" using "1.prems"(4) unfolding layout by simp
    then obtain r1 where "ReadPhysicalRecord crc f r = (kEof, f, r1)" "rd_reports r1 = []"
      using read_cut [OF _ _, of r off n crc t "take k data" f] True fits unfolding lk
      by (auto simp: lk simp del: length_take)
    then show ?thesis by (simp add: loop_eof)
  next
    case False
    let ?n = "n - length ?head"
    have e: "\<not> e" and n: "?n < length (wal_layout crc ?off ?more)"
      using "1.prems"(3) False unfolding layout by (auto split: if_splits)
    have "take n (wal_layout crc off (wal_fragments off b data)) =
        ?head @ take ?n (wal_layout crc ?off ?more)"
      using e unfolding layout by (simp only: if_False take_append_ge [OF leI [OF False]])
    then have "reading r off (wal_pad off @ wal_header crc t (take k data) @ take k data
        @ take ?n (wal_layout crc ?off ?more))"
      using "1.prems"(4) by (simp only: append_assoc)
    then obtain r1 where r1: "ReadPhysicalRecord crc f r = (of_nat (RecordType_code t), take k data, r1)"
        "reading r1 ?off (take ?n (wal_layout crc ?off ?more))"
      using read_complete [OF _ _ nz, of r off crc "take k data" _ f] fits unfolding lk by blast
    obtain pr' where it: "ReadRecord_iteration crc (f, \<not> b, scratch, pr) r =
        Inr ((take k data, True, scratch @ take k data, pr'), r1\<lparr>rd_resyncing := False\<rparr>)"
      using iteration_fragment [OF r1 t_def "1.prems"(2)] e by (auto split: if_splits)
    have rd: "reading (r1\<lparr>rd_resyncing := False\<rparr>) ?off (take ?n (wal_layout crc ?off ?more))"
      using r1(2) by simp
    have "\<exists>r'. ReadRecord_loop crc (take k data, \<not> False, scratch @ take k data, pr')
        (r1\<lparr>rd_resyncing := False\<rparr>) = (None, r') \<and> rd_reports r' = []"
      by (rule "1.IH" [OF avail_def k_def e_def t_def [folded e_def] e fits _ n rd]) auto
    then show ?thesis using it by (subst ReadRecord_loop.simps) simp
  qed
qed

lemma read_end:
  assumes "reading r off []"
  shows "\<exists>r'. ReadPhysicalRecord crc res r = (kEof, res, r') \<and> rd_reports r' = []"
proof (cases "off = kBlockSize")
  case True
  then obtain r' where r': "ReadPhysicalRecord crc res r = ReadPhysicalRecord crc res r'" "reading r' 0 []"
    using fill_block [OF assms, of crc res] by auto
  then show ?thesis by (simp add: reading_def ReadPhysicalRecord_end)
next
  case False
  with assms have "rd_eof r" "rd_buffer r = []" "rd_reports r = []" by (auto simp: reading_def)
  then show ?thesis by (simp add: ReadPhysicalRecord_end)
qed

section \<open>Reading a log back\<close>

text \<open>How many of the records lie wholly in the first \<^verbatim>\<open>n\<close> bytes.\<close>

fun wal_complete :: "(bytes \<Rightarrow> u32) \<Rightarrow> nat \<Rightarrow> nat \<Rightarrow> bytes list \<Rightarrow> nat" where
  "wal_complete crc off n [] = 0"
| "wal_complete crc off n (r # rs) =
     (let ps = wal_fragments off True r; len = length (wal_layout crc off ps)
      in if n < len then 0 else Suc (wal_complete crc (wal_offset off ps) (n - len) rs))"

lemma wal_complete_le: "wal_complete crc off n rs \<le> length rs"
  by (induction crc off n rs rule: wal_complete.induct) (auto simp: Let_def)

lemma wal_complete_iff:
  "j \<le> length rs \<Longrightarrow>
   length (wal_layout crc off (wal_records off (take j rs))) \<le> n \<longleftrightarrow> j \<le> wal_complete crc off n rs"
proof (induction crc off n rs arbitrary: j rule: wal_complete.induct)
  case (2 crc off n r rs)
  show ?case
  proof (cases j)
    case (Suc i)
    let ?ps = "wal_fragments off True r"
    show ?thesis
      using "2.IH" [of ?ps "length (wal_layout crc off ?ps)" i] "2.prems" Suc
      by (auto simp: Let_def wal_layout_append)
  qed simp
qed simp

lemma ReadRecord_reading: "reading r off rest \<Longrightarrow>
   ReadRecord crc r = ReadRecord_loop crc ([], False, [], 0) r"
  by (simp add: ReadRecord_def reading_def)

lemma ReadRecords_log:
  assumes "off \<le> kBlockSize"
    and "reading r off (take n (wal_layout crc off (wal_records off rs)))"
  shows "\<exists>r'. ReadRecords crc r = (take (wal_complete crc off n rs) rs, r') \<and> rd_reports r' = []"
  using assms
proof (induction rs arbitrary: off n r)
  case Nil
  then have "reading r off []" by simp
  from read_end [OF this, of crc "[]"] obtain r1 where
    "ReadPhysicalRecord crc [] r = (kEof, [], r1)" "rd_reports r1 = []" by auto
  then show ?case
    using ReadRecord_reading [OF Nil(2)] by (subst ReadRecords.simps) (simp add: loop_eof)
next
  case (Cons x rs)
  let ?ps = "wal_fragments off True x"
  let ?len = "length (wal_layout crc off ?ps)"
  let ?off = "wal_offset off ?ps"
  have layout: "wal_layout crc off (wal_records off (x # rs)) =
      wal_layout crc off ?ps @ wal_layout crc ?off (wal_records ?off rs)"
    by (simp add: Let_def wal_layout_append)
  have off: "?off \<le> kBlockSize" by (intro wal_offset_le wal_fragments_fits Cons.prems)
  show ?case
  proof (cases "n < ?len")
    case True
    then have "reading r off (take n (wal_layout crc off ?ps))"
      using Cons.prems(2) unfolding layout by simp
    then obtain r1 where "ReadRecord_loop crc ([], \<not> True, [], 0) r = (None, r1)" "rd_reports r1 = []"
      using ReadRecord_loop_cut [OF Cons.prems(1) _ True] by blast
    with True ReadRecord_reading [OF Cons.prems(2), of crc] show ?thesis
      by (subst ReadRecords.simps) (simp add: Let_def)
  next
    case False
    let ?rest = "take (n - ?len) (wal_layout crc ?off (wal_records ?off rs))"
    have "reading r off (wal_layout crc off ?ps @ ?rest)"
      using Cons.prems(2) False unfolding layout by simp
    from ReadRecord_loop_fragments [OF Cons.prems(1) _ this, of "[]" "[]" 0] obtain r1 where
      r1: "ReadRecord_loop crc ([], False, [], 0) r = (Some x, r1)" "reading r1 ?off ?rest" by auto
    obtain r2 where "ReadRecords crc r1 = (take (wal_complete crc ?off (n - ?len) rs) rs, r2)"
      "rd_reports r2 = []"
      using Cons.IH [OF off r1(2)] by blast
    with False r1(1) ReadRecord_reading [OF Cons.prems(2), of crc] show ?thesis
      by (subst ReadRecords.simps) (simp add: Let_def)
  qed
qed

text \<open>A fresh writer is at offset 0 and a fresh reader at the end of a block: the same place.\<close>

lemma wal_start_ends: "wal_start 0 = 0" "wal_start kBlockSize = 0"
  by (simp_all add: wal_start_def)

lemma wal_fragments_start: "wal_fragments 0 b d = wal_fragments kBlockSize b d"
  by (subst (1 2) wal_fragments.simps) (simp only: wal_start_ends)

lemma wal_layout_start:
  "wal_layout crc 0 (wal_records 0 rs) = wal_layout crc kBlockSize (wal_records kBlockSize rs)"
proof (cases rs)
  case (Cons r rest)
  obtain p ps where ps: "wal_fragments kBlockSize True r = p # ps"
    by (subst (asm) wal_fragments.simps) (auto simp: Let_def)
  obtain t d where p: "p = (t, d)" by (cases p)
  show ?thesis
    by (simp add: Cons Let_def wal_fragments_start ps p wal_start_def wal_pad_def del: wal_sizes)
      simp
qed simp

lemma AddRecords_new:
  assumes "crc_extends crc ext_crc" "wf_healthy f0" "wf_written f0 = []"
    and "AddRecords WritableFile_Append WritableFile_Flush ext_crc (Writer_new crc f0) rs = (s, w)"
  shows "ok s \<and> wf_written (wr_dest w) = wal_layout crc kBlockSize (wal_records kBlockSize rs)"
proof -
  have "ok s \<and> wf_healthy (wr_dest w) \<and> wf_written (wr_dest w) = wf_written (wr_dest (Writer_new crc f0))
      @ wal_layout crc (wr_block_offset (Writer_new crc f0))
          (wal_records (wr_block_offset (Writer_new crc f0)) rs)"
    by (rule posix.AddRecords_ok) (use assms in \<open>simp_all add: Writer_new_def\<close>)
  then show ?thesis using assms(3) by (simp add: Writer_new_def wal_layout_start)
qed

section \<open>Properties\<close>

text \<open>
  C1: Crash safety of the log.  Records are appended to a new log on a file
  whose system calls succeed, and only the first \<^verbatim>\<open>n\<close> bytes survive.  Then every
  append succeeded, and reading the survivor back yields exactly the first \<^verbatim>\<open>k\<close>
  records, in order and unchanged, and reports no corruption; and \<^verbatim>\<open>k\<close> counts
  precisely the records that were wholly on the file, so a record is lost only
  if the cut came before its last byte.
\<close>

theorem wal_crash_recovery:
  assumes crc: "crc_extends crc ext_crc"
    and f0: "wf_healthy f0" "wf_written f0 = []"
    and add: "AddRecords WritableFile_Append WritableFile_Flush ext_crc (Writer_new crc f0) rs = (s, w)"
    and survivor: "sf_rest f = take n (wf_written (wr_dest w))" "sf_calls f = []"
  shows "ok s \<and> (\<exists>k r'. ReadRecords crc (Reader_new f rep chk 0) = (take k rs, r')
    \<and> rd_reports r' = [] \<and> k \<le> length rs
    \<and> (\<forall>j s' w'. j \<le> length rs \<and>
          AddRecords WritableFile_Append WritableFile_Flush ext_crc (Writer_new crc f0) (take j rs) = (s', w')
        \<longrightarrow> (length (wf_written (wr_dest w')) \<le> n \<longleftrightarrow> j \<le> k)))"
proof -
  let ?k = "wal_complete crc kBlockSize n rs"
  note w = AddRecords_new [OF crc f0 add]
  have "reading (Reader_new f rep chk 0) kBlockSize
      (take n (wal_layout crc kBlockSize (wal_records kBlockSize rs)))"
    using reading_new [OF survivor(2)] w survivor(1) by simp
  from ReadRecords_log [OF _ this] obtain r' where
    r': "ReadRecords crc (Reader_new f rep chk 0) = (take ?k rs, r')" "rd_reports r' = []" by auto
  have "length (wf_written (wr_dest w')) \<le> n \<longleftrightarrow> j \<le> ?k"
    if j: "j \<le> length rs"
      "AddRecords WritableFile_Append WritableFile_Flush ext_crc (Writer_new crc f0) (take j rs) = (s', w')"
    for j s' w'
    using AddRecords_new [OF crc f0 j(2)] wal_complete_iff [OF j(1), of crc kBlockSize n] by simp
  with r' w wal_complete_le [of crc kBlockSize n rs] show ?thesis by blast
qed

definition sum_crc :: "u32 \<Rightarrow> bytes \<Rightarrow> u32" where
  "sum_crc = foldl (\<lambda>c b. 31 * c + ucast b)"

lemma sum_crc_extends: "crc_extends (sum_crc 7) sum_crc"
  by (simp add: crc_extends_def sum_crc_def)

lemma wal_crash_recovery_witness:
  "let f0 = WritableFile_new (\<lambda>_. []) (text_bytes ''000003.wal'') [] [] [];
       rs = [[1, 2, 3], [], [4, 5]];
       (s, w) = AddRecords WritableFile_Append WritableFile_Flush sum_crc (Writer_new (sum_crc 7) f0) rs;
       f = \<lparr>sf_filename = [], sf_rest = take 19 (wf_written (wr_dest w)), sf_calls = []\<rparr>
   in ok s \<and> (\<exists>k r'. ReadRecords (sum_crc 7) (Reader_new f True True 0) = (take k rs, r')
        \<and> rd_reports r' = [])"
proof -
  define f0 where "f0 = WritableFile_new (\<lambda>_. []) (text_bytes ''000003.wal'') [] [] []"
  define rs :: "bytes list" where "rs = [[1, 2, 3], [], [4, 5]]"
  obtain s w where add: "AddRecords WritableFile_Append WritableFile_Flush sum_crc
      (Writer_new (sum_crc 7) f0) rs = (s, w)" by (rule prod.exhaust)
  have f0: "wf_healthy f0" "wf_written f0 = []"
    by (simp_all add: f0_def WritableFile_new_def wf_healthy_def wf_written_def)
  define f where "f = \<lparr>sf_filename = [], sf_rest = take 19 (wf_written (wr_dest w)), sf_calls = []\<rparr>"
  have f: "sf_rest f = take 19 (wf_written (wr_dest w))" "sf_calls f = []" by (simp_all add: f_def)
  from wal_crash_recovery [OF sum_crc_extends f0 add f] show ?thesis
    unfolding Let_def f0_def [symmetric] rs_def [symmetric] add prod.case f_def [symmetric] by blast
qed

lemma ParsePhysicalRecord_checked:
  assumes "rd_checksum r" "kHeaderSize \<le> length (rd_buffer r)"
    and "ParsePhysicalRecord crc res r = (t, data, r')" "t \<noteq> kEof" "t \<noteq> kBadRecord"
  shows "\<exists>h post. rd_buffer r = h @ data @ post \<and> length h = 7
    \<and> t = scast (h ! 6) \<and> DecodeFixed32 h = crc (h ! 6 # data)"
proof -
  let ?b = "rd_buffer r"
  define len where "len = unat ((ucast (?b ! 4) AND 0xff :: u32) OR push_bit 8 (ucast (?b ! 5) AND 0xff))"
  have fit: "7 + len \<le> length ?b" and t: "t = scast (?b ! 6)" "data = take len (drop 7 ?b)"
    and c: "crc (take (1 + len) (drop 6 ?b)) = DecodeFixed32 ?b"
    using assms unfolding ParsePhysicalRecord_def Let_def len_def [symmetric]
    by (auto split: if_splits)
  have "?b = take 7 ?b @ data @ drop (7 + len) ?b"
    unfolding t(2) by (metis append_take_drop_id drop_drop add.commute)
  moreover have "drop 6 ?b = ?b ! 6 # drop 7 ?b"
    using fit Cons_nth_drop_Suc [of 6 ?b] by simp
  moreover have "DecodeFixed32 (take 7 ?b) = DecodeFixed32 ?b"
    by (simp add: DecodeFixed32_def)
  ultimately have "?b = take 7 ?b @ data @ drop (7 + len) ?b \<and> length (take 7 ?b) = 7
      \<and> t = scast (take 7 ?b ! 6) \<and> DecodeFixed32 (take 7 ?b) = crc (take 7 ?b ! 6 # data)"
    using fit t c by simp
  then show ?thesis by blast
qed

text \<open>
  C2: With checksums on, the reader hands out no physical record whose checksum
  does not match: a returned payload lies in the unread bytes right behind a
  seven-byte header that carries its type and the checksum of type and payload.
\<close>

theorem ReadPhysicalRecord_checked:
  assumes "rd_checksum r" "ReadPhysicalRecord crc res r = (t, data, r')"
    and "t \<noteq> kEof" "t \<noteq> kBadRecord"
  shows "\<exists>pre h post. rd_buffer r @ sf_rest (rd_file r) = pre @ h @ data @ post \<and> length h = 7
    \<and> t = scast (h ! 6) \<and> DecodeFixed32 h = crc (h ! 6 # data)"
  using assms
proof (induction "if length (rd_buffer r) < kHeaderSize then (if rd_eof r then 1 else 2) else 0::nat"
    arbitrary: r rule: less_induct)
  case less
  show ?case
  proof (cases "length (rd_buffer r) < kHeaderSize")
    case False
    then have "ParsePhysicalRecord crc res r = (t, data, r')"
      using less.prems(2) by (simp add: ReadPhysicalRecord_parse)
    with ParsePhysicalRecord_checked [OF less.prems(1) _ this less.prems(3,4)] False
    obtain h post where "rd_buffer r = h @ data @ post" "length h = 7" "t = scast (h ! 6)"
      "DecodeFixed32 h = crc (h ! 6 # data)" by auto
    then show ?thesis
      by (intro exI [of _ "[]"] exI [of _ h] exI [of _ "post @ sf_rest (rd_file r)"]) simp
  next
    case short: True
    then have ne: "\<not> rd_eof r"
      using less.prems(2,3) ReadPhysicalRecord_end [of r crc res] by auto
    obtain status d fl where
      rd: "SequentialFile_Read kBlockSize (rd_file r) = (status, d, fl)" by (rule prod_cases3)
    define buffer where "buffer = (case d of None \<Rightarrow> [] | Some b \<Rightarrow> b)"
    define r1 where "r1 = r\<lparr>rd_file := fl, rd_buffer := buffer,
        rd_end_of_buffer_offset := rd_end_of_buffer_offset r + of_nat (length buffer)\<rparr>"
    define r2 where "r2 = (if length buffer < kBlockSize then r1\<lparr>rd_eof := True\<rparr> else r1)"
    note fill = ReadPhysicalRecord_fill [OF short ne rd, of crc res, unfolded Let_def,
        folded buffer_def, folded r1_def, folded r2_def]
    have s: "ok status" using fill less.prems(2,3) by (auto split: if_splits)
    have whole: "rd_buffer r2 @ sf_rest (rd_file r2) = sf_rest (rd_file r)"
      using rd s by (auto simp: r2_def r1_def buffer_def SequentialFile_Read_def
          split: list.splits option.splits)
    have "ReadPhysicalRecord crc res r2 = (t, data, r')" "rd_checksum r2"
      using fill s less.prems(1,2) by (simp_all add: r2_def r1_def)
    moreover have "(if length (rd_buffer r2) < kHeaderSize then (if rd_eof r2 then 1 else 2) else 0)
        < (if length (rd_buffer r) < kHeaderSize then (if rd_eof r then 1 else 2) else 0::nat)"
      using short ne by (auto simp: r2_def r1_def)
    ultimately obtain pre h post where "rd_buffer r2 @ sf_rest (rd_file r2) = pre @ h @ data @ post"
      "length h = 7" "t = scast (h ! 6)" "DecodeFixed32 h = crc (h ! 6 # data)"
      using less.hyps [of r2] less.prems(3,4) by blast
    then show ?thesis
      unfolding whole by (intro exI [of _ "rd_buffer r @ pre"] exI [of _ h] exI [of _ post]) simp
  qed
qed

lemma ReadPhysicalRecord_checked_witness:
  "let r = Reader_new \<lparr>sf_filename = [], sf_rest = wal_header (sum_crc 7) kFullType [9] @ [9],
                      sf_calls = []\<rparr> True True 0
   in \<exists>data r' pre h post. ReadPhysicalRecord (sum_crc 7) [] r = (1, data, r')
      \<and> rd_buffer r @ sf_rest (rd_file r) = pre @ h @ data @ post \<and> length h = 7
      \<and> DecodeFixed32 h = sum_crc 7 (h ! 6 # data)"
proof -
  define f where "f = \<lparr>sf_filename = [], sf_rest = wal_header (sum_crc 7) kFullType [9] @ [9],
                      sf_calls = []\<rparr>"
  define r where "r = Reader_new f True True 0"
  have "reading r kBlockSize (wal_pad kBlockSize @ wal_header (sum_crc 7) kFullType [9] @ [9] @ [])"
    using reading_new [of f True True] by (simp add: r_def f_def wal_pad_def)
  from read_complete [OF this, of "[]"] obtain r' where
    "ReadPhysicalRecord (sum_crc 7) [] r = (1, [9], r')" by (auto simp: wal_start_def)
  with ReadPhysicalRecord_checked [OF _ this] show ?thesis
    unfolding Let_def f_def [symmetric] r_def [symmetric]
    by (simp add: r_def Reader_new_def) blast
qed

end
