(* ===== verification/Config.thy ===== *)
theory Config
  imports Delta_Prelude
begin

text \<open>
  The configuration of \<^verbatim>\<open>src/utils/include/config.h\<close> as far as the store reads
  it, the options of a read and of a write, and \<^verbatim>\<open>Limiter\<close>, which hands out a
  bounded number of resources without a lock.
\<close>

section \<open>Settings\<close>

datatype CompressionType = kNoCompression | kSnappyCompression | kZstdCompression

primrec CompressionType_code :: "CompressionType \<Rightarrow> byte" where
  "CompressionType_code kNoCompression = 0"
| "CompressionType_code kSnappyCompression = 1"
| "CompressionType_code kZstdCompression = 2"

record DBConfig =
  num_levels :: nat
  l0_compaction_trigger :: nat
  l0_slowdown_writes_trigger :: nat
  l0_stop_writes_trigger :: nat
  max_mem_compact_level :: nat
  compression :: CompressionType
  create_if_missing :: bool
  error_if_exists :: bool
  paranoid_checks :: bool
  write_buffer_size :: nat
  block_size :: nat
  block_restart_interval :: nat
  max_file_size :: nat
  reuse_logs :: bool

record ReadOptions =
  verify_checksums :: bool
  fill_cache :: bool

record WriteOptions =
  wo_sync :: bool

section \<open>The limiter\<close>

text \<open>
  A call of \<^verbatim>\<open>Acquire\<close> takes one atomic step when it succeeds and two when it is
  refused; between the two it has taken one from the counter that it gives
  back.  The list has one entry for each thread.
\<close>

datatype LimiterCall = Idle | Refused | Holding

text \<open>\<^verbatim>\<open>fetch_sub\<close> and the test of the value before it: the result of the call, if
  it already returns, and the new counter.\<close>

definition Limiter_Acquire :: "int \<Rightarrow> bool \<times> int" where
  "Limiter_Acquire acquires_allowed = (0 < acquires_allowed, acquires_allowed - 1)"

definition Limiter_Release :: "int \<Rightarrow> int" where
  "Limiter_Release acquires_allowed = acquires_allowed + 1"

inductive limiter_step :: "int \<times> LimiterCall list \<Rightarrow> int \<times> LimiterCall list \<Rightarrow> bool" where
  acquire: "i < length ts \<Longrightarrow> ts ! i = Idle \<Longrightarrow> Limiter_Acquire n = (got, n') \<Longrightarrow>
    limiter_step (n, ts) (n', ts[i := (if got then Holding else Refused)])"
| give_back: "i < length ts \<Longrightarrow> ts ! i = Refused \<Longrightarrow>
    limiter_step (n, ts) (Limiter_Release n, ts[i := Idle])"
| release: "i < length ts \<Longrightarrow> ts ! i = Holding \<Longrightarrow>
    limiter_step (n, ts) (Limiter_Release n, ts[i := Idle])"

inductive_cases limiter_stepE: "limiter_step (n, ts) s"

definition holding :: "LimiterCall list \<Rightarrow> nat" where
  "holding ts = length (filter (\<lambda>t. t = Holding) ts)"

definition taken :: "LimiterCall list \<Rightarrow> nat" where
  "taken ts = length (filter (\<lambda>t. t \<noteq> Idle) ts)"

lemma length_filter_update:
  assumes "i < length xs"
  shows "int (length (filter P (xs[i := y]))) =
    int (length (filter P xs)) - (if P (xs ! i) then 1 else 0) + (if P y then 1 else 0)"
  using assms
proof (induction xs arbitrary: i)
  case (Cons x xs)
  show ?case
  proof (cases i)
    case (Suc j)
    then show ?thesis using Cons.IH [of j] Cons.prems by (auto split: if_splits)
  qed (use Cons.prems in auto)
qed simp

lemma holding_le_taken: "holding ts \<le> taken ts"
  by (induction ts) (auto simp: holding_def taken_def)

definition limiter_inv :: "int \<Rightarrow> int \<times> LimiterCall list \<Rightarrow> bool" where
  "limiter_inv m s \<longleftrightarrow> fst s + int (taken (snd s)) = m \<and> int (holding (snd s)) \<le> m"

lemma limiter_step_inv:
  assumes "limiter_step s s'" "limiter_inv m s"
  shows "limiter_inv m s'"
  using assms
proof (induction rule: limiter_step.induct)
  case (acquire i ts n got n')
  have "int (holding ts) \<le> int (taken ts)" using holding_le_taken by simp
  with acquire show ?case
    by (auto simp: limiter_inv_def holding_def taken_def length_filter_update Limiter_Acquire_def)
qed (auto simp: limiter_inv_def holding_def taken_def length_filter_update Limiter_Release_def)

lemma limiter_reachable_inv:
  "limiter_step\<^sup>*\<^sup>* s s' \<Longrightarrow> limiter_inv m s \<Longrightarrow> limiter_inv m s'"
  by (induction rule: rtranclp_induct) (auto intro: limiter_step_inv)

text \<open>
  C28: The limiter never hands out more than it has.  However many threads
  interleave the steps of their calls, at most \<open>m\<close> of them hold a resource,
  and when no refused call is about to give back, the counter is exactly what
  is left.
\<close>

theorem Limiter_bounded:
  assumes "limiter_step\<^sup>*\<^sup>* (m, replicate k Idle) (n, ts)" "0 \<le> m"
  shows "int (holding ts) \<le> m \<and> (Refused \<notin> set ts \<longrightarrow> n = m - int (holding ts))"
proof -
  have "limiter_inv m (m, replicate k Idle)"
    using assms(2) by (simp add: limiter_inv_def holding_def taken_def)
  then have inv: "limiter_inv m (n, ts)" using assms(1) by (rule limiter_reachable_inv [rotated])
  have "taken ts = holding ts" if "Refused \<notin> set ts"
    using that by (auto simp: taken_def holding_def intro!: arg_cong [of _ _ length] filter_cong)
      (metis LimiterCall.exhaust)
  then show ?thesis using inv by (auto simp: limiter_inv_def)
qed

lemma Limiter_bounded_witness:
  "\<exists>n ts. limiter_step\<^sup>*\<^sup>* (1, replicate 2 Idle) (n, ts) \<and> ts = [Holding, Refused] \<and> int (holding ts) \<le> 1"
proof -
  have "limiter_step (1, [Idle, Idle]) (0, [Idle, Idle][0 := (if True then Holding else Refused)])"
    by (rule limiter_step.acquire) (simp_all add: Limiter_Acquire_def)
  moreover have "limiter_step (0, [Holding, Idle]) (- 1, [Holding, Idle][1 := (if False then Holding else Refused)])"
    by (rule limiter_step.acquire) (simp_all add: Limiter_Acquire_def)
  ultimately have r: "limiter_step\<^sup>*\<^sup>* (1, replicate 2 Idle) (- 1, [Holding, Refused])"
    by (simp add: numeral_2_eq_2)
  from Limiter_bounded [OF r] r show ?thesis by auto
qed

end
