(* ===== verification/Version_Set.thy ===== *)
theory Version_Set
  imports Version_Builder Filename Wal_Log Config "HOL-Library.Multiset"
begin

text \<open>
  \<^verbatim>\<open>VersionSet\<close> of \<^verbatim>\<open>src/db/version_set.cc\<close>: the list of live versions, the
  counters, the manifest, installing an edit and recovery.  The mutex is not
  modelled: an operation runs alone.  Outcomes of the system calls on an opened
  manifest are the argument \<^verbatim>\<open>io\<close>, those on the directory are in the file system.
\<close>

section \<open>Opening files\<close>

text \<open>What a file has received is what the file system holds under its name.\<close>

definition publish :: "WritableFile \<Rightarrow> FS \<Rightarrow> FS" where
  "publish f fs = fs\<lparr>fs_files := (fs_files fs)(wf_filename f \<mapsto> wf_cache f)\<rparr>"

type_synonym IoScript = "WriteOutcome list \<times> errno option list"

definition NewWritableFile ::
    "(bytes \<Rightarrow> bytes) \<Rightarrow> IoScript \<Rightarrow> bytes \<Rightarrow> FS \<Rightarrow> Status \<times> WritableFile option \<times> FS" where
  "NewWritableFile moved_from io filename fs =
     (case next_call fs of
        (Some e, fs1) \<Rightarrow> (PosixError filename e, None, fs1)
      | (None, fs1) \<Rightarrow>
          (let f = WritableFile_new moved_from filename [] (fst io) (snd io)
           in (Status_OK, Some f, publish f fs1)))"

definition NewAppendableFile ::
    "(bytes \<Rightarrow> bytes) \<Rightarrow> IoScript \<Rightarrow> bytes \<Rightarrow> FS \<Rightarrow> Status \<times> WritableFile option \<times> FS" where
  "NewAppendableFile moved_from io filename fs =
     (case next_call fs of
        (Some e, fs1) \<Rightarrow> (PosixError filename e, None, fs1)
      | (None, fs1) \<Rightarrow>
          (let existing = (case fs_files fs1 filename of None \<Rightarrow> [] | Some c \<Rightarrow> c);
               f = WritableFile_new moved_from filename existing (fst io) (snd io)
           in (Status_OK, Some f, publish f fs1)))"

definition NewSequentialFile :: "bytes \<Rightarrow> FS \<Rightarrow> Status \<times> SequentialFile option \<times> FS" where
  "NewSequentialFile filename fs =
     (case next_call fs of
        (Some e, fs1) \<Rightarrow> (PosixError filename e, None, fs1)
      | (None, fs1) \<Rightarrow>
          (case fs_files fs1 filename of
             None \<Rightarrow> (PosixError filename ENOENT, None, fs1)
           | Some c \<Rightarrow> (Status_OK, Some \<lparr>sf_filename = filename, sf_rest = c, sf_calls = fs_calls fs1\<rparr>, fs1)))"

definition ReadFileToString :: "bytes \<Rightarrow> FS \<Rightarrow> Status \<times> bytes \<times> FS" where
  "ReadFileToString fname fs =
     (case NewSequentialFile fname fs of
        (s, None, fs1) \<Rightarrow> (s, [], fs1)
      | (s, Some file, fs1) \<Rightarrow>
          (case ReadFileToString_loop file [] of (s', data) \<Rightarrow> (s', data, fs1)))"

definition GetFileSize :: "bytes \<Rightarrow> FS \<Rightarrow> Status \<times> u64 \<times> FS" where
  "GetFileSize filename fs =
     (case next_call fs of
        (Some e, fs1) \<Rightarrow> (PosixError filename e, 0, fs1)
      | (None, fs1) \<Rightarrow>
          (case fs_files fs1 filename of
             None \<Rightarrow> (PosixError filename ENOENT, 0, fs1)
           | Some c \<Rightarrow> (Status_OK, of_nat (length c), fs1)))"

section \<open>The state\<close>

text \<open>
  \<^verbatim>\<open>vs_versions\<close> is the list from \<^verbatim>\<open>dummy_versions_.next_\<close> on, oldest version
  first, each with its identity and its reference count.  \<^verbatim>\<open>manifest_\<close> and
  \<^verbatim>\<open>manifest_log_\<close> are set and reset together; the file is the destination of
  the writer.
\<close>

record VersionSet =
  vs_dbname :: bytes
  vs_next_file_number :: u64
  vs_manifest_number :: u64
  vs_last_sequence :: u64
  vs_log_number :: u64
  vs_prev_log_number :: u64
  vs_manifest_log :: "WritableFile Writer option"
  vs_compact_pointer :: "bytes list"
  vs_versions :: "(nat \<times> int \<times> Version) list"
  vs_current :: "nat option"
  vs_next_id :: nat

definition version_of :: "VersionSet \<Rightarrow> nat \<Rightarrow> Version option" where
  "version_of vs i = map_option snd (map_of (vs_versions vs) i)"

definition current :: "VersionSet \<Rightarrow> Version" where
  "current vs = (case vs_current vs of None \<Rightarrow> Version_new 0
     | Some i \<Rightarrow> (case version_of vs i of None \<Rightarrow> Version_new 0 | Some v \<Rightarrow> v))"

definition Version_Ref :: "nat \<Rightarrow> VersionSet \<Rightarrow> VersionSet" where
  "Version_Ref i vs =
     vs\<lparr>vs_versions := map (\<lambda>(j, refs, v). (j, if j = i then refs + 1 else refs, v)) (vs_versions vs)\<rparr>"

text \<open>The last reference deletes the version, which takes it out of the list.\<close>

definition Version_Unref :: "nat \<Rightarrow> VersionSet \<Rightarrow> VersionSet" where
  "Version_Unref i vs =
     vs\<lparr>vs_versions := filter (\<lambda>(j, refs, v). \<not> (j = i \<and> refs = 0))
        (map (\<lambda>(j, refs, v). (j, if j = i then refs - 1 else refs, v)) (vs_versions vs))\<rparr>"

definition AppendVersion :: "Version \<Rightarrow> VersionSet \<Rightarrow> VersionSet" where
  "AppendVersion v vs =
     (let vs1 = (case vs_current vs of None \<Rightarrow> vs | Some i \<Rightarrow> Version_Unref i vs);
          i = vs_next_id vs
      in vs1\<lparr>vs_current := Some i, vs_versions := vs_versions vs1 @ [(i, 1, v)], vs_next_id := i + 1\<rparr>)"

definition VersionSet_new :: "bytes \<Rightarrow> nat \<Rightarrow> VersionSet" where
  "VersionSet_new dbname n =
     AppendVersion (Version_new n)
       \<lparr>vs_dbname = dbname, vs_next_file_number = 2, vs_manifest_number = 0, vs_last_sequence = 0,
        vs_log_number = 0, vs_prev_log_number = 0, vs_manifest_log = None,
        vs_compact_pointer = replicate n [], vs_versions = [], vs_current = None, vs_next_id = 0\<rparr>"

definition NewFileNumber :: "VersionSet \<Rightarrow> u64 \<times> VersionSet" where
  "NewFileNumber vs =
     (vs_next_file_number vs, vs\<lparr>vs_next_file_number := vs_next_file_number vs + 1\<rparr>)"

definition ReuseFileNumber :: "u64 \<Rightarrow> VersionSet \<Rightarrow> VersionSet" where
  "ReuseFileNumber file_number vs =
     (if vs_next_file_number vs = file_number + 1 then vs\<lparr>vs_next_file_number := file_number\<rparr> else vs)"

definition MarkFileNumberAsUsed :: "u64 \<Rightarrow> VersionSet \<Rightarrow> VersionSet" where
  "MarkFileNumberAsUsed number vs =
     (if vs_next_file_number vs \<le> number then vs\<lparr>vs_next_file_number := number + 1\<rparr> else vs)"

definition VersionSet_SetLastSequence :: "u64 \<Rightarrow> VersionSet \<Rightarrow> VersionSet" where
  "VersionSet_SetLastSequence s vs = vs\<lparr>vs_last_sequence := s\<rparr>"

section \<open>Scores\<close>

text \<open>
  Scores are quotients of doubles in the code and exact here.  The conversion
  of the level size to \<^verbatim>\<open>uint64_t\<close> keeps it.
\<close>

definition level_score :: "nat \<Rightarrow> SSTMetaData list list \<Rightarrow> nat \<Rightarrow> rat" where
  "level_score trigger ssts level =
     (if level = 0 then of_nat (length (ssts ! level)) / of_nat trigger
      else of_int (TotalSSTSize (ssts ! level)) / of_nat (MaxBytesForLevel level))"

definition Finalize_step :: "nat \<Rightarrow> SSTMetaData list list \<Rightarrow> nat \<Rightarrow> int \<times> rat \<Rightarrow> int \<times> rat" where
  "Finalize_step trigger ssts level best =
     (let score = level_score trigger ssts level
      in if snd best < score then (int level, score) else best)"

definition Finalize :: "nat \<Rightarrow> Version \<Rightarrow> Version" where
  "Finalize trigger v =
     (let (best_level, best_score) =
        fold (Finalize_step trigger (v_ssts v)) [0..<length (v_ssts v) - 1] (- 1, - 1)
      in v\<lparr>v_compaction_level := best_level, v_compaction_score := best_score\<rparr>)"

definition IsNeedCompaction :: "VersionSet \<Rightarrow> bool" where
  "IsNeedCompaction vs \<longleftrightarrow>
     1 \<le> v_compaction_score (current vs) \<or> v_sst_to_compact (current vs) \<noteq> None"

section \<open>The manifest\<close>

text \<open>
  The environment of the operations on the manifest: the checksum library, what
  a move leaves, the name of the user comparator and the trigger of level 0.
\<close>

record ManifestEnv =
  me_crc :: "bytes \<Rightarrow> u32"
  me_ext_crc :: "u32 \<Rightarrow> bytes \<Rightarrow> u32"
  me_moved_from :: "bytes \<Rightarrow> bytes"
  me_comparator_name :: bytes
  me_config :: DBConfig

abbreviation manifest_add :: "ManifestEnv \<Rightarrow> WritableFile Writer \<Rightarrow> bytes \<Rightarrow> Status \<times> WritableFile Writer" where
  "manifest_add env \<equiv> AddRecord WritableFile_Append WritableFile_Flush (me_ext_crc env)"

fun snapshot_pointers :: "nat \<Rightarrow> bytes list \<Rightarrow> VersionEdit \<Rightarrow> VersionEdit" where
  "snapshot_pointers level [] edit = edit"
| "snapshot_pointers level (key # ptrs) edit =
     snapshot_pointers (level + 1) ptrs (if key = [] then edit else AppendCompactPointer (int level) key edit)"

definition snapshot_file :: "int \<Rightarrow> VersionEdit \<Rightarrow> SSTMetaData \<Rightarrow> VersionEdit" where
  "snapshot_file level edit f = AddSST level (sst_number f) (sst_size f) (smallest_key f) (largest_key f) edit"

fun snapshot_files :: "nat \<Rightarrow> SSTMetaData list list \<Rightarrow> VersionEdit \<Rightarrow> VersionEdit" where
  "snapshot_files level [] edit = edit"
| "snapshot_files level (ssts # rest) edit =
     snapshot_files (level + 1) rest (foldl (snapshot_file (int level)) edit ssts)"

definition snapshot_edit :: "bytes \<Rightarrow> VersionSet \<Rightarrow> VersionEdit" where
  "snapshot_edit name vs =
     snapshot_files 0 (v_ssts (current vs))
       (snapshot_pointers 0 (vs_compact_pointer vs) (SetComparatorName name VersionEdit_Clear))"

definition WriteSnapshot ::
    "ManifestEnv \<Rightarrow> WritableFile Writer \<Rightarrow> VersionSet \<Rightarrow> Status \<times> WritableFile Writer" where
  "WriteSnapshot env mlog vs = manifest_add env mlog (VersionEdit_EncodeTo (snapshot_edit (me_comparator_name env) vs) [])"

text \<open>The fields \<^verbatim>\<open>LogAndApply\<close> fills in.\<close>

definition complete_edit :: "VersionSet \<Rightarrow> VersionEdit \<Rightarrow> VersionEdit" where
  "complete_edit vs edit =
     (let e1 = (if has_wal_number edit then edit else SetWalNumber (vs_log_number vs) edit);
          e2 = (if has_prev_wal_number e1 then e1 else SetPrevWalNumber (vs_prev_log_number vs) e1)
      in SetLastSequence (vs_last_sequence vs) (SetNextSST (vs_next_file_number vs) e2))"

text \<open>Creating the manifest when there is none: the status, the writer and whether it is new.\<close>

definition open_manifest ::
    "ManifestEnv \<Rightarrow> IoScript \<Rightarrow> VersionSet \<Rightarrow> FS \<Rightarrow> Status \<times> WritableFile Writer option \<times> bool \<times> FS" where
  "open_manifest env io vs fs =
     (case vs_manifest_log vs of
        Some mlog \<Rightarrow> (Status_OK, Some mlog, False, fs)
      | None \<Rightarrow>
          (case NewWritableFile (me_moved_from env) io (ManifestFileName (vs_dbname vs) (vs_manifest_number vs)) fs of
             (s, None, fs1) \<Rightarrow> (s, None, True, fs1)
           | (s, Some f, fs1) \<Rightarrow>
               (case WriteSnapshot env (Writer_new (me_crc env) f) vs of
                  (s', mlog) \<Rightarrow> (s', Some mlog, True, publish (wr_dest mlog) fs1))))"

definition write_edit ::
    "ManifestEnv \<Rightarrow> VersionEdit \<Rightarrow> WritableFile Writer \<Rightarrow> FS \<Rightarrow> Status \<times> WritableFile Writer \<times> FS" where
  "write_edit env edit mlog fs =
     (let (s, log1) = manifest_add env mlog (VersionEdit_EncodeTo edit []);
          (s', log2) = (if ok s then (case WritableFile_Sync (wr_dest log1) of (s', f) \<Rightarrow> (s', log1\<lparr>wr_dest := f\<rparr>))
                        else (s, log1))
      in (s', log2, publish (wr_dest log2) fs))"

text \<open>
  \<^verbatim>\<open>edit\<close> comes back with the fields filled in.  The asserts on the log number
  are not part of the definition.
\<close>

definition LogAndApply ::
    "ManifestEnv \<Rightarrow> IoScript \<Rightarrow> VersionEdit \<Rightarrow> VersionSet \<Rightarrow> FS \<Rightarrow>
     (Status \<times> VersionEdit \<times> VersionSet \<times> FS) option" where
  "LogAndApply env io edit0 vs0 fs0 =
     (let edit = complete_edit vs0 edit0 in
      case Builder_Apply edit (vs_compact_pointer vs0, Builder_new (current vs0)) of
        None \<Rightarrow> None
      | Some (ptrs, b) \<Rightarrow>
          (let vs = vs0\<lparr>vs_compact_pointer := ptrs\<rparr>;
               v = Finalize (l0_compaction_trigger (me_config env))
                     (Builder_SaveTo b (Version_new (num_levels (me_config env))));
               (s1, log1, is_new, fs1) = open_manifest env io vs fs0;
               (s2, log2, fs2) =
                 (case log1 of
                    Some mlog \<Rightarrow>
                      (if ok s1 then (case write_edit env edit mlog fs1 of (s, l, fs) \<Rightarrow> (s, Some l, fs))
                       else (s1, log1, fs1))
                  | None \<Rightarrow> (s1, None, fs1));
               (s3, fs3) = (if ok s2 \<and> is_new then SetCurrentFile (vs_dbname vs) (vs_manifest_number vs) fs2
                            else (s2, fs2))
           in if ok s3 then
                Some (s3, edit,
                  (AppendVersion v (vs\<lparr>vs_manifest_log := log2\<rparr>))
                    \<lparr>vs_log_number := ve_wal_number edit, vs_prev_log_number := ve_prev_wal_number edit\<rparr>, fs3)
              else if is_new then
                Some (s3, edit, vs\<lparr>vs_manifest_log := None\<rparr>,
                  snd (RemoveFile (ManifestFileName (vs_dbname vs) (vs_manifest_number vs)) fs3))
              else Some (s3, edit, vs\<lparr>vs_manifest_log := log2\<rparr>, fs3)))"

section \<open>Recovery\<close>

definition Status_text :: "Status \<Rightarrow> bytes" where
  "Status_text s =
     Status_ToString (case s of Status_OK \<Rightarrow> None | Status_Error c m \<Rightarrow> Some (Status_state c m []))"

record RecoverVars =
  rv_have_log_number :: bool
  rv_have_prev_log_number :: bool
  rv_have_next_file :: bool
  rv_have_last_sequence :: bool
  rv_next_file :: u64
  rv_last_sequence :: u64
  rv_log_number :: u64
  rv_prev_log_number :: u64
  rv_compact_pointer :: "bytes list"
  rv_builder :: Builder

text \<open>What the reporter leaves in the status: the first corruption.\<close>

definition reported :: "Reader \<Rightarrow> Status" where
  "reported r = (case rd_reports r of [] \<Rightarrow> Status_OK | x # xs \<Rightarrow> snd x)"

definition record_meta :: "VersionEdit \<Rightarrow> RecoverVars \<Rightarrow> RecoverVars" where
  "record_meta edit rv =
     (let rv1 = (if has_wal_number edit
                 then rv\<lparr>rv_log_number := ve_wal_number edit, rv_have_log_number := True\<rparr> else rv);
          rv2 = (if has_prev_wal_number edit
                 then rv1\<lparr>rv_prev_log_number := ve_prev_wal_number edit, rv_have_prev_log_number := True\<rparr> else rv1);
          rv3 = (if has_next_sst_number edit
                 then rv2\<lparr>rv_next_file := ve_next_sst_number edit, rv_have_next_file := True\<rparr> else rv2)
      in (if has_last_sequence edit
          then rv3\<lparr>rv_last_sequence := ve_last_sequence edit, rv_have_last_sequence := True\<rparr> else rv3))"

definition Recover_record :: "ManifestEnv \<Rightarrow> bytes \<Rightarrow> RecoverVars \<Rightarrow> (Status \<times> RecoverVars) option" where
  "Recover_record env record_data rv =
     (let (s1, edit) = VersionEdit_DecodeFrom (int (num_levels (me_config env))) record_data;
          s2 = (if ok s1 \<and> has_comparator edit \<and> ve_comparator edit \<noteq> me_comparator_name env
                then Status_new kInvalidArgument
                       (ve_comparator edit @ text_bytes '' does not match existing comparator '')
                       (me_comparator_name env)
                else s1)
      in if ok s2 then
           (case Builder_Apply edit (rv_compact_pointer rv, rv_builder rv) of
              None \<Rightarrow> None
            | Some (ptrs, b) \<Rightarrow>
                Some (s2, record_meta edit (rv\<lparr>rv_compact_pointer := ptrs, rv_builder := b\<rparr>)))
         else Some (s2, record_meta edit rv))"

function Recover_loop :: "ManifestEnv \<Rightarrow> RecoverVars \<Rightarrow> Reader \<Rightarrow> (Status \<times> RecoverVars) option" where
  "Recover_loop env rv reader =
     (case ReadRecord (me_crc env) reader of
        (None, reader') \<Rightarrow> Some (reported reader', rv)
      | (Some record_data, reader') \<Rightarrow>
          if \<not> ok (reported reader') then Some (reported reader', rv)
          else (case Recover_record env record_data rv of
                  None \<Rightarrow> None
                | Some (s, rv') \<Rightarrow> if ok s then Recover_loop env rv' reader' else Some (s, rv')))"
  by auto
termination
  by (relation "measure (\<lambda>(env, rv, reader). unread reader)") (auto dest: sym ReadRecord_unread)

declare Recover_loop.simps [simp del]

definition ReuseManifest ::
    "ManifestEnv \<Rightarrow> IoScript \<Rightarrow> bytes \<Rightarrow> bytes \<Rightarrow> VersionSet \<Rightarrow> FS \<Rightarrow> bool \<times> VersionSet \<times> FS" where
  "ReuseManifest env io manifest_name manifest_base vs fs =
     (if \<not> reuse_logs (me_config env) then (False, vs, fs)
      else case ParseFileName manifest_base of
             None \<Rightarrow> (False, vs, fs)
           | Some (manifest_number, manifest_type) \<Rightarrow>
               if manifest_type \<noteq> kManifestFile then (False, vs, fs)
               else case GetFileSize manifest_name fs of
                      (s, manifest_size, fs1) \<Rightarrow>
                        if \<not> ok s \<or> TargetFileSize (max_file_size (me_config env)) \<le> unat manifest_size
                        then (False, vs, fs1)
                        else (case NewAppendableFile (me_moved_from env) io manifest_name fs1 of
                                (r, None, fs2) \<Rightarrow> (False, vs, fs2)
                              | (r, Some f, fs2) \<Rightarrow>
                                  (True, vs\<lparr>vs_manifest_log := Some (Writer_new_at (me_crc env) f manifest_size),
                                           vs_manifest_number := manifest_number\<rparr>, fs2)))"

definition RecoverVars_new :: "VersionSet \<Rightarrow> RecoverVars" where
  "RecoverVars_new vs =
     \<lparr>rv_have_log_number = False, rv_have_prev_log_number = False, rv_have_next_file = False,
      rv_have_last_sequence = False, rv_next_file = 0, rv_last_sequence = 0, rv_log_number = 0,
      rv_prev_log_number = 0, rv_compact_pointer = vs_compact_pointer vs,
      rv_builder = Builder_new (current vs)\<rparr>"

text \<open>What is left of \<^verbatim>\<open>Recover\<close> after the manifest is read: checks and installation.\<close>

definition Recover_checks :: "RecoverVars \<Rightarrow> Status \<Rightarrow> Status" where
  "Recover_checks rv s =
     (if \<not> ok s then s
      else if \<not> rv_have_next_file rv then Corruption ''no meta-nextfile entry in descriptor''
      else if \<not> rv_have_log_number rv then Corruption ''no meta-lognumber entry in descriptor''
      else if \<not> rv_have_last_sequence rv then Corruption ''no last-sequence-number entry in descriptor''
      else s)"

definition Recover_install :: "ManifestEnv \<Rightarrow> RecoverVars \<Rightarrow> VersionSet \<Rightarrow> VersionSet" where
  "Recover_install env rv vs =
     (let v = Finalize (l0_compaction_trigger (me_config env))
                (Builder_SaveTo (rv_builder rv) (Version_new (num_levels (me_config env))))
      in (AppendVersion v vs)
           \<lparr>vs_manifest_number := rv_next_file rv, vs_next_file_number := rv_next_file rv + 1,
            vs_last_sequence := rv_last_sequence rv, vs_log_number := rv_log_number rv,
            vs_prev_log_number := (if rv_have_prev_log_number rv then rv_prev_log_number rv else 0)\<rparr>)"

definition Recover_finish ::
    "ManifestEnv \<Rightarrow> IoScript \<Rightarrow> bytes \<Rightarrow> bytes \<Rightarrow> Status \<Rightarrow> RecoverVars \<Rightarrow> bool \<Rightarrow> VersionSet \<Rightarrow> FS \<Rightarrow>
     Status \<times> bool \<times> VersionSet \<times> FS" where
  "Recover_finish env io manifest_name manifest_base s rv save_manifest vs0 fs =
     (let s' = Recover_checks rv s;
          vs1 = vs0\<lparr>vs_compact_pointer := rv_compact_pointer rv\<rparr>;
          prev = (if rv_have_prev_log_number rv then rv_prev_log_number rv else 0);
          vs2 = (if ok s then MarkFileNumberAsUsed (rv_log_number rv) (MarkFileNumberAsUsed prev vs1) else vs1)
      in if ok s' then
           (case ReuseManifest env io manifest_name manifest_base (Recover_install env rv vs2) fs of
              (reused, vs3, fs1) \<Rightarrow> (s', if reused then save_manifest else True, vs3, fs1))
         else (s', save_manifest, vs2, fs))"

definition Recover ::
    "ManifestEnv \<Rightarrow> IoScript \<Rightarrow> bool \<Rightarrow> VersionSet \<Rightarrow> FS \<Rightarrow> (Status \<times> bool \<times> VersionSet \<times> FS) option" where
  "Recover env io save_manifest vs fs =
     (case ReadFileToString (CurrentFileName (vs_dbname vs)) fs of
        (s, contents, fs1) \<Rightarrow>
          if \<not> ok s then Some (s, save_manifest, vs, fs1)
          else if contents = [] \<or> contents ! (length contents - 1) \<noteq> 10
          then Some (Corruption ''CURRENT file does not end with newline'', save_manifest, vs, fs1)
          else
            (let base = take (length contents - 1) contents;
                 manifest_name = vs_dbname vs @ text_bytes ''/'' @ base
             in case NewSequentialFile manifest_name fs1 of
                  (s2, None, fs2) \<Rightarrow>
                    Some (if IsNotFound s2
                          then Status_new kCorruption (text_bytes ''CURRENT points to a non-existent file'')
                                 (Status_text s2)
                          else s2, save_manifest, vs, fs2)
                | (s2, Some file, fs2) \<Rightarrow>
                    (case Recover_loop env (RecoverVars_new vs) (Reader_new file True True 0) of
                       None \<Rightarrow> None
                     | Some (s3, rv) \<Rightarrow>
                         Some (Recover_finish env io manifest_name base s3 rv save_manifest vs fs2))))"

section \<open>Asking the version set\<close>

definition SSTNumOfLevel :: "VersionSet \<Rightarrow> nat \<Rightarrow> nat" where
  "SSTNumOfLevel vs level = length (v_ssts (current vs) ! level)"

definition SSTBytesOfLevel :: "VersionSet \<Rightarrow> nat \<Rightarrow> int" where
  "SSTBytesOfLevel vs level = TotalSSTSize (v_ssts (current vs) ! level)"

definition LevelSummary :: "VersionSet \<Rightarrow> bytes" where
  "LevelSummary vs =
     text_bytes ''files[ '' @
       concat (map (\<lambda>l. decimal (length (v_ssts (current vs) ! l)) @ text_bytes '' '') [0..<7]) @ text_bytes '']''"

definition AddLiveFiles :: "VersionSet \<Rightarrow> u64 set \<Rightarrow> u64 set" where
  "AddLiveFiles vs live =
     fold (\<lambda>(i, refs, v) live. fold (\<lambda>ssts live. fold (\<lambda>f. insert (sst_number f)) ssts live) (v_ssts v) live)
       (vs_versions vs) live"

definition MaxNextLevelOverlapBytes :: "VersionSet \<Rightarrow> int" where
  "MaxNextLevelOverlapBytes vs =
     fold (\<lambda>level result.
        fold (\<lambda>sst result.
          let sum = TotalSSTSize (GetOverlapSSTs (current vs) (level + 1) (Some (smallest_key sst)) (Some (largest_key sst)))
          in if result < sum then sum else result) (v_ssts (current vs) ! level) result)
       [1..<length (v_ssts (current vs)) - 1] 0"

text \<open>
  \<^verbatim>\<open>table_offset\<close> is what \<^verbatim>\<open>Table::ApproximateOffsetOf\<close> gives for a file the
  table cache can open, \<^verbatim>\<open>None\<close> for one it cannot.
\<close>

fun ApproximateOffset_level ::
    "(u64 \<Rightarrow> u64 \<Rightarrow> bytes \<Rightarrow> u64 option) \<Rightarrow> nat \<Rightarrow> bytes \<Rightarrow> SSTMetaData list \<Rightarrow> u64 \<Rightarrow> u64" where
  "ApproximateOffset_level table_offset level ikey [] result = result"
| "ApproximateOffset_level table_offset level ikey (f # fs) result =
     (if icmp (largest_key f) ikey \<le> 0
      then ApproximateOffset_level table_offset level ikey fs (result + sst_size f)
      else if 0 < icmp (smallest_key f) ikey then
        (if 0 < level then result else ApproximateOffset_level table_offset level ikey fs result)
      else ApproximateOffset_level table_offset level ikey fs
             (case table_offset (sst_number f) (sst_size f) ikey of None \<Rightarrow> result | Some n \<Rightarrow> result + n))"

definition VersionSet_ApproximateOffsetOf ::
    "(u64 \<Rightarrow> u64 \<Rightarrow> bytes \<Rightarrow> u64 option) \<Rightarrow> Version \<Rightarrow> bytes \<Rightarrow> u64" where
  "VersionSet_ApproximateOffsetOf table_offset v ikey =
     fold (\<lambda>level. ApproximateOffset_level table_offset level ikey (v_ssts v ! level)) [0..<length (v_ssts v)] 0"

section \<open>Live versions\<close>

text \<open>
  Iterators and reads hold references to versions.  A state is the version set
  with the references that are out.
\<close>

inductive vs_step :: "VersionSet \<times> nat multiset \<Rightarrow> VersionSet \<times> nat multiset \<Rightarrow> bool" where
  take_ref: "vs_current vs = Some i \<Longrightarrow> vs_step (vs, H) (Version_Ref i vs, add_mset i H)"
| drop_ref: "i \<in># H \<Longrightarrow> vs_step (vs, H) (Version_Unref i vs, H - {#i#})"
| install: "vs_step (vs, H) (AppendVersion v vs, H)"

definition refs_of :: "VersionSet \<Rightarrow> nat multiset \<Rightarrow> nat \<Rightarrow> int" where
  "refs_of vs H i = int (count H i) + (if vs_current vs = Some i then 1 else 0)"

definition vs_wf :: "VersionSet \<Rightarrow> nat multiset \<Rightarrow> bool" where
  "vs_wf vs H \<longleftrightarrow> distinct (map fst (vs_versions vs))
     \<and> (\<forall>(i, r, v)\<in>set (vs_versions vs). i < vs_next_id vs \<and> r = refs_of vs H i \<and> 0 < r)
     \<and> (\<forall>i. 0 < refs_of vs H i \<longrightarrow> i \<in> fst ` set (vs_versions vs))
     \<and> vs_current vs \<noteq> None"

lemma VersionSet_new_wf: "vs_wf (VersionSet_new dbname n) {#}"
  by (simp add: vs_wf_def VersionSet_new_def AppendVersion_def refs_of_def)

lemma fst_update: "map fst (map (\<lambda>(j, r, v). (j, g j r, v)) xs) = map fst xs"
  by (induction xs) auto

text \<open>The invariant over a list of versions and the references each should have.\<close>

definition refs_ok :: "nat \<Rightarrow> (nat \<Rightarrow> int) \<Rightarrow> (nat \<times> int \<times> Version) list \<Rightarrow> bool" where
  "refs_ok n refs xs \<longleftrightarrow> distinct (map fst xs)
     \<and> (\<forall>(i, r, v)\<in>set xs. i < n \<and> r = refs i \<and> 0 < r) \<and> (\<forall>i. 0 < refs i \<longrightarrow> i \<in> fst ` set xs)"

lemma vs_wf_refs_ok:
  "vs_wf vs H \<longleftrightarrow> refs_ok (vs_next_id vs) (refs_of vs H) (vs_versions vs) \<and> vs_current vs \<noteq> None"
  unfolding vs_wf_def refs_ok_def by blast

lemma refs_ok_update:
  assumes "refs_ok n refs xs" "0 < refs i" "0 \<le> refs i + d"
    and "ys = filter (\<lambda>(j, r, v). \<not> (j = i \<and> r = 0)) (map (\<lambda>(j, r, v). (j, if j = i then r + d else r, v)) xs)"
  shows "refs_ok n (\<lambda>j. if j = i then refs i + d else refs j) ys"
  unfolding refs_ok_def
proof (intro conjI ballI allI impI)
  let ?f = "\<lambda>(j, r, v). (j, if j = i then r + d else r, v)"
  have in_ys: "(j, r, v) \<in> set ys \<longleftrightarrow> (\<exists>r0. (j, r0, v) \<in> set xs \<and> r = (if j = i then r0 + d else r0) \<and> \<not> (j = i \<and> r = 0))"
    for j r v
    unfolding assms(4) by force
  have "distinct (map fst (map ?f xs))"
    unfolding fst_update [of "\<lambda>j r. if j = i then r + d else r"] using assms(1) by (simp add: refs_ok_def)
  then show "distinct (map fst ys)" unfolding assms(4) by (rule distinct_map_filter)
  show "case x of (j, r, v) \<Rightarrow> j < n \<and> r = (if j = i then refs i + d else refs j) \<and> 0 < r" if mem: "x \<in> set ys" for x
  proof -
    obtain j r v where x: "x = (j, r, v)" by (rule prod_cases3)
    obtain r0 where r0: "(j, r0, v) \<in> set xs" "r = (if j = i then r0 + d else r0)" "\<not> (j = i \<and> r = 0)"
      using mem unfolding x in_ys by blast
    then have "j < n \<and> r0 = refs j \<and> 0 < r0" using assms(1) unfolding refs_ok_def by blast
    then show ?thesis using r0(2,3) assms(3) x by auto
  qed
  show "j \<in> fst ` set ys" if "0 < (if j = i then refs i + d else refs j)" for j
  proof -
    have "0 < refs j" using that assms(2) by (cases "j = i") simp_all
    then have "j \<in> fst ` set xs" using assms(1) unfolding refs_ok_def by blast
    then obtain r v where "(j, r, v) \<in> set xs" by force
    moreover from this have "r = refs j" using assms(1) unfolding refs_ok_def by blast
    ultimately have "(j, if j = i then r + d else r, v) \<in> set ys"
      using that unfolding in_ys by (intro exI [of _ r]) auto
    then show ?thesis by force
  qed
qed

lemma Version_Ref_wf:
  assumes "vs_wf vs H" "vs_current vs = Some i"
  shows "vs_wf (Version_Ref i vs) (add_mset i H)"
proof -
  have inv: "refs_ok (vs_next_id vs) (refs_of vs H) (vs_versions vs)" using assms(1) by (simp add: vs_wf_refs_ok)
  have pos: "0 < refs_of vs H i" using assms(2) by (simp add: refs_of_def)
  let ?xs = "map (\<lambda>(j, r, v). (j, if j = i then r + 1 else r, v)) (vs_versions vs)"
  have "\<not> (j = i \<and> r = 0)" if "(j, r, v) \<in> set ?xs" for j r v
    using that inv pos unfolding refs_ok_def by fastforce
  then have "?xs = filter (\<lambda>(j, r, v). \<not> (j = i \<and> r = 0)) ?xs"
    by (intro filter_True [symmetric]) blast
  from refs_ok_update [OF inv pos _ this]
  have "refs_ok (vs_next_id vs) (\<lambda>j. if j = i then refs_of vs H i + 1 else refs_of vs H j) ?xs" using pos by simp
  moreover have "refs_of (Version_Ref i vs) (add_mset i H) = (\<lambda>j. if j = i then refs_of vs H i + 1 else refs_of vs H j)"
    by (rule ext) (simp add: refs_of_def Version_Ref_def)
  ultimately show ?thesis using assms(2) by (simp add: vs_wf_refs_ok Version_Ref_def)
qed

lemma Version_Unref_refs_ok:
  assumes "vs_wf vs H" "0 < refs_of vs H i"
  shows "refs_ok (vs_next_id vs) (\<lambda>j. if j = i then refs_of vs H i - 1 else refs_of vs H j)
    (vs_versions (Version_Unref i vs))"
proof -
  have inv: "refs_ok (vs_next_id vs) (refs_of vs H) (vs_versions vs)" using assms(1) by (simp add: vs_wf_refs_ok)
  have minus: "x - 1 = x + - 1" for x :: int by simp
  have ys: "vs_versions (Version_Unref i vs) = filter (\<lambda>(j, r, v). \<not> (j = i \<and> r = 0))
      (map (\<lambda>(j, r, v). (j, if j = i then r + - 1 else r, v)) (vs_versions vs))"
    unfolding minus [symmetric] by (simp add: Version_Unref_def)
  have "0 \<le> refs_of vs H i + - 1" using assms(2) by simp
  then show ?thesis unfolding minus by (rule refs_ok_update [OF inv assms(2) _ ys])
qed

lemma Version_Unref_wf:
  assumes "vs_wf vs H" "i \<in># H"
  shows "vs_wf (Version_Unref i vs) (H - {#i#})"
proof -
  have "0 < refs_of vs H i" using assms(2) by (simp add: refs_of_def add_pos_nonneg)
  moreover have "refs_of (Version_Unref i vs) (H - {#i#}) = (\<lambda>j. if j = i then refs_of vs H i - 1 else refs_of vs H j)"
    using assms(2) by (intro ext) (auto simp: refs_of_def Version_Unref_def of_nat_diff Suc_leI)
  ultimately show ?thesis
    using Version_Unref_refs_ok [OF assms(1)] assms(1) by (simp add: vs_wf_refs_ok Version_Unref_def)
qed

lemma AppendVersion_wf:
  assumes "vs_wf vs H"
  shows "vs_wf (AppendVersion v vs) H"
proof -
  obtain i where i: "vs_current vs = Some i" using assms by (auto simp: vs_wf_def)
  let ?refs = "\<lambda>j. if j = i then refs_of vs H i - 1 else refs_of vs H j"
  let ?n = "vs_next_id vs" and ?xs = "vs_versions (Version_Unref i vs)"
  have ok: "refs_ok ?n ?refs ?xs"
    using Version_Unref_refs_ok [OF assms, of i] i by (simp add: refs_of_def)
  have fresh: "?n \<notin> fst ` set ?xs" using ok unfolding refs_ok_def by fastforce
  then have zero: "\<not> 0 < ?refs ?n" using ok unfolding refs_ok_def by blast
  have "0 \<le> ?refs ?n" using i by (simp add: refs_of_def)
  then have refs: "refs_of (AppendVersion v vs) H = (\<lambda>j. if j = ?n then 1 else ?refs j)"
    using zero i by (intro ext) (auto simp: refs_of_def AppendVersion_def Let_def Version_Unref_def split: if_splits)
  have "refs_ok (?n + 1) (\<lambda>j. if j = ?n then 1 else ?refs j) (?xs @ [(?n, 1, v)])"
    using ok fresh unfolding refs_ok_def by (fastforce simp: less_Suc_eq)
  then show ?thesis
    unfolding vs_wf_refs_ok refs by (simp add: AppendVersion_def i Let_def Version_Unref_def)
qed

lemma vs_step_wf: "vs_step s s' \<Longrightarrow> vs_wf (fst s) (snd s) \<Longrightarrow> vs_wf (fst s') (snd s')"
  by (induction rule: vs_step.induct) (auto intro: Version_Ref_wf Version_Unref_wf AppendVersion_wf)

lemma vs_reachable_wf: "vs_step\<^sup>*\<^sup>* s s' \<Longrightarrow> vs_wf (fst s) (snd s) \<Longrightarrow> vs_wf (fst s') (snd s')"
  by (induction rule: rtranclp_induct) (auto intro: vs_step_wf)

lemma fold_insert_numbers: "fold (\<lambda>f. insert (sst_number f)) fs live = live \<union> sst_number ` set fs"
  by (induction fs arbitrary: live) auto

lemma fold_insert_levels:
  "fold (\<lambda>ssts live. fold (\<lambda>f. insert (sst_number f)) ssts live) ls live =
     live \<union> sst_number ` (\<Union>ssts\<in>set ls. set ssts)"
  by (induction ls arbitrary: live) (auto simp: fold_insert_numbers)

lemma AddLiveFiles_eq:
  "AddLiveFiles vs live =
     live \<union> sst_number ` (\<Union>(i, r, v)\<in>set (vs_versions vs). \<Union>ssts\<in>set (v_ssts v). set ssts)"
proof -
  have "fold (\<lambda>(i, refs, v) live. live \<union> sst_number ` (\<Union>ssts\<in>set (v_ssts v). set ssts)) xs live
    = live \<union> sst_number ` (\<Union>(i, r, v)\<in>set xs. \<Union>ssts\<in>set (v_ssts v). set ssts)" for xs
  proof (induction xs arbitrary: live)
    case (Cons x xs)
    obtain i r v where x: "x = (i, r, v)" by (rule prod_cases3)
    show ?case unfolding x fold_simps prod.case Cons.IH by (simp add: image_Un Un_assoc)
  qed simp
  then show ?thesis by (simp only: AddLiveFiles_def fold_insert_levels)
qed

text \<open>The versions that can be seen: the current one and the referenced ones.\<close>

definition in_use :: "VersionSet \<Rightarrow> nat multiset \<Rightarrow> nat \<Rightarrow> bool" where
  "in_use vs H i \<longleftrightarrow> i \<in># H \<or> vs_current vs = Some i"

text \<open>
  C19: No file in use is ever taken for dead.  Whatever versions are installed
  and whatever references are taken and dropped, a version that is current or
  referenced is still in the list, all its files are among the live files, and
  a version nobody uses is gone.
\<close>

theorem AddLiveFiles_safe:
  assumes "vs_step\<^sup>*\<^sup>* (VersionSet_new dbname n, {#}) (vs, H)"
  shows "(\<forall>i. in_use vs H i \<longleftrightarrow> version_of vs i \<noteq> None)
    \<and> (\<forall>i v. in_use vs H i \<and> version_of vs i = Some v \<longrightarrow>
          (\<forall>ssts\<in>set (v_ssts v). \<forall>f\<in>set ssts. sst_number f \<in> AddLiveFiles vs live))"
proof -
  have wf: "vs_wf vs H" using vs_reachable_wf [OF assms] VersionSet_new_wf by simp
  have pos: "in_use vs H i \<longleftrightarrow> 0 < refs_of vs H i" for i
    by (auto simp: in_use_def refs_of_def count_greater_zero_iff simp flip: count_greater_zero_iff)
  have "in_use vs H i \<longleftrightarrow> version_of vs i \<noteq> None" for i
  proof
    assume "in_use vs H i"
    then have "i \<in> fst ` set (vs_versions vs)" using wf pos by (auto simp: vs_wf_def)
    then show "version_of vs i \<noteq> None" by (simp add: version_of_def map_of_eq_None_iff)
  next
    assume "version_of vs i \<noteq> None"
    then obtain r v where "(i, r, v) \<in> set (vs_versions vs)"
      by (auto simp: version_of_def dest: map_of_SomeD)
    then have "0 < refs_of vs H i" using wf unfolding vs_wf_def by fastforce
    then show "in_use vs H i" using pos by simp
  qed
  moreover have "sst_number f \<in> AddLiveFiles vs live"
    if "version_of vs i = Some v" "ssts \<in> set (v_ssts v)" "f \<in> set ssts" for i v ssts f
    using that unfolding AddLiveFiles_eq version_of_def by (fastforce dest!: map_of_SomeD)
  ultimately show ?thesis by blast
qed

lemma AddLiveFiles_safe_witness:
  "\<exists>vs H. vs_step\<^sup>*\<^sup>* (VersionSet_new [] 2, {#}) (vs, H) \<and> 0 \<in># H \<and> vs_current vs = Some 1
     \<and> version_of vs 0 \<noteq> None \<and> version_of vs 1 = Some demo_version \<and> 7 \<in> AddLiveFiles vs {}"
proof -
  let ?vs0 = "VersionSet_new [] 2"
  let ?vs1 = "Version_Ref 0 ?vs0"
  let ?vs2 = "AppendVersion demo_version ?vs1"
  have "vs_step (?vs0, {#}) (?vs1, {#0#})"
    by (rule vs_step.take_ref) (simp add: VersionSet_new_def AppendVersion_def)
  moreover have "vs_step (?vs1, {#0#}) (?vs2, {#0#})" by (rule vs_step.install)
  ultimately have r: "vs_step\<^sup>*\<^sup>* (?vs0, {#}) (?vs2, {#0#})" by (meson r_into_rtranclp rtranclp.rtrancl_into_rtrancl)
  have c: "vs_current ?vs2 = Some 1" "version_of ?vs2 1 = Some demo_version"
    by (simp_all add: version_of_def VersionSet_new_def AppendVersion_def Version_Ref_def Version_Unref_def)
  have use: "in_use ?vs2 {#0#} 0" "in_use ?vs2 {#0#} 1" using c(1) by (simp_all add: in_use_def)
  have "\<forall>ssts\<in>set (v_ssts demo_version). \<forall>f\<in>set ssts. sst_number f \<in> AddLiveFiles ?vs2 {}"
    "version_of ?vs2 0 \<noteq> None"
    using AddLiveFiles_safe [OF r, of "{}"] use c(2) by blast+
  moreover have "[demo_file 7 9] \<in> set (v_ssts demo_version)" by (simp add: demo_version_def)
  ultimately have "7 \<in> AddLiveFiles ?vs2 {}" "version_of ?vs2 0 \<noteq> None" by fastforce+
  with r c show ?thesis by (intro exI [of _ ?vs2] exI [of _ "{#0#}"]) simp
qed

end
