(* ===== verification/Compaction.thy ===== *)
theory Compaction
  imports Version_Set
begin

text \<open>
  Choosing the files of a compaction: the last part of
  \<^verbatim>\<open>src/db/version_set.cc\<close>, with the class \<^verbatim>\<open>Compaction\<close> of
  \<^verbatim>\<open>src/db/include/version_set.h\<close>.  \<^verbatim>\<open>PickCompaction\<close> and \<^verbatim>\<open>CompactRange\<close> return
  \<^verbatim>\<open>None\<close> when the search for boundary files does not end, and \<open>Some None\<close> for the
  null pointer.  The theorems: what a compaction leaves behind on its two levels
  keeps the order of versions of a key; the tests made for every key of a running
  compaction are the subject of \<open>Compaction_Run\<close>.
\<close>

section \<open>A compaction\<close>

text \<open>\<^verbatim>\<open>input_version_\<close> is the identity of the version in the list of the version set.\<close>

record Compaction =
  c_level :: nat
  c_max_output_file_size :: nat
  c_input_version :: "nat option"
  c_edit :: VersionEdit
  c_inputs0 :: "SSTMetaData list"
  c_inputs1 :: "SSTMetaData list"
  c_grandparents :: "SSTMetaData list"
  c_grandparent_index :: nat
  c_seen_key :: bool
  c_overlapped_bytes :: int
  c_level_ptrs :: "nat list"

definition Compaction_new :: "nat \<Rightarrow> nat \<Rightarrow> Compaction" where
  "Compaction_new n level =
     \<lparr>c_level = level, c_max_output_file_size = MaxBytesForLevel level, c_input_version = None,
      c_edit = VersionEdit_Clear, c_inputs0 = [], c_inputs1 = [], c_grandparents = [],
      c_grandparent_index = 0, c_seen_key = False, c_overlapped_bytes = 0,
      c_level_ptrs = replicate n 0\<rparr>"

section \<open>Key ranges\<close>

text \<open>
  The loop after the first file.  The assertion that there is one is the
  first equation of \<open>GetRange\<close> in a release build: both keys stay cleared.
\<close>

fun GetRange_loop :: "SSTMetaData list \<Rightarrow> bytes \<times> bytes \<Rightarrow> bytes \<times> bytes" where
  "GetRange_loop [] (smallest, largest) = (smallest, largest)"
| "GetRange_loop (f # fs) (smallest, largest) =
     GetRange_loop fs
       (if icmp (smallest_key f) smallest < 0 then smallest_key f else smallest,
        if 0 < icmp (largest_key f) largest then largest_key f else largest)"

fun GetRange :: "SSTMetaData list \<Rightarrow> bytes \<times> bytes" where
  "GetRange [] = ([], [])"
| "GetRange (f # fs) = GetRange_loop fs (smallest_key f, largest_key f)"

definition GetRange2 :: "SSTMetaData list \<Rightarrow> SSTMetaData list \<Rightarrow> bytes \<times> bytes" where
  "GetRange2 inputs1 inputs2 = GetRange (inputs1 @ inputs2)"

fun FindLargestKey :: "SSTMetaData list \<Rightarrow> bytes option" where
  "FindLargestKey [] = None"
| "FindLargestKey (f # fs) =
     Some (foldl (\<lambda>k g. if 0 < icmp (largest_key g) k then largest_key g else k) (largest_key f) fs)"

section \<open>Boundary files\<close>

definition after_boundary :: "bytes \<Rightarrow> SSTMetaData \<Rightarrow> bool" where
  "after_boundary largest sst \<longleftrightarrow> 0 < icmp (smallest_key sst) largest
     \<and> ucmp (ExtractUserKey (smallest_key sst)) (ExtractUserKey largest) = 0"

fun FindSmallestBoundary_loop ::
    "bytes \<Rightarrow> SSTMetaData list \<Rightarrow> SSTMetaData option \<Rightarrow> SSTMetaData option" where
  "FindSmallestBoundary_loop largest [] best = best"
| "FindSmallestBoundary_loop largest (sst # ssts) best =
     FindSmallestBoundary_loop largest ssts
       (if after_boundary largest sst
           \<and> (case best of None \<Rightarrow> True | Some b \<Rightarrow> icmp (smallest_key sst) (smallest_key b) < 0)
        then Some sst else best)"

definition FindSmallestBoundarySST :: "SSTMetaData list \<Rightarrow> bytes \<Rightarrow> SSTMetaData option" where
  "FindSmallestBoundarySST level_ssts largest = FindSmallestBoundary_loop largest level_ssts None"

partial_function (option) AddBoundary_loop ::
    "SSTMetaData list \<Rightarrow> bytes \<Rightarrow> SSTMetaData list \<Rightarrow> SSTMetaData list option" where
  "AddBoundary_loop level_ssts largest ssts =
     (case FindSmallestBoundarySST level_ssts largest of
        None \<Rightarrow> Some ssts
      | Some sst \<Rightarrow> AddBoundary_loop level_ssts (largest_key sst) (ssts @ [sst]))"

declare AddBoundary_loop.simps [code]

definition AddBoundaryInputs :: "SSTMetaData list \<Rightarrow> SSTMetaData list \<Rightarrow> SSTMetaData list option" where
  "AddBoundaryInputs level_ssts compaction_ssts =
     (case FindLargestKey compaction_ssts of
        None \<Rightarrow> Some compaction_ssts
      | Some largest \<Rightarrow> AddBoundary_loop level_ssts largest compaction_ssts)"

section \<open>The inputs of a compaction\<close>

text \<open>
  \<open>expand_inputs\<close> is the attempt to grow the inputs of the lower level: the
  inputs of both levels and the two ranges after it.
\<close>

definition expand_inputs ::
    "nat \<Rightarrow> Version \<Rightarrow> nat \<Rightarrow> SSTMetaData list \<Rightarrow> SSTMetaData list \<Rightarrow> bytes \<times> bytes \<Rightarrow> bytes \<times> bytes \<Rightarrow>
     (SSTMetaData list \<times> SSTMetaData list \<times> (bytes \<times> bytes) \<times> (bytes \<times> bytes)) option" where
  "expand_inputs max_size v level inputs0 inputs1 range0 all =
     (if inputs1 = [] then Some (inputs0, inputs1, range0, all)
      else case AddBoundaryInputs (v_ssts v ! level)
             (GetOverlapSSTs v level (Some (fst all)) (Some (snd all))) of
        None \<Rightarrow> None
      | Some expanded0 \<Rightarrow>
          if length inputs0 < length expanded0
            \<and> TotalSSTSize inputs1 + TotalSSTSize expanded0 < ExpandedCompactionByteSizeLimit max_size
          then let new_range = GetRange expanded0 in
            case AddBoundaryInputs (v_ssts v ! (level + 1))
                   (GetOverlapSSTs v (level + 1) (Some (fst new_range)) (Some (snd new_range))) of
              None \<Rightarrow> None
            | Some expanded1 \<Rightarrow>
                if length expanded1 = length inputs1
                then Some (expanded0, expanded1, new_range, GetRange2 expanded0 expanded1)
                else Some (inputs0, inputs1, range0, all)
          else Some (inputs0, inputs1, range0, all))"

text \<open>The version the function reads is the current one.\<close>

definition SetupOtherInputs ::
    "DBConfig \<Rightarrow> Compaction \<Rightarrow> VersionSet \<Rightarrow> (Compaction \<times> VersionSet) option" where
  "SetupOtherInputs cfg c vs =
     (let v = current vs; level = c_level c in
      case AddBoundaryInputs (v_ssts v ! level) (c_inputs0 c) of
        None \<Rightarrow> None
      | Some inputs0 \<Rightarrow>
          let range0 = GetRange inputs0 in
          case AddBoundaryInputs (v_ssts v ! (level + 1))
                 (GetOverlapSSTs v (level + 1) (Some (fst range0)) (Some (snd range0))) of
            None \<Rightarrow> None
          | Some inputs1 \<Rightarrow>
              (case expand_inputs (max_file_size cfg) v level inputs0 inputs1 range0 (GetRange2 inputs0 inputs1) of
                 None \<Rightarrow> None
               | Some (inputs0, inputs1, range0, all) \<Rightarrow>
                   let grandparents = (if level + 2 < num_levels cfg
                         then GetOverlapSSTs v (level + 2) (Some (fst all)) (Some (snd all))
                         else c_grandparents c);
                       c = c\<lparr>c_inputs0 := inputs0, c_inputs1 := inputs1, c_grandparents := grandparents,
                             c_edit := AppendCompactPointer (int level) (snd range0) (c_edit c)\<rparr>;
                       vs = vs\<lparr>vs_compact_pointer := (vs_compact_pointer vs)[level := snd range0]\<rparr>
                   in Some (c, vs)))"

definition hold_current :: "Compaction \<Rightarrow> VersionSet \<Rightarrow> Compaction \<times> VersionSet" where
  "hold_current c vs =
     (c\<lparr>c_input_version := vs_current vs\<rparr>,
      case vs_current vs of None \<Rightarrow> vs | Some i \<Rightarrow> Version_Ref i vs)"

fun first_after_pointer :: "bytes \<Rightarrow> SSTMetaData list \<Rightarrow> SSTMetaData list" where
  "first_after_pointer ptr [] = []"
| "first_after_pointer ptr (sst # ssts) =
     (if ptr = [] \<or> 0 < icmp (largest_key sst) ptr then [sst] else first_after_pointer ptr ssts)"

text \<open>The first inputs and the level, by size or by the file that was read too often.\<close>

definition pick_inputs :: "VersionSet \<Rightarrow> (nat \<times> SSTMetaData list) option" where
  "pick_inputs vs =
     (let v = current vs in
      if 1 \<le> v_compaction_score v then
        (let level = nat (v_compaction_level v);
             inputs = first_after_pointer (vs_compact_pointer vs ! level) (v_ssts v ! level)
         in Some (level, if inputs = [] then [v_ssts v ! level ! 0] else inputs))
      else case v_sst_to_compact v of
        Some f \<Rightarrow> Some (nat (v_sst_to_compact_level v), [f])
      | None \<Rightarrow> None)"

definition PickCompaction ::
    "DBConfig \<Rightarrow> VersionSet \<Rightarrow> (Compaction option \<times> VersionSet) option" where
  "PickCompaction cfg vs =
     (case pick_inputs vs of
        None \<Rightarrow> Some (None, vs)
      | Some (level, inputs) \<Rightarrow>
          let (c, vs) = hold_current ((Compaction_new (num_levels cfg) level)\<lparr>c_inputs0 := inputs\<rparr>) vs;
              c = (if level = 0 then
                     (let r = GetRange (c_inputs0 c)
                      in c\<lparr>c_inputs0 := GetOverlapSSTs (current vs) 0 (Some (fst r)) (Some (snd r))\<rparr>)
                   else c)
          in map_option (\<lambda>(c, vs). (Some c, vs)) (SetupOtherInputs cfg c vs))"

fun cut_at :: "u64 \<Rightarrow> u64 \<Rightarrow> SSTMetaData list \<Rightarrow> SSTMetaData list" where
  "cut_at limit sofar [] = []"
| "cut_at limit sofar (f # fs) =
     (let sofar = sofar + sst_size f
      in if limit \<le> sofar then [f] else f # cut_at limit sofar fs)"

definition CompactRange ::
    "DBConfig \<Rightarrow> nat \<Rightarrow> bytes option \<Rightarrow> bytes option \<Rightarrow> VersionSet \<Rightarrow>
     (Compaction option \<times> VersionSet) option" where
  "CompactRange cfg level begin_key end_key vs =
     (let inputs = GetOverlapSSTs (current vs) level begin_key end_key in
      if inputs = [] then Some (None, vs)
      else
        let inputs = (if 0 < level
              then cut_at (of_nat (MaxSSTSizeForLevel (max_file_size cfg) level)) 0 inputs else inputs);
            (c, vs) = hold_current (Compaction_new (num_levels cfg) level) vs
        in map_option (\<lambda>(c, vs). (Some c, vs)) (SetupOtherInputs cfg (c\<lparr>c_inputs0 := inputs\<rparr>) vs))"

section \<open>A running compaction\<close>

definition IsJustMove :: "DBConfig \<Rightarrow> Compaction \<Rightarrow> bool" where
  "IsJustMove cfg c \<longleftrightarrow> length (c_inputs0 c) = 1 \<and> length (c_inputs1 c) = 0
     \<and> TotalSSTSize (c_grandparents c) \<le> MaxGrandParentOverlapBytes (max_file_size cfg)"

definition AddInputDeletions :: "Compaction \<Rightarrow> VersionEdit \<Rightarrow> VersionEdit" where
  "AddInputDeletions c e =
     fold (\<lambda>f. RemoveSST (int (c_level c) + 1) (sst_number f)) (c_inputs1 c)
       (fold (\<lambda>f. RemoveSST (int (c_level c)) (sst_number f)) (c_inputs0 c) e)"

text \<open>The search of one level from position \<open>p\<close>: whether it found the key, and where it stopped.\<close>

function level_has_key :: "bytes \<Rightarrow> SSTMetaData list \<Rightarrow> nat \<Rightarrow> bool \<times> nat" where
  "level_has_key user_key ssts p =
     (if p < length ssts then
        if ucmp user_key (sst_large (ssts ! p)) \<le> 0
        then (0 \<le> ucmp user_key (sst_small (ssts ! p)), p)
        else level_has_key user_key ssts (p + 1)
      else (False, p))"
  by auto
termination by (relation "measure (\<lambda>(k, ssts, p). length ssts - p)") auto

declare level_has_key.simps [simp del]

fun IsBaseLevel_loop :: "bytes \<Rightarrow> SSTMetaData list list \<Rightarrow> nat list \<Rightarrow> nat list \<Rightarrow> bool \<times> nat list" where
  "IsBaseLevel_loop user_key ssts [] ptrs = (True, ptrs)"
| "IsBaseLevel_loop user_key ssts (lev # levs) ptrs =
     (let (found, p) = level_has_key user_key (ssts ! lev) (ptrs ! lev);
          ptrs = ptrs[lev := p]
      in if found then (False, ptrs) else IsBaseLevel_loop user_key ssts levs ptrs)"

text \<open>The first argument is the input version.\<close>

definition IsBaseLevelForKey :: "DBConfig \<Rightarrow> Version \<Rightarrow> bytes \<Rightarrow> Compaction \<Rightarrow> bool \<times> Compaction" where
  "IsBaseLevelForKey cfg v user_key c =
     (let (r, ptrs) = IsBaseLevel_loop user_key (v_ssts v) [c_level c + 2..<num_levels cfg] (c_level_ptrs c)
      in (r, c\<lparr>c_level_ptrs := ptrs\<rparr>))"

function pass_grandparents ::
    "bytes \<Rightarrow> bool \<Rightarrow> SSTMetaData list \<Rightarrow> nat \<Rightarrow> int \<Rightarrow> nat \<times> int" where
  "pass_grandparents key seen gs i overlapped =
     (if i < length gs \<and> 0 < icmp key (largest_key (gs ! i))
      then pass_grandparents key seen gs (i + 1)
             (if seen then overlapped + uint (sst_size (gs ! i)) else overlapped)
      else (i, overlapped))"
  by auto
termination by (relation "measure (\<lambda>(k, s, gs, i, ov). length gs - i)") auto

declare pass_grandparents.simps [simp del]

definition ShouldStopBefore :: "DBConfig \<Rightarrow> bytes \<Rightarrow> Compaction \<Rightarrow> bool \<times> Compaction" where
  "ShouldStopBefore cfg key c =
     (let (i, overlapped) = pass_grandparents key (c_seen_key c) (c_grandparents c)
                              (c_grandparent_index c) (c_overlapped_bytes c);
          c = c\<lparr>c_grandparent_index := i, c_seen_key := True, c_overlapped_bytes := overlapped\<rparr>
      in if MaxGrandParentOverlapBytes (max_file_size cfg) < overlapped
         then (True, c\<lparr>c_overlapped_bytes := 0\<rparr>) else (False, c))"

definition ReleaseInputs :: "Compaction \<Rightarrow> VersionSet \<Rightarrow> Compaction \<times> VersionSet" where
  "ReleaseInputs c vs =
     (case c_input_version c of
        None \<Rightarrow> (c, vs)
      | Some i \<Rightarrow> (c\<lparr>c_input_version := None\<rparr>, Version_Unref i vs))"

section \<open>Ranges and boundaries\<close>

definition before :: "SSTMetaData \<Rightarrow> SSTMetaData \<Rightarrow> bool" where
  "before f g \<longleftrightarrow> icmp (largest_key f) (smallest_key g) < 0"

definition may_hold :: "SSTMetaData \<Rightarrow> bytes \<Rightarrow> bool" where
  "may_hold f u \<longleftrightarrow> ucmp (sst_small f) u \<le> 0 \<and> ucmp u (sst_large f) \<le> 0"

lemma GetRange_loop_range:
  assumes "GetRange_loop fs (s, l) = (s', l')"
  shows "icmp s' s \<le> 0 \<and> icmp l l' \<le> 0
    \<and> (\<forall>f\<in>set fs. icmp s' (smallest_key f) \<le> 0 \<and> icmp (largest_key f) l' \<le> 0)
    \<and> (s' = s \<or> (\<exists>f\<in>set fs. s' = smallest_key f)) \<and> (l' = l \<or> (\<exists>f\<in>set fs. l' = largest_key f))"
  using assms
proof (induction fs arbitrary: s l)
  case Nil
  then show ?case by (simp add: internal.cmp_refl)
next
  case (Cons f fs)
  let ?s = "if icmp (smallest_key f) s < 0 then smallest_key f else s"
  let ?l = "if 0 < icmp (largest_key f) l then largest_key f else l"
  have s: "icmp ?s s \<le> 0" "icmp ?s (smallest_key f) \<le> 0"
    using internal.cmp_less_trans [of "smallest_key f" s "smallest_key f"]
    by (auto simp: internal.cmp_refl internal.cmp_le_iff)
  have l: "icmp l ?l \<le> 0" "icmp (largest_key f) ?l \<le> 0"
    using internal.cmp_less_trans [of l "largest_key f" l]
    by (auto simp: internal.cmp_refl internal.cmp_le_iff internal.cmp_swap)
  have ih: "icmp s' ?s \<le> 0 \<and> icmp ?l l' \<le> 0
    \<and> (\<forall>f\<in>set fs. icmp s' (smallest_key f) \<le> 0 \<and> icmp (largest_key f) l' \<le> 0)
    \<and> (s' = ?s \<or> (\<exists>f\<in>set fs. s' = smallest_key f)) \<and> (l' = ?l \<or> (\<exists>f\<in>set fs. l' = largest_key f))"
    using Cons.prems by (intro Cons.IH) simp
  have "icmp s' s \<le> 0" "icmp s' (smallest_key f) \<le> 0" "icmp l l' \<le> 0" "icmp (largest_key f) l' \<le> 0"
    using ih s l internal.cmp_le_trans by blast+
  then show ?case using ih by (auto split: if_splits)
qed

lemma GetRange_range:
  assumes "fs \<noteq> []" "GetRange fs = (s, l)"
  shows "f \<in> set fs \<Longrightarrow> icmp s (smallest_key f) \<le> 0" "f \<in> set fs \<Longrightarrow> icmp (largest_key f) l \<le> 0"
    "\<exists>f\<in>set fs. s = smallest_key f" "\<exists>f\<in>set fs. l = largest_key f"
proof -
  obtain g gs where fs: "fs = g # gs" using assms(1) by (cases fs) auto
  note r = GetRange_loop_range [OF assms(2) [unfolded fs GetRange.simps]]
  show "f \<in> set fs \<Longrightarrow> icmp s (smallest_key f) \<le> 0" "f \<in> set fs \<Longrightarrow> icmp (largest_key f) l \<le> 0"
    using r fs by auto
  show "\<exists>f\<in>set fs. s = smallest_key f" "\<exists>f\<in>set fs. l = largest_key f" using r fs by auto
qed

definition is_largest :: "bytes \<Rightarrow> SSTMetaData list \<Rightarrow> bool" where
  "is_largest l fs \<longleftrightarrow> (\<forall>f\<in>set fs. icmp (largest_key f) l \<le> 0) \<and> (\<exists>f\<in>set fs. l = largest_key f)"

lemma FindLargestKey_is_largest:
  assumes "FindLargestKey fs = Some l"
  shows "is_largest l fs"
proof -
  obtain g gs where fs: "fs = g # gs" using assms by (cases fs) auto
  have eq: "foldl (\<lambda>k g. if 0 < icmp (largest_key g) k then largest_key g else k) l0 gs
      = snd (GetRange_loop gs (s0, l0))" for s0 l0
    by (induction gs arbitrary: s0 l0) auto
  have "l = snd (GetRange fs)" using assms eq [of "largest_key g" "smallest_key g"] by (simp add: fs)
  then have "GetRange fs = (fst (GetRange fs), l)" by simp
  from GetRange_range [OF _ this] fs show ?thesis unfolding is_largest_def by blast
qed

lemma FindSmallestBoundary_loop_result:
  assumes "FindSmallestBoundary_loop l fs best = r" "\<forall>b. best = Some b \<longrightarrow> after_boundary l b"
  shows "(case r of
      None \<Rightarrow> best = None \<and> (\<forall>f\<in>set fs. \<not> after_boundary l f)
    | Some s \<Rightarrow> after_boundary l s \<and> (s \<in> set fs \<or> best = Some s)
        \<and> (\<forall>b. best = Some b \<longrightarrow> icmp (smallest_key s) (smallest_key b) \<le> 0)
        \<and> (\<forall>f\<in>set fs. after_boundary l f \<longrightarrow> icmp (smallest_key s) (smallest_key f) \<le> 0))"
  using assms
proof (induction fs arbitrary: best)
  case Nil
  then show ?case by (auto simp: internal.cmp_refl split: option.split)
next
  case (Cons f fs)
  define best' where "best' = (if after_boundary l f
      \<and> (case best of None \<Rightarrow> True | Some b \<Rightarrow> icmp (smallest_key f) (smallest_key b) < 0) then Some f else best)"
  have "FindSmallestBoundary_loop l fs best' = r" using Cons.prems(1) by (simp add: best'_def)
  moreover have "\<forall>b. best' = Some b \<longrightarrow> after_boundary l b" using Cons.prems(2) by (simp add: best'_def)
  ultimately have ih: "(case r of
      None \<Rightarrow> best' = None \<and> (\<forall>f\<in>set fs. \<not> after_boundary l f)
    | Some s \<Rightarrow> after_boundary l s \<and> (s \<in> set fs \<or> best' = Some s)
        \<and> (\<forall>b. best' = Some b \<longrightarrow> icmp (smallest_key s) (smallest_key b) \<le> 0)
        \<and> (\<forall>f\<in>set fs. after_boundary l f \<longrightarrow> icmp (smallest_key s) (smallest_key f) \<le> 0))"
    by (rule Cons.IH)
  show ?case
  proof (cases r)
    case None
    then show ?thesis using ih by (auto simp: best'_def split: if_splits option.splits)
  next
    case (Some s)
    have le: "icmp (smallest_key s) (smallest_key b) \<le> 0" if "best' = Some b" for b using ih Some that by simp
    have f: "icmp (smallest_key s) (smallest_key f) \<le> 0" if bf: "after_boundary l f"
    proof (cases "best' = Some f")
      case False
      then obtain b where "best = Some b" "\<not> icmp (smallest_key f) (smallest_key b) < 0" "best' = Some b"
        using bf by (auto simp: best'_def split: option.splits if_splits)
      then show ?thesis using le internal.cmp_le_trans internal.cmp_le_iff by blast
    qed (rule le)
    have b: "icmp (smallest_key s) (smallest_key b) \<le> 0" if "best = Some b" for b
    proof (cases "best' = Some b")
      case False
      then have "best' = Some f" "icmp (smallest_key f) (smallest_key b) < 0"
        using that by (auto simp: best'_def split: if_splits)
      then show ?thesis using internal.cmp_le_less_trans [OF le] by (simp add: less_imp_le)
    qed (rule le)
    have "s \<in> set (f # fs) \<or> best = Some s" using ih Some by (auto simp: best'_def split: if_splits)
    then show ?thesis using ih Some f b by simp
  qed
qed

lemma FindSmallestBoundarySST_None:
  "FindSmallestBoundarySST fs l = None \<Longrightarrow> f \<in> set fs \<Longrightarrow> \<not> after_boundary l f"
  using FindSmallestBoundary_loop_result [of l fs None None] by (simp add: FindSmallestBoundarySST_def)

lemma FindSmallestBoundarySST_Some:
  assumes "FindSmallestBoundarySST fs l = Some s"
  shows "s \<in> set fs" "after_boundary l s"
    "f \<in> set fs \<Longrightarrow> after_boundary l f \<Longrightarrow> icmp (smallest_key s) (smallest_key f) \<le> 0"
  using FindSmallestBoundary_loop_result [of l fs None "Some s"] assms by (auto simp: FindSmallestBoundarySST_def)

section \<open>Adding boundary files\<close>

text \<open>
  \<open>convex\<close>: a file of the level between two chosen files is chosen.
  \<open>left_newer\<close>: a file left on the level that may hold a user key of a chosen
  file lies before it, so it holds newer entries of this key; on level 0 no such
  file is left.
\<close>

definition convex :: "SSTMetaData list \<Rightarrow> SSTMetaData list \<Rightarrow> bool" where
  "convex ls xs \<longleftrightarrow> (\<forall>g\<in>set xs. \<forall>h\<in>set xs. \<forall>f\<in>set ls. before g f \<and> before f h \<longrightarrow> f \<in> set xs)"

definition left_newer :: "nat \<Rightarrow> SSTMetaData list \<Rightarrow> SSTMetaData list \<Rightarrow> bool" where
  "left_newer level ls xs \<longleftrightarrow>
     (\<forall>f\<in>set ls - set xs. \<forall>g\<in>set xs. \<forall>u. may_hold f u \<and> may_hold g u \<longrightarrow> 0 < level \<and> before f g)"

lemma level_before:
  assumes "level_sorted ls" "f \<in> set ls" "g \<in> set ls" "f \<noteq> g"
  shows "before f g \<or> before g f"
proof -
  obtain i j where ij: "f = ls ! i" "g = ls ! j" "i < length ls" "j < length ls"
    using assms(2,3) by (auto simp: in_set_conv_nth)
  have "i \<noteq> j" using ij assms(4) by auto
  then show ?thesis
    using assms(1) ij by (auto simp: level_sorted_def sorted_wrt_iff_nth_less before_def neq_iff)
qed

lemma level_file_ok: "level_sorted ls \<Longrightarrow> f \<in> set ls \<Longrightarrow> icmp (smallest_key f) (largest_key f) \<le> 0"
  by (simp add: level_sorted_def file_ok_def)

lemma boundary_step:
  assumes ls: "level_sorted ls" "set xs \<subseteq> set ls" "convex ls xs" "is_largest l xs"
    and s: "FindSmallestBoundarySST ls l = Some s"
  shows "convex ls (xs @ [s])" "is_largest (largest_key s) (xs @ [s])"
proof -
  note s = FindSmallestBoundarySST_Some [OF s]
  have ls_s: "icmp l (smallest_key s) < 0" using s(2) by (simp add: after_boundary_def internal.cmp_swap)
  have big: "icmp (largest_key g) (smallest_key s) < 0" if "g \<in> set xs" for g
    using ls(4) that ls_s internal.cmp_le_less_trans by (auto simp: is_largest_def)
  have sok: "icmp (smallest_key s) (largest_key s) \<le> 0" using ls(1) s(1) by (rule level_file_ok)
  show "is_largest (largest_key s) (xs @ [s])"
    using big internal.cmp_less_le_trans [OF _ sok] by (fastforce simp: is_largest_def internal.cmp_refl)
  have mid: "f \<in> set xs" if f: "f \<in> set ls" and g: "g \<in> set xs" and gf: "before g f" and fs: "before f s" for f g
  proof (rule ccontr)
    assume nin: "f \<notin> set xs"
    obtain h where h: "h \<in> set xs" "l = largest_key h" using ls(4) by (auto simp: is_largest_def)
    then have "before h f" using level_before [OF ls(1), of h f] ls(2,3) nin f g gf unfolding convex_def by blast
    then have lf: "icmp l (smallest_key f) < 0" by (simp add: before_def h(2))
    have fs': "icmp (smallest_key f) (smallest_key s) < 0"
      using level_file_ok [OF ls(1) f] fs internal.cmp_le_less_trans unfolding before_def by blast
    have eq: "ExtractUserKey (smallest_key s) = ExtractUserKey l"
      using s(2) unfolding after_boundary_def by (simp only: Bytewise_eq_0)
    have le: "ucmp (ExtractUserKey l) (ExtractUserKey (smallest_key f)) \<le> 0"
      "ucmp (ExtractUserKey (smallest_key f)) (ExtractUserKey l) \<le> 0"
      using icmp_user_le [OF less_imp_le [OF lf]] icmp_user_le [OF less_imp_le [OF fs']] by (simp_all only: eq)
    then have "ucmp (ExtractUserKey (smallest_key f)) (ExtractUserKey l) = 0"
      using bytewise.cmp_le_iff [of "ExtractUserKey l" "ExtractUserKey (smallest_key f)"] by linarith
    then have "after_boundary l f" using lf by (simp add: after_boundary_def internal.cmp_swap)
    then show False using s(3) f fs' internal.cmp_le_iff by blast
  qed
  show "convex ls (xs @ [s])"
    unfolding convex_def
  proof (intro ballI impI)
    fix g h f
    assume a: "g \<in> set (xs @ [s])" "h \<in> set (xs @ [s])" "f \<in> set ls" "before g f \<and> before f h"
    have ff: "icmp (smallest_key f) (largest_key f) \<le> 0" using ls(1) a(3) by (rule level_file_ok)
    consider "g \<in> set xs" "h \<in> set xs" | "g \<in> set xs" "h = s" | "g = s" "h \<in> set xs" | "g = s" "h = s" using a by auto
    then show "f \<in> set (xs @ [s])"
    proof cases
      case 1
      then have "f \<in> set xs" using a(3,4) ls(3) unfolding convex_def by blast
      then show ?thesis by simp
    next
      case 2
      then have "f \<in> set xs" using a(3,4) mid by blast
      then show ?thesis by simp
    next
      case 3
      have "icmp (largest_key s) (smallest_key h) < 0"
        using a 3 internal.cmp_less_le_trans [OF _ ff] internal.cmp_less_trans unfolding before_def by blast
      moreover have "icmp (smallest_key h) (largest_key h) \<le> 0" using ls 3 level_file_ok by blast
      ultimately have "icmp (largest_key s) (smallest_key s) < 0"
        using big [OF 3(2)] internal.cmp_less_le_trans internal.cmp_less_trans by blast
      then show ?thesis using sok internal.cmp_le_iff by blast
    next
      case 4
      have "icmp (largest_key s) (smallest_key s) < 0"
        using a 4 internal.cmp_less_le_trans [OF _ ff] internal.cmp_less_trans unfolding before_def by blast
      then show ?thesis using sok internal.cmp_le_iff by blast
    qed
  qed
qed

lemma AddBoundary_loop_sorted:
  assumes "level_sorted ls" "set xs \<subseteq> set ls" "convex ls xs" "is_largest l xs"
  shows "\<exists>ys l'. AddBoundary_loop ls l xs = Some ys \<and> set xs \<subseteq> set ys \<and> set ys \<subseteq> set ls \<and> convex ls ys
    \<and> is_largest l' ys \<and> (\<forall>f\<in>set ls. \<not> after_boundary l' f)"
  using assms
proof (induction "length (filter (\<lambda>f. icmp l (smallest_key f) < 0) ls)" arbitrary: l xs rule: less_induct)
  case less
  show ?case
  proof (cases "FindSmallestBoundarySST ls l")
    case None
    have "AddBoundary_loop ls l xs = Some xs" by (subst AddBoundary_loop.simps) (simp add: None)
    then show ?thesis using less.prems FindSmallestBoundarySST_None [OF None] by blast
  next
    case (Some s)
    note s = FindSmallestBoundarySST_Some [OF Some]
    have ls: "icmp l (smallest_key s) < 0" using s(2) by (simp add: after_boundary_def internal.cmp_swap)
    have sok: "icmp (smallest_key s) (largest_key s) \<le> 0" using less.prems(1) s(1) by (rule level_file_ok)
    have lt: "icmp l (largest_key s) < 0" using ls sok by (rule internal.cmp_less_le_trans)
    have "length (filter (\<lambda>f. icmp (largest_key s) (smallest_key f) < 0) ls)
      < length (filter (\<lambda>f. icmp l (smallest_key f) < 0) ls)"
      using s(1) ls sok internal.cmp_less_trans [OF lt]
      by (intro length_filter_strict [of s]) (auto simp: internal.cmp_le_iff)
    moreover have "set (xs @ [s]) \<subseteq> set ls" using less.prems(2) s(1) by simp
    ultimately obtain ys l' where ys: "AddBoundary_loop ls (largest_key s) (xs @ [s]) = Some ys"
      "set (xs @ [s]) \<subseteq> set ys" "set ys \<subseteq> set ls" "convex ls ys"
      "is_largest l' ys" "\<forall>f\<in>set ls. \<not> after_boundary l' f"
      using less.hyps [of "largest_key s" "xs @ [s]"] boundary_step [OF less.prems Some] less.prems(1) by blast
    have "AddBoundary_loop ls l xs = Some ys" by (subst AddBoundary_loop.simps) (simp add: Some ys(1))
    then show ?thesis using ys by auto
  qed
qed

lemma before_user: "before g f \<Longrightarrow> may_hold f u \<Longrightarrow> may_hold g u \<Longrightarrow> sst_large g = u \<and> sst_small f = u"
proof -
  assume a: "before g f" "may_hold f u" "may_hold g u"
  have gf: "ucmp (sst_large g) (sst_small f) \<le> 0"
    using a(1) icmp_user_le unfolding before_def sst_large_def sst_small_def by (meson less_imp_le)
  have "ucmp u (sst_small f) \<le> 0" "ucmp (sst_large g) u \<le> 0"
    using a gf bytewise.cmp_le_trans unfolding may_hold_def by blast+
  then have "ucmp u (sst_small f) = 0" "ucmp (sst_large g) u = 0"
    using a bytewise.cmp_le_iff [of "sst_small f" u] bytewise.cmp_le_iff [of u "sst_large g"]
    unfolding may_hold_def by linarith+
  then show "sst_large g = u \<and> sst_small f = u" by simp
qed

lemma convex_left_newer:
  assumes ls: "level_sorted ls" "set ys \<subseteq> set ls" "convex ls ys" "is_largest l ys"
    and none: "\<forall>f\<in>set ls. \<not> after_boundary l f" and "0 < level"
  shows "left_newer level ls ys"
  unfolding left_newer_def
proof (intro ballI allI impI conjI)
  fix f g u
  assume f: "f \<in> set ls - set ys" and g: "g \<in> set ys" and u: "may_hold f u \<and> may_hold g u"
  show "0 < level" by fact
  show "before f g"
  proof (rule ccontr)
    assume "\<not> before f g"
    then have gf: "before g f" using level_before [OF ls(1), of f g] f g ls(2) by blast
    have keys: "sst_large g = u" "sst_small f = u" using before_user [OF gf] u by auto
    obtain h where h: "h \<in> set ys" "l = largest_key h" using ls(4) by (auto simp: is_largest_def)
    have "\<not> before f h" using ls(3) g h(1) f gf unfolding convex_def by blast
    then have "before h f" using level_before [OF ls(1), of f h] f h(1) ls(2) by blast
    then have hf: "icmp l (smallest_key f) < 0" by (simp add: before_def h(2))
    have gl: "icmp (largest_key g) l \<le> 0" using ls(4) g by (simp add: is_largest_def)
    have "ucmp u (ExtractUserKey l) \<le> 0" using icmp_user_le [OF gl] keys(1) by (simp add: sst_large_def)
    moreover have "ucmp (ExtractUserKey l) u \<le> 0"
      using icmp_user_le [OF less_imp_le [OF hf]] keys(2) by (simp add: sst_small_def)
    ultimately have "ucmp u (ExtractUserKey l) = 0" using bytewise.cmp_le_iff [of "ExtractUserKey l" u] by linarith
    then have "after_boundary l f"
      using hf keys(2) unfolding after_boundary_def internal.cmp_swap sst_small_def by simp
    then show False using none f by blast
  qed
qed

text \<open>What the choice of files starts from: on level 0 it is already closed.\<close>

definition choice_ok :: "nat \<Rightarrow> SSTMetaData list \<Rightarrow> SSTMetaData list \<Rightarrow> bool" where
  "choice_ok level ls xs \<longleftrightarrow> set xs \<subseteq> set ls
     \<and> (if level = 0 then left_newer 0 ls xs \<and> (\<forall>f\<in>set ls. file_ok f) else level_sorted ls \<and> convex ls xs)"

lemma may_hold_ends: "file_ok f \<Longrightarrow> may_hold f (sst_small f) \<and> may_hold f (sst_large f)"
  using file_user_le by (simp add: may_hold_def bytewise.cmp_refl)

lemma AddBoundaryInputs_closed:
  assumes "choice_ok level ls xs"
  shows "\<exists>ys. AddBoundaryInputs ls xs = Some ys \<and> set xs \<subseteq> set ys \<and> set ys \<subseteq> set ls \<and> left_newer level ls ys"
proof (cases "FindLargestKey xs")
  case None
  then have "xs = []" by (cases xs) auto
  then show ?thesis by (simp add: AddBoundaryInputs_def left_newer_def)
next
  case (Some l)
  note big = FindLargestKey_is_largest [OF Some]
  have sub: "set xs \<subseteq> set ls" using assms by (simp add: choice_ok_def)
  show ?thesis
  proof (cases "level = 0")
    case False
    then have ls: "level_sorted ls" "convex ls xs" using assms by (simp_all add: choice_ok_def)
    obtain ys l' where "AddBoundary_loop ls l xs = Some ys" "set xs \<subseteq> set ys" "set ys \<subseteq> set ls" "convex ls ys"
      "is_largest l' ys" "\<forall>f\<in>set ls. \<not> after_boundary l' f"
      using AddBoundary_loop_sorted [OF ls(1) sub ls(2) big] by blast
    then show ?thesis using convex_left_newer [OF ls(1)] False by (auto simp: AddBoundaryInputs_def Some)
  next
    case True
    then have a: "left_newer 0 ls xs" "\<forall>f\<in>set ls. file_ok f" using assms by (simp_all add: choice_ok_def)
    have "\<not> after_boundary l f" if f: "f \<in> set ls" for f
    proof
      assume bd: "after_boundary l f"
      obtain g where g: "g \<in> set xs" "l = largest_key g" using big by (auto simp: is_largest_def)
      have eq: "sst_small f = sst_large g"
        using bd unfolding after_boundary_def g(2) sst_small_def sst_large_def by simp
      have "may_hold f (sst_small f) \<and> may_hold g (sst_small f)"
        using may_hold_ends a(2) f g(1) sub eq by (metis subsetD)
      then have "f \<in> set xs" using a(1) f g(1) unfolding left_newer_def by blast
      then have "icmp (largest_key f) l \<le> 0" using big by (simp add: is_largest_def)
      moreover have "icmp l (smallest_key f) < 0" using bd by (simp add: after_boundary_def internal.cmp_swap)
      moreover have "icmp (smallest_key f) (largest_key f) \<le> 0" using a(2) f by (simp add: file_ok_def)
      ultimately show False using internal.cmp_less_le_trans internal.cmp_le_iff by blast
    qed
    then have "FindSmallestBoundarySST ls l = None"
      using FindSmallestBoundarySST_Some by (metis option.exhaust)
    then have "AddBoundaryInputs ls xs = Some xs"
      by (simp add: AddBoundaryInputs_def Some) (subst AddBoundary_loop.simps, simp)
    then show ?thesis using sub a(1) True by simp
  qed
qed

lemma GetOverlap_choice_ok:
  assumes "\<forall>f\<in>set (v_ssts v ! level). file_ok f" "0 < level \<longrightarrow> level_sorted (v_ssts v ! level)"
  shows "choice_ok level (v_ssts v ! level) (GetOverlapSSTs v level bk ek)"
proof -
  let ?b = "map_option ExtractUserKey bk" and ?e = "map_option ExtractUserKey ek"
  let ?ls = "v_ssts v ! level" and ?xs = "GetOverlapSSTs v level bk ek"
  note r = GetOverlapSSTs_result [OF refl, where v = v and level = level and bk = bk and ek = ek]
  show ?thesis
  proof (cases "level = 0")
    case True
    have "left_newer 0 ?ls ?xs"
      unfolding left_newer_def
    proof (intro ballI allI impI)
      fix f g u
      assume a: "f \<in> set ?ls - set ?xs" "g \<in> set ?xs" "may_hold f u \<and> may_hold g u"
      then have "ucmp (sst_large f) (sst_small g) < 0 \<or> ucmp (sst_large g) (sst_small f) < 0" using r True by blast
      moreover have "ucmp (sst_small g) (sst_large f) \<le> 0" "ucmp (sst_small f) (sst_large g) \<le> 0"
        using a(3) bytewise.cmp_le_trans unfolding may_hold_def by blast+
      ultimately show "(0::nat) < 0 \<and> before f g" by (simp add: bytewise.cmp_le_iff)
    qed
    then show ?thesis using r assms True unfolding choice_ok_def by simp
  next
    case False
    then have xs: "?xs = filter (\<lambda>f. \<not> outside ?b ?e f) ?ls" using r by simp
    have "convex ?ls ?xs"
      unfolding convex_def
    proof (intro ballI impI)
      fix g h f
      assume a: "g \<in> set ?xs" "h \<in> set ?xs" "f \<in> set ?ls" "before g f \<and> before f h"
      have "icmp (largest_key g) (largest_key f) \<le> 0" "icmp (smallest_key f) (smallest_key h) \<le> 0"
        using a(4) assms(1) a(3) internal.cmp_less_le_trans internal.cmp_le_less_trans
        unfolding before_def file_ok_def by (meson less_imp_le)+
      then have "ucmp (sst_large g) (sst_large f) \<le> 0" "ucmp (sst_small f) (sst_small h) \<le> 0"
        unfolding sst_large_def sst_small_def by (auto intro: icmp_user_le)
      then have "\<not> outside ?b ?e f" if "\<not> outside ?b ?e g" "\<not> outside ?b ?e h"
        using that bytewise.cmp_le_less_trans bytewise.cmp_less_le_trans
        unfolding outside_def bytewise.cmp_swap by (auto split: option.splits)
      then show "f \<in> set ?xs" using a(1-3) unfolding xs by simp
    qed
    then show ?thesis using r assms False unfolding choice_ok_def by simp
  qed
qed

section \<open>What a compaction leaves behind\<close>

definition levels_ok :: "nat \<Rightarrow> Version \<Rightarrow> bool" where
  "levels_ok n v \<longleftrightarrow> length (v_ssts v) = n \<and> (\<forall>f\<in>set (v_ssts v ! 0). file_ok f)
     \<and> (\<forall>l<n. 0 < l \<longrightarrow> level_sorted (v_ssts v ! l))"

text \<open>
  \<open>inputs_ok\<close>: the inputs come from their levels; what is left on either level
  is newer than the inputs it shares a user key with; and no file of the upper
  level that is left shares a user key with an input of the lower level.
\<close>

definition inputs_ok :: "Version \<Rightarrow> nat \<Rightarrow> SSTMetaData list \<Rightarrow> SSTMetaData list \<Rightarrow> bool" where
  "inputs_ok v level inputs0 inputs1 \<longleftrightarrow>
     set inputs0 \<subseteq> set (v_ssts v ! level) \<and> set inputs1 \<subseteq> set (v_ssts v ! (level + 1))
     \<and> left_newer level (v_ssts v ! level) inputs0
     \<and> left_newer (level + 1) (v_ssts v ! (level + 1)) inputs1
     \<and> (\<forall>f\<in>set (v_ssts v ! (level + 1)) - set inputs1. \<forall>g\<in>set inputs0. \<forall>u. \<not> (may_hold f u \<and> may_hold g u))"

lemma levels_ok_files: "levels_ok n v \<Longrightarrow> l < n \<Longrightarrow> f \<in> set (v_ssts v ! l) \<Longrightarrow> file_ok f"
  by (cases l) (auto simp: levels_ok_def level_sorted_def)

lemma overlap_choice_ok: "levels_ok n v \<Longrightarrow> l < n \<Longrightarrow> choice_ok l (v_ssts v ! l) (GetOverlapSSTs v l b e)"
  using levels_ok_files by (intro GetOverlap_choice_ok) (auto simp: levels_ok_def)

lemma second_inputs:
  assumes v: "levels_ok n v" "level + 1 < n"
    and xs: "xs \<noteq> []" "set xs \<subseteq> set (v_ssts v ! level)" "left_newer level (v_ssts v ! level) xs"
    and r: "GetRange xs = (s, l)"
  shows "\<exists>ys. AddBoundaryInputs (v_ssts v ! (level + 1)) (GetOverlapSSTs v (level + 1) (Some s) (Some l)) = Some ys
    \<and> inputs_ok v level xs ys"
proof -
  let ?ov = "GetOverlapSSTs v (level + 1) (Some s) (Some l)" and ?ls = "v_ssts v ! (level + 1)"
  obtain ys where ys: "AddBoundaryInputs ?ls ?ov = Some ys" "set ?ov \<subseteq> set ys" "set ys \<subseteq> set ?ls"
    "left_newer (level + 1) ?ls ys"
    using AddBoundaryInputs_closed [OF overlap_choice_ok [OF v(1,2), of "Some s" "Some l"]] by blast
  have "\<not> (may_hold f u \<and> may_hold g u)" if f: "f \<in> set ?ls - set ys" and g: "g \<in> set xs" for f g u
  proof
    assume u: "may_hold f u \<and> may_hold g u"
    have le: "ucmp (ExtractUserKey s) (sst_small g) \<le> 0" "ucmp (sst_large g) (ExtractUserKey l) \<le> 0"
      unfolding sst_small_def sst_large_def using GetRange_range(1,2) [OF xs(1) r g] by (auto intro: icmp_user_le)
    have "ucmp (ExtractUserKey s) (sst_large f) \<le> 0" "ucmp (sst_small f) (ExtractUserKey l) \<le> 0"
      using u le bytewise.cmp_le_trans unfolding may_hold_def by blast+
    then have "\<not> outside (Some (ExtractUserKey s)) (Some (ExtractUserKey l)) f"
      by (simp add: outside_def bytewise.cmp_swap bytewise.cmp_le_iff)
    then have "f \<in> set ?ov"
      using GetOverlapSSTs_result [OF refl, where v = v and level = "level + 1" and bk = "Some s" and ek = "Some l"] f by simp
    then show False using ys(2) f by blast
  qed
  then show ?thesis using ys xs unfolding inputs_ok_def by blast
qed

lemma expand_inputs_ok:
  assumes v: "levels_ok n v" "level + 1 < n"
    and xs: "xs \<noteq> []" "inputs_ok v level xs ys" "r = GetRange xs"
  shows "\<exists>xs' ys' all'. expand_inputs m v level xs ys r al = Some (xs', ys', GetRange xs', all')
    \<and> xs' \<noteq> [] \<and> inputs_ok v level xs' ys'"
proof (cases "ys = []")
  case True
  then show ?thesis using xs by (simp add: expand_inputs_def)
next
  case False
  let ?ov = "GetOverlapSSTs v level (Some (fst al)) (Some (snd al))"
  have "level < n" using v(2) by simp
  note c0 = AddBoundaryInputs_closed [OF overlap_choice_ok [OF v(1) this, of "Some (fst al)" "Some (snd al)"]]
  then obtain xs' where xs': "AddBoundaryInputs (v_ssts v ! level) ?ov = Some xs'"
    "set xs' \<subseteq> set (v_ssts v ! level)" "left_newer level (v_ssts v ! level) xs'" by blast
  show ?thesis
  proof (cases "length xs < length xs' \<and> TotalSSTSize ys + TotalSSTSize xs' < ExpandedCompactionByteSizeLimit m")
    case False': False
    show ?thesis
      using xs \<open>ys \<noteq> []\<close> unfolding expand_inputs_def xs'(1) option.case if_not_P [OF False'] by simp
  next
    case True
    obtain s l where r: "GetRange xs' = (s, l)" by fastforce
    have "xs' \<noteq> []" using True by auto
    from second_inputs [OF v this xs'(2,3) r] obtain ys' where ys':
      "AddBoundaryInputs (v_ssts v ! (level + 1)) (GetOverlapSSTs v (level + 1) (Some s) (Some l)) = Some ys'"
      "inputs_ok v level xs' ys'" by blast
    show ?thesis
      using xs True \<open>ys \<noteq> []\<close> \<open>xs' \<noteq> []\<close> ys' unfolding expand_inputs_def xs'(1) option.case r Let_def fst_conv snd_conv ys'(1)
      by (cases "length ys' = length ys") (simp_all add: r)
  qed
qed

lemma SetupOtherInputs_ok:
  assumes v: "levels_ok (num_levels cfg) (current vs)" "c_level c + 1 < num_levels cfg"
    and c: "c_inputs0 c \<noteq> []"
      "choice_ok (c_level c) (v_ssts (current vs) ! c_level c) (c_inputs0 c)"
  shows "\<exists>c' vs'. SetupOtherInputs cfg c vs = Some (c', vs')
    \<and> c_level c' = c_level c \<and> c_inputs0 c' \<noteq> [] \<and> c_input_version c' = c_input_version c
    \<and> inputs_ok (current vs) (c_level c) (c_inputs0 c') (c_inputs1 c')
    \<and> c_edit c' = AppendCompactPointer (int (c_level c)) (snd (GetRange (c_inputs0 c'))) (c_edit c)
    \<and> vs' = vs\<lparr>vs_compact_pointer := (vs_compact_pointer vs)[c_level c := snd (GetRange (c_inputs0 c'))]\<rparr>"
proof -
  let ?v = "current vs" and ?l = "c_level c"
  obtain xs where xs: "AddBoundaryInputs (v_ssts ?v ! ?l) (c_inputs0 c) = Some xs" "set (c_inputs0 c) \<subseteq> set xs"
    "set xs \<subseteq> set (v_ssts ?v ! ?l)" "left_newer ?l (v_ssts ?v ! ?l) xs"
    using AddBoundaryInputs_closed [OF c(2)] by blast
  have ne: "xs \<noteq> []" using xs(2) c(1) by auto
  obtain s l where r: "GetRange xs = (s, l)" by fastforce
  obtain ys where ys:
    "AddBoundaryInputs (v_ssts ?v ! (?l + 1)) (GetOverlapSSTs ?v (?l + 1) (Some s) (Some l)) = Some ys"
    "inputs_ok ?v ?l xs ys"
    using second_inputs [OF v ne xs(3,4) r] by blast
  from expand_inputs_ok [OF v ne ys(2) r [symmetric], of "max_file_size cfg" "GetRange2 xs ys"]
  obtain xs' ys' all' where e:
    "expand_inputs (max_file_size cfg) ?v ?l xs ys (s, l) (GetRange2 xs ys) = Some (xs', ys', GetRange xs', all')"
    "xs' \<noteq> []" "inputs_ok ?v ?l xs' ys'" by blast
  show ?thesis
    using e(2,3) unfolding SetupOtherInputs_def Let_def xs(1) option.case r fst_conv snd_conv ys(1) e(1) prod.case
    by simp
qed

section \<open>Picking a compaction\<close>

lemma current_Version_Ref [simp]: "current (Version_Ref i vs) = current vs"
proof -
  have "map_of (map (\<lambda>(j, refs, v). (j, if j = i then refs + 1 else refs, v)) xs) k
      = map_option (\<lambda>(refs, v). (if k = i then refs + 1 else refs, v)) (map_of xs k)" for xs :: "(nat \<times> int \<times> Version) list" and k
    by (induction xs) auto
  then have "version_of (Version_Ref i vs) k = version_of vs k" for k
    by (auto simp: version_of_def Version_Ref_def map_option_case split: option.split)
  then have "version_of (Version_Ref i vs) = version_of vs" by (rule ext)
  moreover have "vs_current (Version_Ref i vs) = vs_current vs" by (simp add: Version_Ref_def)
  ultimately show ?thesis by (simp only: current_def)
qed

lemma current_hold [simp]: "current (snd (hold_current c vs)) = current vs"
  by (simp add: hold_current_def split: option.split)

text \<open>What the scores promise: the level to compact has a file and a level below it.\<close>

definition pickable :: "nat \<Rightarrow> Version \<Rightarrow> bool" where
  "pickable n v \<longleftrightarrow>
     (1 \<le> v_compaction_score v \<longrightarrow> 0 \<le> v_compaction_level v \<and> nat (v_compaction_level v) + 1 < n
        \<and> v_ssts v ! nat (v_compaction_level v) \<noteq> [])
     \<and> (\<forall>f. v_sst_to_compact v = Some f \<longrightarrow> 0 \<le> v_sst_to_compact_level v
        \<and> nat (v_sst_to_compact_level v) + 1 < n \<and> f \<in> set (v_ssts v ! nat (v_sst_to_compact_level v)))"

lemma Finalize_fold:
  assumes "fold (Finalize_step t ssts) ls (b0, s0) = (b, s)"
  shows "(b, s) = (b0, s0) \<or> (\<exists>l\<in>set ls. b = int l \<and> s = level_score t ssts l)"
  using assms
proof (induction ls arbitrary: b0 s0)
  case (Cons l ls)
  obtain b1 s1 where 1: "Finalize_step t ssts l (b0, s0) = (b1, s1)" by fastforce
  then have "fold (Finalize_step t ssts) ls (b1, s1) = (b, s)" using Cons.prems by simp
  from Cons.IH [OF this] show ?case using 1 by (auto simp: Finalize_step_def Let_def split: if_splits)
qed simp

lemma Finalize_pickable:
  assumes "v_sst_to_compact v = None"
  shows "pickable (length (v_ssts v)) (Finalize t v)"
proof -
  obtain b s where f: "fold (Finalize_step t (v_ssts v)) [0..<length (v_ssts v) - 1] (- 1, - 1) = (b, s)" by fastforce
  have eq: "Finalize t v = v\<lparr>v_compaction_level := b, v_compaction_score := s\<rparr>" unfolding Finalize_def f Let_def prod.case ..
  have "0 \<le> b \<and> nat b + 1 < length (v_ssts v) \<and> v_ssts v ! nat b \<noteq> []" if one: "1 \<le> s"
  proof -
    obtain l where l: "l < length (v_ssts v) - 1" "b = int l" "s = level_score t (v_ssts v) l"
      using Finalize_fold [OF f] one by auto
    have "level_score t (v_ssts v) l = 0" if "v_ssts v ! l = []"
      using that by (cases "l = 0") (simp_all add: level_score_def TotalSSTSize_def)
    then have "v_ssts v ! l \<noteq> []" using one l(3) by auto
    then show ?thesis using l by simp
  qed
  then show ?thesis using assms by (simp add: eq pickable_def)
qed

lemma first_after_pointer_choice:
  "first_after_pointer ptr ls = [] \<or> (\<exists>f\<in>set ls. first_after_pointer ptr ls = [f])"
  by (induction ls) auto

lemma pick_inputs_ok:
  assumes "pickable n (current vs)" "pick_inputs vs = Some (level, inputs)"
  shows "level + 1 < n \<and> (\<exists>f\<in>set (v_ssts (current vs) ! level). inputs = [f])"
proof (cases "1 \<le> v_compaction_score (current vs)")
  case True
  let ?l = "nat (v_compaction_level (current vs))" and ?v = "current vs"
  have ne: "v_ssts ?v ! ?l \<noteq> []" "?l + 1 < n" using assms(1) True by (auto simp: pickable_def)
  have "level = ?l" "inputs = (let i = first_after_pointer (vs_compact_pointer vs ! ?l) (v_ssts ?v ! ?l)
      in if i = [] then [v_ssts ?v ! ?l ! 0] else i)"
    using assms(2) True by (auto simp: pick_inputs_def Let_def)
  then show ?thesis
    using ne first_after_pointer_choice [of "vs_compact_pointer vs ! ?l" "v_ssts ?v ! ?l"]
    by (auto simp: Let_def)
next
  case False
  then show ?thesis using assms by (auto simp: pick_inputs_def pickable_def Let_def split: option.splits)
qed

lemma single_convex:
  assumes "level_sorted ls" "f \<in> set ls"
  shows "convex ls [f]"
  unfolding convex_def
proof (intro ballI impI)
  fix g h k
  assume a: "g \<in> set [f]" "h \<in> set [f]" "k \<in> set ls" "before g k \<and> before k h"
  have "icmp (largest_key f) (smallest_key f) < 0"
    using a level_file_ok [OF assms(1) a(3)] internal.cmp_less_le_trans internal.cmp_less_trans
    unfolding before_def by (metis empty_iff list.set(1) set_ConsD)
  then show "k \<in> set [f]" using level_file_ok [OF assms] internal.cmp_le_iff by blast
qed

definition compaction_ok :: "VersionSet \<Rightarrow> nat \<Rightarrow> Compaction \<Rightarrow> bool" where
  "compaction_ok vs n c \<longleftrightarrow> c_level c + 1 < n \<and> c_inputs0 c \<noteq> [] \<and> c_input_version c = vs_current vs
     \<and> inputs_ok (current vs) (c_level c) (c_inputs0 c) (c_inputs1 c)"

lemma Compaction_new_simps [simp]:
  "c_level (Compaction_new n l) = l" "c_inputs0 (Compaction_new n l) = []"
  by (simp_all add: Compaction_new_def)

lemma SetupOtherInputs_compaction:
  assumes "levels_ok (num_levels cfg) (current vs)" "level + 1 < num_levels cfg" "xs \<noteq> []"
    and "choice_ok level (v_ssts (current vs) ! level) xs" "current vs' = current vs"
    and "c_level c = level" "c_inputs0 c = xs" "c_input_version c = vs_current vs"
  shows "\<exists>c' vs''. SetupOtherInputs cfg c vs' = Some (c', vs'') \<and> compaction_ok vs (num_levels cfg) c'"
  using SetupOtherInputs_ok [of cfg vs' c] assms by (auto simp: compaction_ok_def)

lemma PickCompaction_result:
  assumes v: "levels_ok (num_levels cfg) (current vs)" and p: "pickable (num_levels cfg) (current vs)"
  shows "\<exists>r vs'. PickCompaction cfg vs = Some (r, vs') \<and> (r = None \<longleftrightarrow> \<not> IsNeedCompaction vs)
    \<and> (\<forall>c. r = Some c \<longrightarrow> compaction_ok vs (num_levels cfg) c)"
proof (cases "pick_inputs vs")
  case None
  then show ?thesis
    by (auto simp: PickCompaction_def IsNeedCompaction_def pick_inputs_def Let_def split: if_splits option.splits)
next
  case (Some li)
  obtain level inputs where li: "li = (level, inputs)" by fastforce
  note some = Some [unfolded li]
  obtain f where f: "level + 1 < num_levels cfg" "f \<in> set (v_ssts (current vs) ! level)" "inputs = [f]"
    using pick_inputs_ok [OF p some] by blast
  have need: "IsNeedCompaction vs"
    using some by (auto simp: IsNeedCompaction_def pick_inputs_def Let_def split: if_splits option.splits)
  let ?c0 = "(Compaction_new (num_levels cfg) level)\<lparr>c_inputs0 := inputs\<rparr>"
  obtain c1 vs1 where h: "hold_current ?c0 vs = (c1, vs1)" by fastforce
  have c1: "c1 = ?c0\<lparr>c_input_version := vs_current vs\<rparr>" and vs1: "current vs1 = current vs"
    using h current_hold [of ?c0 vs] by (simp_all add: hold_current_def)
  define xs where "xs = (if level = 0 then GetOverlapSSTs (current vs) 0
      (Some (fst (GetRange inputs))) (Some (snd (GetRange inputs))) else inputs)"
  have c: "(if level = 0 then (let r = GetRange (c_inputs0 c1)
      in c1\<lparr>c_inputs0 := GetOverlapSSTs (current vs1) 0 (Some (fst r)) (Some (snd r))\<rparr>) else c1) = c1\<lparr>c_inputs0 := xs\<rparr>"
    by (auto simp: c1 vs1 xs_def Let_def)
  have "choice_ok level (v_ssts (current vs) ! level) xs \<and> xs \<noteq> []"
  proof (cases "level = 0")
    case True
    have "file_ok f" using levels_ok_files [OF v _ f(2)] f(1) by simp
    then have "\<not> outside (Some (sst_small f)) (Some (sst_large f)) f"
      using file_user_le by (simp add: outside_def bytewise.cmp_le_iff bytewise.cmp_swap)
    then have "f \<in> set xs"
      using GetOverlapSSTs_result [OF refl, where v = "current vs" and level = 0
          and bk = "Some (smallest_key f)" and ek = "Some (largest_key f)"] f True
      by (simp add: xs_def sst_small_def sst_large_def)
    then show ?thesis using overlap_choice_ok [OF v] f(1) True by (auto simp: xs_def)
  next
    case False
    then have "level_sorted (v_ssts (current vs) ! level)" using v f(1) by (simp add: levels_ok_def)
    then show ?thesis using single_convex f False by (simp add: xs_def choice_ok_def)
  qed
  then obtain c' vs'' where "SetupOtherInputs cfg (c1\<lparr>c_inputs0 := xs\<rparr>) vs1 = Some (c', vs'')"
    "compaction_ok vs (num_levels cfg) c'"
    using SetupOtherInputs_compaction [OF v f(1) _ _ vs1, of xs "c1\<lparr>c_inputs0 := xs\<rparr>"] by (auto simp: c1)
  then show ?thesis
    using need by (simp add: PickCompaction_def some h c del: Let_def)
qed

lemma cut_at_take: "\<exists>k. cut_at limit t fs = take k fs \<and> (fs \<noteq> [] \<longrightarrow> 0 < k)"
proof (induction fs arbitrary: t)
  case (Cons f fs)
  obtain k where "cut_at limit (t + sst_size f) fs = take k fs" using Cons.IH by blast
  then show ?case
    by (intro exI [of _ "if limit \<le> t + sst_size f then 1 else Suc k"]) (simp add: Let_def)
qed simp

lemma before_asym: "file_ok f \<Longrightarrow> file_ok g \<Longrightarrow> before f g \<Longrightarrow> \<not> before g f"
  using internal.cmp_less_le_trans internal.cmp_less_trans internal.cmp_le_iff
  unfolding before_def file_ok_def by blast

lemma convex_take:
  assumes "level_sorted ls" "convex ls (filter P ls)"
  shows "convex ls (take k (filter P ls))"
  unfolding convex_def
proof (intro ballI impI)
  fix g h f
  let ?xs = "filter P ls"
  assume a: "g \<in> set (take k ?xs)" "h \<in> set (take k ?xs)" "f \<in> set ls" "before g f \<and> before f h"
  have ok: "file_ok x" if "x \<in> set ls" for x using assms(1) that by (simp add: level_sorted_def)
  have "f \<in> set ?xs" using assms(2) a in_set_takeD unfolding convex_def by fast
  then obtain i where i: "i < length ?xs" "f = ?xs ! i" unfolding in_set_conv_nth by blast
  obtain j where j: "j < length ?xs" "j < k" "h = ?xs ! j" using a(2) by (auto simp: in_set_conv_nth [of _ "take k ?xs"])
  have ord: "sorted_wrt before ?xs"
    using assms(1) unfolding level_sorted_def before_def by (intro sorted_wrt_filter) simp
  have "h \<in> set ls" using j by (metis filter_is_subset nth_mem subsetD)
  then have "\<not> before h f" using before_asym [of f h] a(3,4) ok by blast
  moreover have "f \<noteq> h" using a(3,4) ok before_asym by blast
  ultimately have "i < j" using ord i j by (metis linorder_neqE_nat sorted_wrt_nth_less)
  then show "f \<in> set (take k ?xs)"
    using i j unfolding in_set_conv_nth [of _ "take k ?xs"] by (intro exI [of _ i]) simp
qed

lemma cut_choice_ok:
  assumes "levels_ok n v" "0 < l" "l < n"
  shows "choice_ok l (v_ssts v ! l) (cut_at limit t (GetOverlapSSTs v l b e))"
proof -
  let ?ov = "GetOverlapSSTs v l b e" and ?ls = "v_ssts v ! l"
  note ch = overlap_choice_ok [OF assms(1,3), of b e]
  have filter: "?ov = filter (\<lambda>f. \<not> outside (map_option ExtractUserKey b) (map_option ExtractUserKey e) f) ?ls"
    using GetOverlapSSTs_result [OF refl, where v = v and level = l and bk = b and ek = e] assms(2) by simp
  have ls: "level_sorted ?ls" "convex ?ls ?ov" "set ?ov \<subseteq> set ?ls" using ch assms(2) by (simp_all add: choice_ok_def)
  obtain k where k: "cut_at limit t ?ov = take k ?ov" using cut_at_take by blast
  have "convex ?ls (take k ?ov)" using ls(1,2) unfolding filter by (rule convex_take)
  moreover have "set (take k ?ov) \<subseteq> set ?ls" using ls(3) set_take_subset by fast
  ultimately show ?thesis using ls(1) assms(2) unfolding k choice_ok_def by simp
qed

lemma CompactRange_result:
  assumes v: "levels_ok (num_levels cfg) (current vs)" and l: "level + 1 < num_levels cfg"
  shows "\<exists>r vs'. CompactRange cfg level b e vs = Some (r, vs')
    \<and> (r = None \<longleftrightarrow> GetOverlapSSTs (current vs) level b e = [])
    \<and> (\<forall>c. r = Some c \<longrightarrow> compaction_ok vs (num_levels cfg) c)"
proof (cases "GetOverlapSSTs (current vs) level b e = []")
  case True
  then show ?thesis by (simp add: CompactRange_def)
next
  case False
  let ?ov = "GetOverlapSSTs (current vs) level b e"
  define xs where "xs = (if 0 < level
      then cut_at (of_nat (MaxSSTSizeForLevel (max_file_size cfg) level)) 0 ?ov else ?ov)"
  have "xs \<noteq> []"
    using False cut_at_take [of "of_nat (MaxSSTSizeForLevel (max_file_size cfg) level)" 0 ?ov] by (auto simp: xs_def)
  moreover have "choice_ok level (v_ssts (current vs) ! level) xs"
    using cut_choice_ok [OF v] overlap_choice_ok [OF v] l by (simp add: xs_def)
  moreover obtain c1 vs1 where h: "hold_current (Compaction_new (num_levels cfg) level) vs = (c1, vs1)" by fastforce
  moreover have "c1 = (Compaction_new (num_levels cfg) level)\<lparr>c_input_version := vs_current vs\<rparr>" "current vs1 = current vs"
    using h current_hold [of "Compaction_new (num_levels cfg) level" vs] by (simp_all add: hold_current_def)
  ultimately obtain c' vs'' where "SetupOtherInputs cfg (c1\<lparr>c_inputs0 := xs\<rparr>) vs1 = Some (c', vs'')"
    "compaction_ok vs (num_levels cfg) c'"
    using SetupOtherInputs_compaction [OF v l, of xs vs1 "c1\<lparr>c_inputs0 := xs\<rparr>"] by auto
  then show ?thesis
    using False unfolding CompactRange_def Let_def xs_def [symmetric] h prod.case by simp
qed

section \<open>The properties\<close>

text \<open>A tree of three levels, and the configuration it is compacted with.\<close>

definition demo_config :: DBConfig where
  "demo_config = \<lparr>num_levels = 3, l0_compaction_trigger = 4, l0_slowdown_writes_trigger = 8,
     l0_stop_writes_trigger = 12, max_mem_compact_level = 2, compression = kNoCompression,
     create_if_missing = True, error_if_exists = False, paranoid_checks = False,
     write_buffer_size = 64, block_size = 32, block_restart_interval = 16,
     max_file_size = 100, reuse_logs = False\<rparr>"

definition demo_sst :: "u64 \<Rightarrow> bytes \<Rightarrow> u64 \<Rightarrow> bytes \<Rightarrow> u64 \<Rightarrow> SSTMetaData" where
  "demo_sst n a s b t = SSTMetaData_new n 50 (InternalKey a s kTypeValue) (InternalKey b t kTypeValue)"

definition demo_tree :: Version where
  "demo_tree = (Version_new 3)\<lparr>v_ssts := [[], [demo_sst 4 [1] 9 [3] 8, demo_sst 5 [3] 7 [5] 6],
      [demo_sst 2 [2] 3 [4] 2]], v_compaction_level := 1, v_compaction_score := 2\<rparr>"

definition demo_set :: VersionSet where
  "demo_set = AppendVersion demo_tree (VersionSet_new [] 3)"

lemma demo_set_simps:
  "current demo_set = demo_tree" "levels_ok 3 demo_tree" "pickable 3 demo_tree" "num_levels demo_config = 3"
  "IsNeedCompaction demo_set"
proof -
  show c: "current demo_set = demo_tree"
    by (simp add: demo_set_def current_def version_of_def VersionSet_new_def AppendVersion_def Version_Unref_def)
  show "levels_ok 3 demo_tree"
    by (auto simp: levels_ok_def demo_tree_def demo_sst_def level_sorted_def file_ok_def less_Suc_eq
        numeral_3_eq_3 SSTMetaData_new_def InternalKeyComparator_Compare_eq Let_def PackSequenceAndType_def)
  show "pickable 3 demo_tree" by (simp add: pickable_def demo_tree_def Version_new_def)
  show "num_levels demo_config = 3" by (simp add: demo_config_def)
  show "IsNeedCompaction demo_set" by (simp add: IsNeedCompaction_def c) (simp add: demo_tree_def)
qed

text \<open>
  C20: A compaction never turns back a key.  \<^verbatim>\<open>PickCompaction\<close> and
  \<^verbatim>\<open>CompactRange\<close> end, the first one picks nothing exactly when nothing needs
  to be compacted, and what they pick is closed: a file left on either of the
  two levels that may hold a user key of an input of its level holds only newer
  entries of it (none is left on level 0), and no file left on the upper level
  shares a user key with an input of the lower one.  The version is referenced.
\<close>

theorem compaction_inputs_closed:
  assumes "levels_ok (num_levels cfg) (current vs)" "pickable (num_levels cfg) (current vs)"
    and "level + 1 < num_levels cfg"
  shows "(\<exists>r vs'. PickCompaction cfg vs = Some (r, vs') \<and> (r = None \<longleftrightarrow> \<not> IsNeedCompaction vs)
      \<and> (\<forall>c. r = Some c \<longrightarrow> compaction_ok vs (num_levels cfg) c))
    \<and> (\<exists>r vs'. CompactRange cfg level b e vs = Some (r, vs')
      \<and> (r = None \<longleftrightarrow> GetOverlapSSTs (current vs) level b e = [])
      \<and> (\<forall>c. r = Some c \<longrightarrow> compaction_ok vs (num_levels cfg) c))"
  using PickCompaction_result [OF assms(1,2)] CompactRange_result [OF assms(1,3)] by blast

lemma compaction_inputs_closed_witness:
  "\<exists>c vs'. PickCompaction demo_config demo_set = Some (Some c, vs') \<and> compaction_ok demo_set 3 c"
proof -
  have "levels_ok (num_levels demo_config) (current demo_set)" "pickable (num_levels demo_config) (current demo_set)"
    "0 + 1 < num_levels demo_config"
    by (simp_all add: demo_set_simps)
  from compaction_inputs_closed [OF this, of None None] demo_set_simps(4,5) show ?thesis by auto
qed

end
