(* ===== verification/Compaction_Run.thy ===== *)
theory Compaction_Run
  imports Compaction
begin

text \<open>
  A running compaction asks for every key whether a level below its output may
  hold it (\<^verbatim>\<open>IsBaseLevelForKey\<close>) and whether the output table should end before it
  (\<^verbatim>\<open>ShouldStopBefore\<close>).  Both keep positions in sorted lists of files from call to
  call; the theorems compare them with searches from the start.
\<close>

section \<open>Keys of a running compaction\<close>

text \<open>One call after the other, with the state kept in the compaction.\<close>

fun IsBaseLevel_run :: "DBConfig \<Rightarrow> Version \<Rightarrow> bytes list \<Rightarrow> Compaction \<Rightarrow> bool list" where
  "IsBaseLevel_run cfg v [] c = []"
| "IsBaseLevel_run cfg v (u # us) c =
     (let (r, c) = IsBaseLevelForKey cfg v u c in r # IsBaseLevel_run cfg v us c)"

definition passed :: "bytes \<Rightarrow> SSTMetaData list \<Rightarrow> nat \<Rightarrow> bool" where
  "passed u ssts p \<longleftrightarrow> p \<le> length ssts \<and> (\<forall>i<p. ucmp (sst_large (ssts ! i)) u < 0)"

lemma passed_mono: "passed u ssts p \<Longrightarrow> ucmp u u' \<le> 0 \<Longrightarrow> passed u' ssts p"
  using bytewise.cmp_less_le_trans unfolding passed_def by blast

lemma level_has_key_result:
  assumes "level_sorted ssts" "passed u ssts p"
  shows "passed u ssts (snd (level_has_key u ssts p))
    \<and> (fst (level_has_key u ssts p) \<longleftrightarrow> (\<exists>f\<in>set ssts. may_hold f u))"
  using assms
proof (induction u ssts p rule: level_has_key.induct)
  case (1 u ssts p)
  show ?case
  proof (cases "p < length ssts")
    case False
    then have "\<not> may_hold f u" if "f \<in> set ssts" for f
      using "1.prems"(2) that unfolding passed_def may_hold_def
      by (metis bytewise.cmp_le_iff in_set_conv_nth linorder_not_less order_less_le_trans)
    then show ?thesis using False "1.prems"(2) by (subst (1 2) level_has_key.simps) auto
  next
    case True
    show ?thesis
    proof (cases "ucmp u (sst_large (ssts ! p)) \<le> 0")
      case False
      then have "passed u ssts (p + 1)"
        using "1.prems"(2) True unfolding passed_def by (auto simp: less_Suc_eq bytewise.cmp_le_iff)
      from "1.IH" [OF True False "1.prems"(1) this] show ?thesis
        using True False by (subst (1 2) level_has_key.simps) simp
    next
      case le: True
      have eq: "level_has_key u ssts p = (0 \<le> ucmp u (sst_small (ssts ! p)), p)"
        using True le by (subst level_has_key.simps) simp
      have "may_hold (ssts ! p) u" if "may_hold f u" "f \<in> set ssts" for f
      proof -
        obtain i where i: "i < length ssts" "f = ssts ! i" using \<open>f \<in> set ssts\<close> by (auto simp: in_set_conv_nth)
        have "\<not> i < p" using "1.prems"(2) that(1) i unfolding passed_def may_hold_def by (auto simp: bytewise.cmp_le_iff)
        then have "ucmp (sst_small (ssts ! p)) (sst_small f) \<le> 0"
          using level_sorted_small_mono [OF "1.prems"(1), of p i] i by simp
        then show ?thesis using that(1) le bytewise.cmp_le_trans unfolding may_hold_def by blast
      qed
      moreover have "0 \<le> ucmp u (sst_small (ssts ! p)) \<longleftrightarrow> ucmp (sst_small (ssts ! p)) u \<le> 0"
        using bytewise.cmp_le_iff [of "sst_small (ssts ! p)" u] by auto
      ultimately show ?thesis using "1.prems"(2) True le unfolding eq by (auto simp: may_hold_def)
    qed
  qed
qed

definition ptrs_ok :: "bytes \<Rightarrow> nat \<Rightarrow> nat \<Rightarrow> Version \<Rightarrow> nat list \<Rightarrow> bool" where
  "ptrs_ok u l0 n v ptrs \<longleftrightarrow> length ptrs = n \<and> (\<forall>l<n. l0 \<le> l \<longrightarrow> passed u (v_ssts v ! l) (ptrs ! l))"

lemma IsBaseLevel_loop_result:
  assumes v: "levels_ok n v" "0 < l0" and levs: "\<forall>l\<in>set levs. l0 \<le> l \<and> l < n" and p: "ptrs_ok u l0 n v ptrs"
    and r: "IsBaseLevel_loop u (v_ssts v) levs ptrs = (r, ptrs')"
  shows "ptrs_ok u l0 n v ptrs' \<and> (r \<longleftrightarrow> (\<forall>l\<in>set levs. \<forall>f\<in>set (v_ssts v ! l). \<not> may_hold f u))"
  using levs p r
proof (induction levs arbitrary: ptrs)
  case (Cons l levs)
  let ?k = "level_has_key u (v_ssts v ! l) (ptrs ! l)"
  have l: "l0 \<le> l" "l < n" using Cons.prems(1) by auto
  then have "level_sorted (v_ssts v ! l)" "passed u (v_ssts v ! l) (ptrs ! l)"
    using v Cons.prems(2) by (simp_all add: levels_ok_def ptrs_ok_def)
  note k = level_has_key_result [OF this]
  have p: "ptrs_ok u l0 n v (ptrs[l := snd ?k])"
    unfolding ptrs_ok_def
  proof (intro conjI allI impI)
    show "length (ptrs[l := snd ?k]) = n" using Cons.prems(2) by (simp add: ptrs_ok_def)
    show "passed u (v_ssts v ! l') (ptrs[l := snd ?k] ! l')" if "l' < n" "l0 \<le> l'" for l'
      using that Cons.prems(2) k unfolding ptrs_ok_def by (cases "l' = l") auto
  qed
  show ?case
  proof (cases "fst ?k")
    case True
    then have "r = False" "ptrs' = ptrs[l := snd ?k]" using Cons.prems(3) by (auto simp: Let_def split: prod.splits)
    then show ?thesis using p k True by auto
  next
    case False
    then have "IsBaseLevel_loop u (v_ssts v) levs (ptrs[l := snd ?k]) = (r, ptrs')"
      using Cons.prems(3) by (auto simp: Let_def split: prod.splits)
    with Cons.IH [OF _ p] Cons.prems(1) show ?thesis using k False by auto
  qed
qed simp

lemma ptrs_ok_mono: "ptrs_ok u l0 n v ptrs \<Longrightarrow> ucmp u u' \<le> 0 \<Longrightarrow> ptrs_ok u' l0 n v ptrs"
  using passed_mono unfolding ptrs_ok_def by blast

lemma IsBaseLevel_run_result:
  assumes v: "levels_ok (num_levels cfg) v" and us: "sorted_wrt (\<lambda>a b. ucmp a b \<le> 0) us"
    and p: "us \<noteq> [] \<longrightarrow> ptrs_ok (hd us) (c_level c + 2) (num_levels cfg) v (c_level_ptrs c)"
  shows "IsBaseLevel_run cfg v us c =
    map (\<lambda>u. \<forall>l. c_level c + 2 \<le> l \<and> l < num_levels cfg \<longrightarrow> (\<forall>f\<in>set (v_ssts v ! l). \<not> may_hold f u)) us"
  using us p
proof (induction us arbitrary: c)
  case (Cons u us)
  obtain r ptrs' where r: "IsBaseLevel_loop u (v_ssts v) [c_level c + 2..<num_levels cfg] (c_level_ptrs c) = (r, ptrs')"
    by fastforce
  have res: "ptrs_ok u (c_level c + 2) (num_levels cfg) v ptrs'"
    "r \<longleftrightarrow> (\<forall>l\<in>set [c_level c + 2..<num_levels cfg]. \<forall>f\<in>set (v_ssts v ! l). \<not> may_hold f u)"
    using IsBaseLevel_loop_result [OF v _ _ _ r, of "c_level c + 2"] Cons.prems(2) by auto
  have "us \<noteq> [] \<longrightarrow> ptrs_ok (hd us) (c_level c + 2) (num_levels cfg) v ptrs'"
    using Cons.prems(1) ptrs_ok_mono [OF res(1)] by (cases us) auto
  then have "IsBaseLevel_run cfg v us (c\<lparr>c_level_ptrs := ptrs'\<rparr>) =
      map (\<lambda>u. \<forall>l. c_level c + 2 \<le> l \<and> l < num_levels cfg \<longrightarrow> (\<forall>f\<in>set (v_ssts v ! l). \<not> may_hold f u)) us"
    using Cons.IH [of "c\<lparr>c_level_ptrs := ptrs'\<rparr>"] Cons.prems(1) by simp
  moreover have "IsBaseLevelForKey cfg v u c = (r, c\<lparr>c_level_ptrs := ptrs'\<rparr>)"
    unfolding IsBaseLevelForKey_def r Let_def prod.case ..
  moreover have "r \<longleftrightarrow> (\<forall>l. c_level c + 2 \<le> l \<and> l < num_levels cfg \<longrightarrow> (\<forall>f\<in>set (v_ssts v ! l). \<not> may_hold f u))"
    using res(2) by auto
  ultimately show ?case by simp
qed simp

fun ShouldStop_run :: "DBConfig \<Rightarrow> bytes list \<Rightarrow> Compaction \<Rightarrow> bool list \<times> Compaction" where
  "ShouldStop_run cfg [] c = ([], c)"
| "ShouldStop_run cfg (k # ks) c =
     (let (r, c) = ShouldStopBefore cfg k c; (rs, c) = ShouldStop_run cfg ks c in (r # rs, c))"

lemma ShouldStop_run_append:
  "ShouldStop_run cfg (xs @ ys) c =
     (let (rs, c) = ShouldStop_run cfg xs c; (rs', c) = ShouldStop_run cfg ys c in (rs @ rs', c))"
  by (induction xs arbitrary: c) (auto simp: Let_def split: prod.split)

text \<open>The files whose keys are all before \<open>key\<close>.\<close>

definition files_before :: "bytes \<Rightarrow> SSTMetaData list \<Rightarrow> nat" where
  "files_before key gs = FindSST gs key"

lemma TotalSSTSize_snoc: "TotalSSTSize (xs @ [f]) = TotalSSTSize xs + uint (sst_size f)"
  by (simp add: TotalSSTSize_def)

lemma pass_grandparents_result:
  assumes "level_sorted gs" "i \<le> files_before key gs" "j \<le> i"
    and "seen \<longrightarrow> ov = TotalSSTSize (drop j (take i gs))" "\<not> seen \<longrightarrow> ov = 0"
  shows "pass_grandparents key seen gs i ov =
    (files_before key gs, if seen then TotalSSTSize (drop j (take (files_before key gs) gs)) else 0)"
  using assms
proof (induction key seen gs i ov rule: pass_grandparents.induct)
  case (1 key seen gs i ov)
  note s = FindSST_split [OF "1.prems"(1), where key = key, folded files_before_def]
  show ?case
  proof (cases "i < files_before key gs")
    case True
    then have c: "i < length gs \<and> 0 < icmp key (largest_key (gs ! i))" using s(1,2) by (simp add: internal.cmp_swap)
    have "take (i + 1) gs = take i gs @ [gs ! i]" using c by (simp add: take_Suc_conv_app_nth)
    then have "drop j (take (i + 1) gs) = drop j (take i gs) @ [gs ! i]" using "1.prems"(3) c by simp
    then have "pass_grandparents key seen gs (i + 1) (if seen then ov + uint (sst_size (gs ! i)) else ov)
      = (files_before key gs, if seen then TotalSSTSize (drop j (take (files_before key gs) gs)) else 0)"
      using "1.prems" True by (intro "1.IH" [OF c]) (auto simp: TotalSSTSize_snoc)
    then show ?thesis using c by (subst pass_grandparents.simps) simp
  next
    case False
    then have i: "i = files_before key gs" using "1.prems"(2) by simp
    then have "\<not> (i < length gs \<and> 0 < icmp key (largest_key (gs ! i)))"
      using s(3) [of i] by (auto simp: internal.cmp_swap)
    then have "pass_grandparents key seen gs i ov = (i, ov)"
      by (subst pass_grandparents.simps) (rule if_not_P)
    then show ?thesis using "1.prems"(4,5) i by simp
  qed
qed

lemma files_before_mono:
  assumes "level_sorted gs" "icmp k k' \<le> 0"
  shows "files_before k gs \<le> files_before k' gs"
proof (rule ccontr)
  assume "\<not> files_before k gs \<le> files_before k' gs"
  then have lt: "FindSST gs k' < FindSST gs k" by (simp add: files_before_def)
  let ?f = "gs ! FindSST gs k'"
  have "icmp (largest_key ?f) k < 0" using FindSST_split(2) [OF assms(1) lt] .
  then have "icmp (largest_key ?f) k' < 0" using assms(2) by (rule internal.cmp_less_le_trans)
  moreover have "FindSST gs k' < length gs" using lt FindSST_split(1) [OF assms(1), of k] by simp
  ultimately show False using FindSST_split(3) [OF assms(1), of k' "FindSST gs k'"] by simp
qed

lemma files_between:
  assumes "level_sorted gs" "icmp k k' \<le> 0"
  shows "filter (\<lambda>f. \<not> icmp (largest_key f) k < 0 \<and> icmp (largest_key f) k' < 0) gs =
    drop (files_before k gs) (take (files_before k' gs) gs)"
proof -
  let ?a = "files_before k gs" and ?b = "files_before k' gs"
  let ?P = "\<lambda>f. \<not> icmp (largest_key f) k < 0 \<and> icmp (largest_key f) k' < 0"
  note a = FindSST_split [OF assms(1), where key = k, folded files_before_def]
  note b = FindSST_split [OF assms(1), where key = k', folded files_before_def]
  have le: "?a \<le> ?b" using assms by (rule files_before_mono)
  have 1: "filter ?P (take ?a gs) = []" using a(1,2) by (auto simp: filter_empty_conv in_set_conv_nth)
  have 2: "filter ?P (drop ?b gs) = []" using b(1,3) by (auto simp: filter_empty_conv in_set_conv_nth)
  have 3: "filter ?P (drop ?a (take ?b gs)) = drop ?a (take ?b gs)"
    using a(3) b(1,2) by (intro filter_True) (auto simp: in_set_conv_nth)
  have "gs = take ?a (take ?b gs) @ drop ?a (take ?b gs) @ drop ?b gs"
    by (metis append.assoc append_take_drop_id)
  then have gs: "gs = take ?a gs @ drop ?a (take ?b gs) @ drop ?b gs" using le by (simp add: min_absorb1)
  have "filter ?P gs = filter ?P (take ?a gs @ drop ?a (take ?b gs) @ drop ?b gs)" using gs by simp
  then show ?thesis by (simp only: filter_append 1 2 3 append_Nil append_Nil2)
qed

definition stop_inv :: "nat \<Rightarrow> bytes \<Rightarrow> SSTMetaData list \<Rightarrow> Compaction \<Rightarrow> bool" where
  "stop_inv j k gs c \<longleftrightarrow> c_seen_key c \<and> c_grandparents c = gs \<and> c_grandparent_index c = files_before k gs
     \<and> j \<le> files_before k gs \<and> c_overlapped_bytes c = TotalSSTSize (drop j (take (files_before k gs) gs))"

lemma TotalSSTSize_Nil [simp]: "TotalSSTSize [] = 0"
  by (simp add: TotalSSTSize_def)

lemma ShouldStopBefore_step:
  assumes gs: "level_sorted gs" "stop_inv j k gs c" "icmp k k' \<le> 0" and r: "ShouldStopBefore cfg k' c = (r, c')"
  shows "if r then stop_inv (files_before k' gs) k' gs c'
    else stop_inv j k' gs c' \<and> c_overlapped_bytes c' \<le> MaxGrandParentOverlapBytes (max_file_size cfg)"
proof -
  have le: "files_before k gs \<le> files_before k' gs" using gs(1,3) by (rule files_before_mono)
  have "pass_grandparents k' True gs (files_before k gs) (c_overlapped_bytes c) =
      (files_before k' gs, if True then TotalSSTSize (drop j (take (files_before k' gs) gs)) else 0)"
    using gs(2) le by (intro pass_grandparents_result [OF gs(1)]) (simp_all add: stop_inv_def)
  then have "ShouldStopBefore cfg k' c =
      (let ov = TotalSSTSize (drop j (take (files_before k' gs) gs));
           c = c\<lparr>c_grandparent_index := files_before k' gs, c_seen_key := True, c_overlapped_bytes := ov\<rparr>
       in if MaxGrandParentOverlapBytes (max_file_size cfg) < ov then (True, c\<lparr>c_overlapped_bytes := 0\<rparr>) else (False, c))"
    using gs(2) by (simp add: ShouldStopBefore_def stop_inv_def Let_def)
  then show ?thesis using r gs(2) le by (auto simp: Let_def stop_inv_def split: if_splits)
qed

definition fresh :: "Compaction \<Rightarrow> bool" where
  "fresh c \<longleftrightarrow> c_grandparent_index c = 0 \<and> \<not> c_seen_key c \<and> c_overlapped_bytes c = 0"

lemma ShouldStopBefore_first:
  assumes "level_sorted (c_grandparents c)" "fresh c" "ShouldStopBefore cfg k c = (r, c')"
  shows "\<not> r \<and> stop_inv (files_before k (c_grandparents c)) k (c_grandparents c) c'"
proof -
  let ?gs = "c_grandparents c"
  have "pass_grandparents k False ?gs 0 0 =
      (files_before k ?gs, if False then TotalSSTSize (drop 0 (take (files_before k ?gs) ?gs)) else 0)"
    by (rule pass_grandparents_result [OF assms(1)]) simp_all
  then have "ShouldStopBefore cfg k c =
      (False, c\<lparr>c_grandparent_index := files_before k ?gs, c_seen_key := True, c_overlapped_bytes := 0\<rparr>)"
    using assms(2) by (simp add: ShouldStopBefore_def fresh_def MaxGrandParentOverlapBytes_def)
  then show ?thesis using assms(3) by (auto simp: stop_inv_def)
qed

lemma ShouldStop_run_inv:
  assumes "level_sorted gs" "stop_inv j k gs c" "sorted_wrt (\<lambda>a b. icmp a b \<le> 0) (k # ks)"
    and "ShouldStop_run cfg ks c = (rs, c')"
  shows "\<exists>j. stop_inv j (last (k # ks)) gs c'"
  using assms(2-4)
proof (induction ks arbitrary: k c j rs)
  case (Cons k' ks)
  obtain r c1 where r: "ShouldStopBefore cfg k' c = (r, c1)" by fastforce
  obtain rs' where rs: "ShouldStop_run cfg ks c1 = (rs', c')" using Cons.prems(3) r by (auto simp: Let_def split: prod.splits)
  have "icmp k k' \<le> 0" using Cons.prems(2) by simp
  from ShouldStopBefore_step [OF assms(1) Cons.prems(1) this r] obtain j' where "stop_inv j' k' gs c1"
    by (auto split: if_splits)
  with Cons.IH [OF this _ rs] Cons.prems(2) show ?case by simp
qed auto

lemma ShouldStop_run_bound:
  assumes "level_sorted gs" "stop_inv j k gs c" "sorted_wrt (\<lambda>a b. icmp a b \<le> 0) (k # ks)"
    and "ShouldStop_run cfg ks c = (rs, c')" "True \<notin> set rs"
    and "c_overlapped_bytes c \<le> MaxGrandParentOverlapBytes (max_file_size cfg)"
  shows "TotalSSTSize (drop j (take (files_before (last (k # ks)) gs) gs)) \<le> MaxGrandParentOverlapBytes (max_file_size cfg)"
  using assms(2-6)
proof (induction ks arbitrary: k c rs)
  case Nil
  then show ?case by (simp add: stop_inv_def)
next
  case (Cons k' ks)
  obtain r c1 where r: "ShouldStopBefore cfg k' c = (r, c1)" by fastforce
  obtain rs' where rs: "ShouldStop_run cfg ks c1 = (rs', c')" "rs = r # rs'"
    using Cons.prems(3) r by (auto simp: Let_def split: prod.splits)
  have "icmp k k' \<le> 0" "\<not> r" using Cons.prems(2,4) rs(2) by auto
  from ShouldStopBefore_step [OF assms(1) Cons.prems(1) this(1) r] this(2)
  have "stop_inv j k' gs c1" "c_overlapped_bytes c1 \<le> MaxGrandParentOverlapBytes (max_file_size cfg)" by simp_all
  with Cons.IH [OF this(1) _ rs(1)] Cons.prems(2,4) rs(2) show ?case by simp
qed

section \<open>The properties\<close>

text \<open>
  C21: The search for a key below a compaction, which keeps its position in
  every level from key to key, gives for ascending keys the answer of a search
  of all files: true exactly when no file two or more levels below the inputs
  may hold the key.
\<close>

theorem IsBaseLevelForKey_equiv:
  assumes "levels_ok (num_levels cfg) v" "sorted_wrt (\<lambda>a b. ucmp a b \<le> 0) us"
    and "c_level_ptrs c = c_level_ptrs (Compaction_new (num_levels cfg) (c_level c))"
  shows "IsBaseLevel_run cfg v us c =
    map (\<lambda>u. \<forall>l. c_level c + 2 \<le> l \<and> l < num_levels cfg \<longrightarrow> (\<forall>f\<in>set (v_ssts v ! l). \<not> may_hold f u)) us"
proof (rule IsBaseLevel_run_result [OF assms(1,2)])
  show "us \<noteq> [] \<longrightarrow> ptrs_ok (hd us) (c_level c + 2) (num_levels cfg) v (c_level_ptrs c)"
    using assms(3) by (simp add: ptrs_ok_def passed_def Compaction_new_def)
qed

lemma IsBaseLevelForKey_equiv_witness:
  "IsBaseLevel_run demo_config demo_tree [[1], [2], [4], [4, 1]] (Compaction_new 3 0) = [True, False, False, True]"
proof -
  have l: "c_level (Compaction_new 3 0) + 2 \<le> l \<and> l < num_levels demo_config \<longleftrightarrow> l = 2" for l
    by (auto simp: demo_set_simps)
  have "IsBaseLevel_run demo_config demo_tree [[1], [2], [4], [4, 1]] (Compaction_new 3 0) =
    map (\<lambda>u. \<forall>l. c_level (Compaction_new 3 0) + 2 \<le> l \<and> l < num_levels demo_config \<longrightarrow>
        (\<forall>f\<in>set (v_ssts demo_tree ! l). \<not> may_hold f u)) [[1], [2], [4], [4, 1]]"
    by (rule IsBaseLevelForKey_equiv) (simp_all add: demo_set_simps)
  also have "\<dots> = map (\<lambda>u. \<forall>f\<in>set (v_ssts demo_tree ! 2). \<not> may_hold f u) [[1], [2], [4], [4, 1]]"
    unfolding l by simp
  also have "\<dots> = [True, False, False, True]"
    by (simp add: demo_tree_def demo_sst_def may_hold_def sst_small_def sst_large_def SSTMetaData_new_def)
  finally show ?thesis .
qed


definition demo_grandparents :: "SSTMetaData list" where
  "demo_grandparents = [demo_sst 1 [1] 5 [1] 4, demo_sst 2 [2] 5 [2] 4, demo_sst 3 [3] 5 [3] 4, demo_sst 4 [4] 5 [4] 4]"

definition demo_compaction :: Compaction where
  "demo_compaction =
     \<lparr>c_level = 0, c_max_output_file_size = 100, c_input_version = None, c_edit = VersionEdit_Clear,
      c_inputs0 = [], c_inputs1 = [], c_grandparents = demo_grandparents, c_grandparent_index = 0,
      c_seen_key = False, c_overlapped_bytes = 0, c_level_ptrs = [0, 0, 0]\<rparr>"


end
