(* ===== verification/Iterators.thy ===== *)
theory Iterators
  imports Comparator Status
begin

text \<open>
  Iterators: \<^verbatim>\<open>src/utils/include/iterator.h\<close>, \<^verbatim>\<open>src/utils/iterator.cc\<close> and the
  wrapper of \<^verbatim>\<open>src/table/include/iterator_wrapper.h\<close>.  The virtual functions of
  the abstract class are a record of operations on a state; the contract every
  implementation has to keep is the locale \<open>sorted_iterator\<close>, and the iterators
  built from other iterators (the wrapper here, the merging and the two-level
  iterator in their theories) are shown to keep it.
\<close>

section \<open>The interface\<close>

record 's IterOps =
  i_valid :: "'s \<Rightarrow> bool"
  i_seek_first :: "'s \<Rightarrow> 's"
  i_seek_last :: "'s \<Rightarrow> 's"
  i_seek :: "bytes \<Rightarrow> 's \<Rightarrow> 's"
  i_next :: "'s \<Rightarrow> 's"
  i_prev :: "'s \<Rightarrow> 's"
  i_key :: "'s \<Rightarrow> bytes"
  i_value :: "'s \<Rightarrow> bytes"
  i_status :: "'s \<Rightarrow> Status"

text \<open>
  The clean-up functions registered at an iterator: the first one is kept in
  the iterator, the others in a list that grows at its front.
\<close>

fun RegisterCleanup :: "'f \<Rightarrow> 'f list \<Rightarrow> 'f list" where
  "RegisterCleanup func [] = [func]"
| "RegisterCleanup func (first # others) = first # func # others"

section \<open>The empty iterator\<close>

definition EmptyIterator_ops :: "Status IterOps" where
  "EmptyIterator_ops =
     \<lparr>i_valid = (\<lambda>s. False), i_seek_first = (\<lambda>s. s), i_seek_last = (\<lambda>s. s), i_seek = (\<lambda>target s. s),
      i_next = (\<lambda>s. s), i_prev = (\<lambda>s. s), i_key = (\<lambda>s. []), i_value = (\<lambda>s. []), i_status = (\<lambda>s. s)\<rparr>"

definition NewEmptyIterator :: Status where "NewEmptyIterator = Status_OK"

definition NewErrorIterator :: "Status \<Rightarrow> Status" where "NewErrorIterator status = status"

section \<open>The wrapper\<close>

text \<open>The wrapper caches whether its iterator is valid and the key it is at.\<close>

record 's IteratorWrapper =
  w_iter :: "'s option"
  w_valid :: bool
  w_key :: bytes

definition Wrapper_Update :: "'s IterOps \<Rightarrow> 's IteratorWrapper \<Rightarrow> 's IteratorWrapper" where
  "Wrapper_Update ops w =
     (case w_iter w of
        None \<Rightarrow> w
      | Some s \<Rightarrow>
          let w = w\<lparr>w_valid := i_valid ops s\<rparr>
          in if w_valid w then w\<lparr>w_key := i_key ops s\<rparr> else w)"

definition Wrapper_Set :: "'s IterOps \<Rightarrow> 's option \<Rightarrow> 's IteratorWrapper \<Rightarrow> 's IteratorWrapper" where
  "Wrapper_Set ops iter w =
     (let w = w\<lparr>w_iter := iter\<rparr>
      in if iter = None then w\<lparr>w_valid := False\<rparr> else Wrapper_Update ops w)"

definition Wrapper_new :: "'s IterOps \<Rightarrow> 's option \<Rightarrow> 's IteratorWrapper" where
  "Wrapper_new ops iter = Wrapper_Set ops iter \<lparr>w_iter = None, w_valid = False, w_key = []\<rparr>"

definition Wrapper_Next :: "'s IterOps \<Rightarrow> 's IteratorWrapper \<Rightarrow> 's IteratorWrapper" where
  "Wrapper_Next ops w = Wrapper_Update ops (w\<lparr>w_iter := map_option (i_next ops) (w_iter w)\<rparr>)"

definition Wrapper_Prev :: "'s IterOps \<Rightarrow> 's IteratorWrapper \<Rightarrow> 's IteratorWrapper" where
  "Wrapper_Prev ops w = Wrapper_Update ops (w\<lparr>w_iter := map_option (i_prev ops) (w_iter w)\<rparr>)"

definition Wrapper_Seek :: "'s IterOps \<Rightarrow> bytes \<Rightarrow> 's IteratorWrapper \<Rightarrow> 's IteratorWrapper" where
  "Wrapper_Seek ops k w = Wrapper_Update ops (w\<lparr>w_iter := map_option (i_seek ops k) (w_iter w)\<rparr>)"

definition Wrapper_SeekToFirst :: "'s IterOps \<Rightarrow> 's IteratorWrapper \<Rightarrow> 's IteratorWrapper" where
  "Wrapper_SeekToFirst ops w = Wrapper_Update ops (w\<lparr>w_iter := map_option (i_seek_first ops) (w_iter w)\<rparr>)"

definition Wrapper_SeekToLast :: "'s IterOps \<Rightarrow> 's IteratorWrapper \<Rightarrow> 's IteratorWrapper" where
  "Wrapper_SeekToLast ops w = Wrapper_Update ops (w\<lparr>w_iter := map_option (i_seek_last ops) (w_iter w)\<rparr>)"

definition Wrapper_value :: "'s IterOps \<Rightarrow> 's IteratorWrapper \<Rightarrow> bytes" where
  "Wrapper_value ops w = (case w_iter w of None \<Rightarrow> [] | Some s \<Rightarrow> i_value ops s)"

definition Wrapper_status :: "'s IterOps \<Rightarrow> 's IteratorWrapper \<Rightarrow> Status" where
  "Wrapper_status ops w = (case w_iter w of None \<Rightarrow> Status_OK | Some s \<Rightarrow> i_status ops s)"

definition Wrapper_ops :: "'s IterOps \<Rightarrow> 's IteratorWrapper IterOps" where
  "Wrapper_ops ops =
     \<lparr>i_valid = w_valid, i_seek_first = Wrapper_SeekToFirst ops, i_seek_last = Wrapper_SeekToLast ops,
      i_seek = Wrapper_Seek ops, i_next = Wrapper_Next ops, i_prev = Wrapper_Prev ops, i_key = w_key,
      i_value = Wrapper_value ops, i_status = Wrapper_status ops\<rparr>"

text \<open>An iterator of one of two kinds; the code has a pointer to either.\<close>

definition sum_ops :: "'a IterOps \<Rightarrow> 'b IterOps \<Rightarrow> ('a + 'b) IterOps" where
  "sum_ops f g =
     \<lparr>i_valid = case_sum (i_valid f) (i_valid g),
      i_seek_first = map_sum (i_seek_first f) (i_seek_first g),
      i_seek_last = map_sum (i_seek_last f) (i_seek_last g),
      i_seek = (\<lambda>t. map_sum (i_seek f t) (i_seek g t)),
      i_next = map_sum (i_next f) (i_next g), i_prev = map_sum (i_prev f) (i_prev g),
      i_key = case_sum (i_key f) (i_key g), i_value = case_sum (i_value f) (i_value g),
      i_status = case_sum (i_status f) (i_status g)\<rparr>"

section \<open>The contract\<close>

text \<open>
  The entries are sorted by \<open>cmp\<close>.  A position is an index into them; their
  number is the position of an iterator that is not valid.
\<close>

type_synonym entries = "(bytes \<times> bytes) list"

definition entries_sorted :: "(bytes \<Rightarrow> bytes \<Rightarrow> int) \<Rightarrow> entries \<Rightarrow> bool" where
  "entries_sorted cmp es \<longleftrightarrow> sorted_wrt (\<lambda>a b. cmp (fst a) (fst b) < 0) es"

definition lower_bound :: "(bytes \<Rightarrow> bytes \<Rightarrow> int) \<Rightarrow> bytes \<Rightarrow> entries \<Rightarrow> nat" where
  "lower_bound cmp target es = length (takeWhile (\<lambda>e. cmp (fst e) target < 0) es)"

definition step_back :: "nat \<Rightarrow> nat \<Rightarrow> nat" where
  "step_back n i = (if i = 0 then n else i - 1)"

text \<open>
  The ways a client moves an iterator, and what it sees after each of them.
  \<^verbatim>\<open>Next\<close> and \<^verbatim>\<open>Prev\<close> are only allowed at a valid iterator; a client that has to
  check leaves it as it is.
\<close>

datatype Motion = ToFirst | ToLast | To bytes | Forward | Backward

fun move :: "'s IterOps \<Rightarrow> Motion \<Rightarrow> 's \<Rightarrow> 's" where
  "move ops ToFirst s = i_seek_first ops s"
| "move ops ToLast s = i_seek_last ops s"
| "move ops (To target) s = i_seek ops target s"
| "move ops Forward s = (if i_valid ops s then i_next ops s else s)"
| "move ops Backward s = (if i_valid ops s then i_prev ops s else s)"

definition shown :: "'s IterOps \<Rightarrow> 's \<Rightarrow> (bytes \<times> bytes) option" where
  "shown ops s = (if i_valid ops s then Some (i_key ops s, i_value ops s) else None)"

fun showing :: "'s IterOps \<Rightarrow> Motion list \<Rightarrow> 's \<Rightarrow> (bytes \<times> bytes) option list" where
  "showing ops [] s = []"
| "showing ops (m # ms) s = shown ops (move ops m s) # showing ops ms (move ops m s)"

text \<open>The abstract iterator: a cursor in the list of the entries.\<close>

fun cursor_move :: "(bytes \<Rightarrow> bytes \<Rightarrow> int) \<Rightarrow> entries \<Rightarrow> Motion \<Rightarrow> nat \<Rightarrow> nat" where
  "cursor_move cmp es ToFirst i = 0"
| "cursor_move cmp es ToLast i = step_back (length es) (length es)"
| "cursor_move cmp es (To target) i = lower_bound cmp target es"
| "cursor_move cmp es Forward i = (if i < length es then i + 1 else i)"
| "cursor_move cmp es Backward i = (if i < length es then step_back (length es) i else i)"

definition cursor_shown :: "entries \<Rightarrow> nat \<Rightarrow> (bytes \<times> bytes) option" where
  "cursor_shown es i = (if i < length es then Some (es ! i) else None)"

fun cursor_showing :: "(bytes \<Rightarrow> bytes \<Rightarrow> int) \<Rightarrow> entries \<Rightarrow> Motion list \<Rightarrow> nat \<Rightarrow> (bytes \<times> bytes) option list" where
  "cursor_showing cmp es [] i = []"
| "cursor_showing cmp es (m # ms) i =
     cursor_shown es (cursor_move cmp es m i) # cursor_showing cmp es ms (cursor_move cmp es m i)"

text \<open>
  A cut is the number of entries in a downward closed set: the position of all
  iterators while the merging iterator moves.
\<close>

definition cut_pos :: "(bytes \<Rightarrow> bool) \<Rightarrow> entries \<Rightarrow> nat" where
  "cut_pos P es = length (takeWhile (\<lambda>e. P (fst e)) es)"

definition down_closed :: "(bytes \<Rightarrow> bytes \<Rightarrow> int) \<Rightarrow> (bytes \<Rightarrow> bool) \<Rightarrow> bool" where
  "down_closed cmp P \<longleftrightarrow> (\<forall>a b. cmp a b \<le> 0 \<and> P b \<longrightarrow> P a)"

lemma lower_bound_cut: "lower_bound cmp t xs = cut_pos (\<lambda>a. cmp a t < 0) xs"
  by (simp add: lower_bound_def cut_pos_def)

lemma cut_cong: "(\<And>e. e \<in> set xs \<Longrightarrow> P (fst e) = Q (fst e)) \<Longrightarrow> cut_pos P xs = cut_pos Q xs"
  unfolding cut_pos_def by (rule arg_cong [of _ _ length], rule takeWhile_cong) auto

lemma cut_le: "cut_pos P xs \<le> length xs"
  by (simp add: cut_pos_def length_takeWhile_le)

lemma cut_none [simp]: "cut_pos (\<lambda>a. False) xs = 0"
  by (simp add: cut_pos_def takeWhile_eq_Nil_iff)

lemma cut_all [simp]: "cut_pos (\<lambda>a. True) xs = length xs"
  unfolding cut_pos_def by (subst takeWhile_eq_all_conv [THEN iffD2]) auto

lemma bound_unique:
  assumes "\<And>i. i < n \<Longrightarrow> i < a \<longleftrightarrow> i < b" "a \<le> n" "b \<le> n"
  shows "a = (b::nat)"
proof (rule ccontr)
  assume "a \<noteq> b"
  then show False using assms(1) [of "min a b"] assms(2,3) by (cases "a < b") auto
qed

locale entry_order = key_comparator cmp
  for cmp :: "bytes \<Rightarrow> bytes \<Rightarrow> int"
begin

lemma cmp_asym: "cmp a b < 0 \<Longrightarrow> \<not> cmp b a < 0"
  using cmp_less_trans [of a b a] cmp_refl by force

lemma entries_nth: "entries_sorted cmp xs \<Longrightarrow> i < j \<Longrightarrow> j < length xs \<Longrightarrow> cmp (fst (xs ! i)) (fst (xs ! j)) < 0"
  by (simp add: entries_sorted_def sorted_wrt_iff_nth_less)

lemma cut_nth:
  assumes "entries_sorted cmp xs" "down_closed cmp P" "i < length xs"
  shows "P (fst (xs ! i)) \<longleftrightarrow> i < cut_pos P xs"
proof
  show "P (fst (xs ! i))" if "i < cut_pos P xs"
    using that unfolding cut_pos_def by (metis nth_mem set_takeWhileD takeWhile_nth)
  show "i < cut_pos P xs" if "P (fst (xs ! i))"
  proof (rule ccontr)
    assume "\<not> i < cut_pos P xs"
    then have le: "cut_pos P xs \<le> i" by simp
    then have "cmp (fst (xs ! cut_pos P xs)) (fst (xs ! i)) \<le> 0"
      using entries_nth [OF assms(1), of "cut_pos P xs" i] assms(3) by (cases "cut_pos P xs = i") (auto simp: cmp_refl)
    then have "P (fst (xs ! cut_pos P xs))" using that assms(2) unfolding down_closed_def by blast
    moreover have "\<not> P (fst (xs ! cut_pos P xs))"
      using nth_length_takeWhile [of "\<lambda>e. P (fst e)" xs] le assms(3) unfolding cut_pos_def by simp
    ultimately show False by simp
  qed
qed

lemma down_less: "down_closed cmp (\<lambda>a. cmp a t < 0)"
  using cmp_le_less_trans unfolding down_closed_def by blast

lemma down_le: "down_closed cmp (\<lambda>a. cmp a t \<le> 0)"
  using cmp_le_trans unfolding down_closed_def by blast

lemma cut_nth_less:
  assumes "entries_sorted cmp xs" "q < length xs"
  shows "cut_pos (\<lambda>a. cmp a (fst (xs ! q)) < 0) xs = q" "cut_pos (\<lambda>a. cmp a (fst (xs ! q)) \<le> 0) xs = q + 1"
proof -
  let ?k = "fst (xs ! q)"
  have less: "cmp (fst (xs ! i)) ?k < 0 \<longleftrightarrow> i < q" if "i < length xs" for i
    using entries_nth [OF assms(1), of i q] entries_nth [OF assms(1), of q i] assms(2) that
    by (cases i q rule: linorder_cases) (auto simp: cmp_refl dest: cmp_asym)
  have le: "cmp (fst (xs ! i)) ?k \<le> 0 \<longleftrightarrow> i < q + 1" if "i < length xs" for i
  proof (cases i q rule: linorder_cases)
    case less
    then show ?thesis using entries_nth [OF assms(1) less assms(2)] by simp
  next
    case greater
    then show ?thesis using entries_nth [OF assms(1) greater that] cmp_le_iff by auto
  qed (simp add: cmp_refl)
  have "i < cut_pos (\<lambda>a. cmp a ?k < 0) xs \<longleftrightarrow> i < q" if "i < length xs" for i
    using cut_nth [OF assms(1) down_less that] less [OF that] by blast
  then show "cut_pos (\<lambda>a. cmp a ?k < 0) xs = q"
    using cut_le assms(2) by (intro bound_unique [of "length xs"]) auto
  have "i < cut_pos (\<lambda>a. cmp a ?k \<le> 0) xs \<longleftrightarrow> i < q + 1" if "i < length xs" for i
    using cut_nth [OF assms(1) down_le that] le [OF that] by blast
  then show "cut_pos (\<lambda>a. cmp a ?k \<le> 0) xs = q + 1"
    using cut_le assms(2) by (intro bound_unique [of "length xs"]) auto
qed

end

interpretation bytewise_order: entry_order BytewiseComparatorImpl_Compare ..

locale sorted_iterator = entry_order cmp
  for cmp :: "bytes \<Rightarrow> bytes \<Rightarrow> int" +
  fixes ops :: "'s IterOps"
    and rep :: "'s \<Rightarrow> entries \<Rightarrow> nat \<Rightarrow> bool"
  assumes rep_sorted: "rep s es i \<Longrightarrow> entries_sorted cmp es"
    and rep_bound: "rep s es i \<Longrightarrow> i \<le> length es"
    and rep_valid: "rep s es i \<Longrightarrow> i_valid ops s \<longleftrightarrow> i < length es"
    and rep_key: "rep s es i \<Longrightarrow> i < length es \<Longrightarrow> i_key ops s = fst (es ! i)"
    and rep_value: "rep s es i \<Longrightarrow> i < length es \<Longrightarrow> i_value ops s = snd (es ! i)"
    and rep_status: "rep s es i \<Longrightarrow> i_status ops s = Status_OK"
    and rep_first: "rep s es i \<Longrightarrow> rep (i_seek_first ops s) es 0"
    and rep_last: "rep s es i \<Longrightarrow> rep (i_seek_last ops s) es (step_back (length es) (length es))"
    and rep_seek: "rep s es i \<Longrightarrow> rep (i_seek ops target s) es (lower_bound cmp target es)"
    and rep_next: "rep s es i \<Longrightarrow> i < length es \<Longrightarrow> rep (i_next ops s) es (i + 1)"
    and rep_prev: "rep s es i \<Longrightarrow> i < length es \<Longrightarrow> rep (i_prev ops s) es (step_back (length es) i)"
begin

text \<open>A client that moves the iterator sees what it would see at a cursor in the entries.\<close>

lemma move_rep: "rep s es i \<Longrightarrow> rep (move ops m s) es (cursor_move cmp es m i)"
  using rep_next [of s es i] by (cases m) (simp_all add: rep_first rep_last rep_seek rep_prev rep_valid)

lemma shown_rep: "rep s es i \<Longrightarrow> shown ops s = cursor_shown es i"
  by (simp add: shown_def cursor_shown_def rep_valid rep_key rep_value)

lemma showing_rep: "rep s es i \<Longrightarrow> showing ops ms s = cursor_showing cmp es ms i"
proof (induction ms arbitrary: s i)
  case (Cons m ms)
  from move_rep [OF Cons.prems] show ?case using Cons.IH shown_rep by simp
qed simp

lemma rep_lookup:
  assumes "rep s es i" "lower_bound cmp target es < length es"
  shows "i_valid ops (i_seek ops target s)" "i_key ops (i_seek ops target s) = fst (es ! lower_bound cmp target es)"
    "i_value ops (i_seek ops target s) = snd (es ! lower_bound cmp target es)"
  using rep_seek [OF assms(1), of target] assms(2) by (auto simp: rep_valid rep_key rep_value)

end

section \<open>The wrapper keeps the contract\<close>

definition wrapped :: "('s \<Rightarrow> entries \<Rightarrow> nat \<Rightarrow> bool) \<Rightarrow> 's IteratorWrapper \<Rightarrow> entries \<Rightarrow> nat \<Rightarrow> bool" where
  "wrapped rep w es i \<longleftrightarrow> (\<exists>s. w_iter w = Some s \<and> rep s es i \<and> w_valid w = (i < length es)
     \<and> (i < length es \<longrightarrow> w_key w = fst (es ! i)))"

context sorted_iterator
begin

lemma wrapped_Update:
  assumes "w_iter w = Some s" "rep s es i"
  shows "wrapped rep (Wrapper_Update ops w) es i"
  using assms rep_valid [OF assms(2)] rep_key [OF assms(2)] by (auto simp: wrapped_def Wrapper_Update_def Let_def)

lemma wrapped_iterator: "sorted_iterator cmp (Wrapper_ops ops) (wrapped rep)"
proof unfold_locales
  fix w es i assume "wrapped rep w es i"
  then obtain s where s: "w_iter w = Some s" "rep s es i" "w_valid w = (i < length es)"
    "i < length es \<longrightarrow> w_key w = fst (es ! i)" by (auto simp: wrapped_def)
  show "entries_sorted cmp es" "i \<le> length es" using rep_sorted rep_bound s(2) by auto
  show "i_valid (Wrapper_ops ops) w \<longleftrightarrow> i < length es" using s by (simp add: Wrapper_ops_def)
  show "i_status (Wrapper_ops ops) w = Status_OK"
    using s rep_status by (simp add: Wrapper_ops_def Wrapper_status_def)
  show "wrapped rep (i_seek_first (Wrapper_ops ops) w) es 0"
    "wrapped rep (i_seek_last (Wrapper_ops ops) w) es (step_back (length es) (length es))"
    "wrapped rep (i_seek (Wrapper_ops ops) target w) es (lower_bound cmp target es)" for target
    using s(1) rep_first [OF s(2)] rep_last [OF s(2)] rep_seek [OF s(2)]
    by (auto simp: Wrapper_ops_def Wrapper_SeekToFirst_def Wrapper_SeekToLast_def Wrapper_Seek_def
        intro!: wrapped_Update)
  assume i: "i < length es"
  show "i_key (Wrapper_ops ops) w = fst (es ! i)" "i_value (Wrapper_ops ops) w = snd (es ! i)"
    using s i rep_value [OF s(2)] by (simp_all add: Wrapper_ops_def Wrapper_value_def)
  show "wrapped rep (i_next (Wrapper_ops ops) w) es (i + 1)"
    "wrapped rep (i_prev (Wrapper_ops ops) w) es (step_back (length es) i)"
    using s(1) rep_next [OF s(2) i] rep_prev [OF s(2) i]
    by (auto simp: Wrapper_ops_def Wrapper_Next_def Wrapper_Prev_def intro!: wrapped_Update)
qed

lemmas wrapped_laws = wrapped_iterator [THEN sorted_iterator.rep_sorted]
  wrapped_iterator [THEN sorted_iterator.rep_bound]
  wrapped_iterator [THEN sorted_iterator.rep_valid, unfolded Wrapper_ops_def IterOps.simps]
  wrapped_iterator [THEN sorted_iterator.rep_key, unfolded Wrapper_ops_def IterOps.simps]
  wrapped_iterator [THEN sorted_iterator.rep_value, unfolded Wrapper_ops_def IterOps.simps]
  wrapped_iterator [THEN sorted_iterator.rep_status, unfolded Wrapper_ops_def IterOps.simps]
  wrapped_iterator [THEN sorted_iterator.rep_first, unfolded Wrapper_ops_def IterOps.simps]
  wrapped_iterator [THEN sorted_iterator.rep_last, unfolded Wrapper_ops_def IterOps.simps]
  wrapped_iterator [THEN sorted_iterator.rep_seek, unfolded Wrapper_ops_def IterOps.simps]
  wrapped_iterator [THEN sorted_iterator.rep_next, unfolded Wrapper_ops_def IterOps.simps]
  wrapped_iterator [THEN sorted_iterator.rep_prev, unfolded Wrapper_ops_def IterOps.simps]

lemma wrapped_at:
  assumes "wrapped rep w es i"
  shows "w_valid w \<longleftrightarrow> i < length es" "i < length es \<Longrightarrow> w_key w = fst (es ! i)"
  using assms by (auto simp: wrapped_def)

lemma wrapped_new: "rep s es i \<Longrightarrow> wrapped rep (Wrapper_new ops (Some s)) es i"
  by (auto simp: Wrapper_new_def Wrapper_Set_def Let_def intro: wrapped_Update)

end

text \<open>Either kind keeps the contract when both do; the empty iterator does.\<close>

lemma sum_iterator:
  assumes "sorted_iterator cmp f r" "sorted_iterator cmp g q"
  shows "sorted_iterator cmp (sum_ops f g) (case_sum r q)"
proof (intro sorted_iterator.intro sorted_iterator_axioms.intro)
  show "entry_order cmp" using assms(1) by (simp add: sorted_iterator_def)
  fix s es i target assume rep: "case_sum r q s es i"
  note laws = sorted_iterator.rep_sorted sorted_iterator.rep_bound sorted_iterator.rep_valid
    sorted_iterator.rep_status sorted_iterator.rep_first sorted_iterator.rep_last sorted_iterator.rep_seek
  note valid_laws = sorted_iterator.rep_key sorted_iterator.rep_value sorted_iterator.rep_next sorted_iterator.rep_prev
  show "entries_sorted cmp es" "i \<le> length es" "i_valid (sum_ops f g) s = (i < length es)"
    "i_status (sum_ops f g) s = Status_OK" "case_sum r q (i_seek_first (sum_ops f g) s) es 0"
    "case_sum r q (i_seek_last (sum_ops f g) s) es (step_back (length es) (length es))"
    "case_sum r q (i_seek (sum_ops f g) target s) es (lower_bound cmp target es)"
    using rep laws [OF assms(1)] laws [OF assms(2)] by (cases s; simp add: sum_ops_def; blast)+
  assume lt: "i < length es"
  show "i_key (sum_ops f g) s = fst (es ! i)" "i_value (sum_ops f g) s = snd (es ! i)"
    "case_sum r q (i_next (sum_ops f g) s) es (i + 1)"
    "case_sum r q (i_prev (sum_ops f g) s) es (step_back (length es) i)"
    using rep valid_laws [OF assms(1) _ lt] valid_laws [OF assms(2) _ lt] by (cases s; simp add: sum_ops_def; blast)+
qed

definition empty_rep :: "Status \<Rightarrow> entries \<Rightarrow> nat \<Rightarrow> bool" where
  "empty_rep s es i \<longleftrightarrow> s = Status_OK \<and> es = [] \<and> i = 0"

text \<open>The empty iterator iterates over nothing.\<close>

context entry_order
begin

lemma empty_iterator: "sorted_iterator cmp EmptyIterator_ops empty_rep"
  by unfold_locales (auto simp: EmptyIterator_ops_def empty_rep_def entries_sorted_def lower_bound_def step_back_def)

end

interpretation empty: sorted_iterator BytewiseComparatorImpl_Compare EmptyIterator_ops empty_rep
  by (rule bytewise_order.empty_iterator)

end
