(* ===== verification/Block.thy ===== *)
theory Block
  imports Coding Iterators
begin

text \<open>
  Blocks of a table: the builder of \<^verbatim>\<open>src/table/block_builder.cc\<close> and the reader
  of \<^verbatim>\<open>src/table/block.cc\<close> with its iterator.  Keys share prefixes with the key
  before; at restart points they are whole.  Offsets are natural numbers; the
  code keeps them in 32 bits, which blocks below 4 GB fit in.  The theorems about
  both are in \<open>Block_Iterator\<close>.
\<close>

section \<open>Building\<close>

record BlockBuilder =
  bb_buffer :: bytes
  bb_restarts :: "u32 list"
  bb_counter :: nat
  bb_finished :: bool
  bb_last_key :: bytes

definition BlockBuilder_new :: BlockBuilder where
  "BlockBuilder_new =
     \<lparr>bb_buffer = [], bb_restarts = [0], bb_counter = 0, bb_finished = False, bb_last_key = []\<rparr>"

definition BlockBuilder_Reset :: "BlockBuilder \<Rightarrow> BlockBuilder" where
  "BlockBuilder_Reset b =
     b\<lparr>bb_buffer := [], bb_restarts := [0], bb_counter := 0, bb_finished := False, bb_last_key := []\<rparr>"

definition BlockBuilder_CurrentSizeEstimate :: "BlockBuilder \<Rightarrow> nat" where
  "BlockBuilder_CurrentSizeEstimate b = length (bb_buffer b) + length (bb_restarts b) * 4 + 4"

definition BlockBuilder_empty :: "BlockBuilder \<Rightarrow> bool" where
  "BlockBuilder_empty b \<longleftrightarrow> bb_buffer b = []"

definition BlockBuilder_Finish :: "BlockBuilder \<Rightarrow> bytes \<times> BlockBuilder" where
  "BlockBuilder_Finish b =
     (let buffer = foldl PutFixed32 (bb_buffer b) (bb_restarts b);
          buffer = PutFixed32 buffer (word_of_nat (length (bb_restarts b)))
      in (buffer, b\<lparr>bb_buffer := buffer, bb_finished := True\<rparr>))"

text \<open>The interval between restart points is read from the configuration at every call.\<close>

definition BlockBuilder_Add :: "nat \<Rightarrow> bytes \<Rightarrow> bytes \<Rightarrow> BlockBuilder \<Rightarrow> BlockBuilder" where
  "BlockBuilder_Add interval key value b =
     (let (shared, restarts, counter) =
        (if bb_counter b < interval then (shared_prefix (bb_last_key b) key, bb_restarts b, bb_counter b)
         else (0, bb_restarts b @ [word_of_nat (length (bb_buffer b))], 0));
        non_shared = length key - shared;
        buffer = PutVarint32 (bb_buffer b) (word_of_nat shared);
        buffer = PutVarint32 buffer (word_of_nat non_shared);
        buffer = PutVarint32 buffer (word_of_nat (length value));
        buffer = buffer @ take non_shared (drop shared key) @ value;
        last_key = take shared (bb_last_key b) @ take non_shared (drop shared key)
      in b\<lparr>bb_buffer := buffer, bb_restarts := restarts, bb_counter := counter + 1, bb_last_key := last_key\<rparr>)"

section \<open>Reading\<close>

record Block =
  blk_data :: bytes
  blk_size :: nat
  blk_restart_offset :: nat

definition RestartsNum :: "bytes \<Rightarrow> nat \<Rightarrow> nat" where
  "RestartsNum data n = unat (DecodeFixed32 (drop (n - 4) data))"

definition Block_new :: "bytes \<Rightarrow> Block" where
  "Block_new data =
     (let n = length data in
      if n < 4 then \<lparr>blk_data = data, blk_size = 0, blk_restart_offset = 0\<rparr>
      else
        let max_restart_allowed = (n - 4) div 4 in
        if max_restart_allowed < RestartsNum data n
        then \<lparr>blk_data = data, blk_size = 0, blk_restart_offset = 0\<rparr>
        else \<lparr>blk_data = data, blk_size = n, blk_restart_offset = n - (1 + RestartsNum data n) * 4\<rparr>)"

text \<open>
  The pointers \<^verbatim>\<open>[ptr, limit)\<close> are the bytes between them.  The last test adds two
  32-bit lengths and wraps.
\<close>

definition DecodeEntry :: "bytes \<Rightarrow> (u32 \<times> u32 \<times> u32 \<times> bytes) option" where
  "DecodeEntry ptr =
     (if length ptr < 3 then None
      else
        let shared = ucast (ptr ! 0) :: u32; non_shared = ucast (ptr ! 1) :: u32;
            value_length = ucast (ptr ! 2) :: u32;
            header = (if (shared OR non_shared OR value_length) < 128
              then Some (shared, non_shared, value_length, drop 3 ptr)
              else case GetVarint32Ptr ptr of None \<Rightarrow> None
                | Some (shared, ptr) \<Rightarrow> (case GetVarint32Ptr ptr of None \<Rightarrow> None
                | Some (non_shared, ptr) \<Rightarrow> (case GetVarint32Ptr ptr of None \<Rightarrow> None
                | Some (value_length, ptr) \<Rightarrow> Some (shared, non_shared, value_length, ptr))))
        in case header of
             None \<Rightarrow> None
           | Some (shared, non_shared, value_length, ptr) \<Rightarrow>
               if (word_of_nat (length ptr) :: u32) < non_shared + value_length then None
               else Some (shared, non_shared, value_length, ptr))"

text \<open>\<^verbatim>\<open>value_\<close> is kept as its offset and its length.\<close>

record BlockIter =
  bi_data :: bytes
  bi_restarts :: nat
  bi_restarts_num :: nat
  bi_current :: nat
  bi_restart_index :: nat
  bi_key :: bytes
  bi_value_offset :: nat
  bi_value_length :: nat
  bi_status :: Status

definition BlockIter_new :: "bytes \<Rightarrow> nat \<Rightarrow> nat \<Rightarrow> BlockIter" where
  "BlockIter_new data restarts restarts_num =
     \<lparr>bi_data = data, bi_restarts = restarts, bi_restarts_num = restarts_num, bi_current = restarts,
      bi_restart_index = restarts_num, bi_key = [], bi_value_offset = 0, bi_value_length = 0,
      bi_status = Status_OK\<rparr>"

definition NextEntryOffset :: "BlockIter \<Rightarrow> nat" where
  "NextEntryOffset it = bi_value_offset it + bi_value_length it"

definition GetRestartPoint :: "BlockIter \<Rightarrow> nat \<Rightarrow> nat" where
  "GetRestartPoint it index = unat (DecodeFixed32 (drop (bi_restarts it + index * 4) (bi_data it)))"

definition SeekToRestartPoint :: "nat \<Rightarrow> BlockIter \<Rightarrow> BlockIter" where
  "SeekToRestartPoint index it =
     it\<lparr>bi_key := [], bi_restart_index := index, bi_value_offset := GetRestartPoint it index, bi_value_length := 0\<rparr>"

definition BlockIter_CorruptionError :: "BlockIter \<Rightarrow> BlockIter" where
  "BlockIter_CorruptionError it =
     it\<lparr>bi_current := bi_restarts it, bi_restart_index := bi_restarts_num it,
        bi_status := Corruption ''bad entry in block'', bi_key := [], bi_value_offset := 0, bi_value_length := 0\<rparr>"

function advance_restart :: "BlockIter \<Rightarrow> nat \<Rightarrow> nat" where
  "advance_restart it index =
     (if index + 1 < bi_restarts_num it \<and> GetRestartPoint it (index + 1) < bi_current it
      then advance_restart it (index + 1) else index)"
  by auto
termination by (relation "measure (\<lambda>(it, i). bi_restarts_num it - i)") auto

declare advance_restart.simps [simp del]

definition ParseNextKey :: "BlockIter \<Rightarrow> bool \<times> BlockIter" where
  "ParseNextKey it =
     (let it = it\<lparr>bi_current := NextEntryOffset it\<rparr> in
      if bi_restarts it \<le> bi_current it
      then (False, it\<lparr>bi_current := bi_restarts it, bi_restart_index := bi_restarts_num it\<rparr>)
      else case DecodeEntry (drop (bi_current it) (take (bi_restarts it) (bi_data it))) of
        None \<Rightarrow> (False, BlockIter_CorruptionError it)
      | Some (shared, non_shared, value_length, p) \<Rightarrow>
          if length (bi_key it) < unat shared then (False, BlockIter_CorruptionError it)
          else
            let p_offset = bi_restarts it - length p;
                it = it\<lparr>bi_key := take (unat shared) (bi_key it) @ take (unat non_shared) (drop p_offset (bi_data it)),
                        bi_value_offset := p_offset + unat non_shared, bi_value_length := unat value_length\<rparr>
            in (True, it\<lparr>bi_restart_index := advance_restart it (bi_restart_index it)\<rparr>))"

definition BlockIter_Valid :: "BlockIter \<Rightarrow> bool" where
  "BlockIter_Valid it \<longleftrightarrow> bi_current it < bi_restarts it"

definition BlockIter_value :: "BlockIter \<Rightarrow> bytes" where
  "BlockIter_value it = take (bi_value_length it) (drop (bi_value_offset it) (bi_data it))"

definition BlockIter_Next :: "BlockIter \<Rightarrow> BlockIter" where
  "BlockIter_Next it = snd (ParseNextKey it)"

lemma GetVarint32Ptr_length: "GetVarint32Ptr p = Some (v, q) \<Longrightarrow> length q < length p"
proof -
  have "GetVarint32PtrFallback_loop p s r = Some (v, q) \<Longrightarrow> length q < length p" for s r
    by (induction p s r rule: GetVarint32PtrFallback_loop.induct) (fastforce simp: Let_def split: if_splits)+
  then show "GetVarint32Ptr p = Some (v, q) \<Longrightarrow> length q < length p"
    by (simp add: GetVarint32Ptr_eq GetVarint32PtrFallback_def)
qed

lemma DecodeEntry_length: "DecodeEntry p = Some (a, b, c, q) \<Longrightarrow> length q < length p"
  by (auto simp: DecodeEntry_def Let_def split: if_splits option.splits dest!: GetVarint32Ptr_length)

lemma ParseNextKey_progress:
  assumes "ParseNextKey it = (True, it')"
  shows "bi_restarts it' = bi_restarts it" "NextEntryOffset it < bi_restarts it" "NextEntryOffset it < NextEntryOffset it'"
proof -
  let ?it = "it\<lparr>bi_current := NextEntryOffset it\<rparr>"
  have lt: "NextEntryOffset it < bi_restarts it"
    using assms by (auto simp: ParseNextKey_def Let_def split: if_splits)
  obtain a b c p where d: "DecodeEntry (drop (NextEntryOffset it) (take (bi_restarts it) (bi_data it))) = Some (a, b, c, p)"
    using assms lt by (auto simp: ParseNextKey_def Let_def split: option.splits)
  have "length p < bi_restarts it - NextEntryOffset it" using DecodeEntry_length [OF d] by simp
  then show "bi_restarts it' = bi_restarts it" "NextEntryOffset it < bi_restarts it"
    "NextEntryOffset it < NextEntryOffset it'"
    using assms lt d by (auto simp: ParseNextKey_def Let_def NextEntryOffset_def split: if_splits)
qed

text \<open>
  The loops that parse entries as long as they hold back: to the entry before a
  place (\<^verbatim>\<open>Prev\<close>, \<^verbatim>\<open>SeekToLast\<close>) or to a key (\<^verbatim>\<open>Seek\<close>).
\<close>

function parse_while :: "(BlockIter \<Rightarrow> bool) \<Rightarrow> BlockIter \<Rightarrow> BlockIter" where
  "parse_while before it =
     (let r = ParseNextKey it in if fst r \<and> before (snd r) then parse_while before (snd r) else snd r)"
  by auto
termination
proof (relation "measure (\<lambda>(c, it). bi_restarts it - NextEntryOffset it)")
  fix before it r
  assume r: "r = ParseNextKey it" "fst r \<and> before (snd r)"
  then have "ParseNextKey it = (True, snd r)" by (metis prod.collapse)
  from ParseNextKey_progress [OF this]
  show "((before, snd r), (before, it)) \<in> measure (\<lambda>(c, it). bi_restarts it - NextEntryOffset it)" by simp
qed simp

declare parse_while.simps [simp del]

fun restart_before :: "BlockIter \<Rightarrow> nat \<Rightarrow> nat \<Rightarrow> nat option" where
  "restart_before it original 0 = (if original \<le> GetRestartPoint it 0 then None else Some 0)"
| "restart_before it original (Suc index) =
     (if original \<le> GetRestartPoint it (Suc index) then restart_before it original index else Some (Suc index))"

definition BlockIter_Prev :: "BlockIter \<Rightarrow> BlockIter" where
  "BlockIter_Prev it =
     (let original = bi_current it in
      case restart_before it original (bi_restart_index it) of
        None \<Rightarrow> it\<lparr>bi_current := bi_restarts it, bi_restart_index := bi_restarts_num it\<rparr>
      | Some index \<Rightarrow> parse_while (\<lambda>it. NextEntryOffset it < original) (SeekToRestartPoint index it))"

text \<open>The search among the restart points; \<^verbatim>\<open>None\<close> when an entry there cannot be one.\<close>

function restart_search ::
    "(bytes \<Rightarrow> bytes \<Rightarrow> int) \<Rightarrow> bytes \<Rightarrow> BlockIter \<Rightarrow> nat \<Rightarrow> nat \<Rightarrow> nat option" where
  "restart_search cmp target it left right =
     (if left < right then
        (let mid = (left + right + 1) div 2 in
         case DecodeEntry (drop (GetRestartPoint it mid) (take (bi_restarts it) (bi_data it))) of
           None \<Rightarrow> None
         | Some (shared, non_shared, value_length, p) \<Rightarrow>
             if shared \<noteq> 0 then None
             else if cmp (take (unat non_shared) (drop (bi_restarts it - length p) (bi_data it))) target < 0
             then restart_search cmp target it mid right
             else restart_search cmp target it left (mid - 1))
      else Some left)"
  by auto
termination by (relation "measure (\<lambda>(c, t, it, l, r). r - l)") auto

declare restart_search.simps [simp del]

definition BlockIter_Seek :: "(bytes \<Rightarrow> bytes \<Rightarrow> int) \<Rightarrow> bytes \<Rightarrow> BlockIter \<Rightarrow> BlockIter" where
  "BlockIter_Seek cmp target it =
     (let current_key_compare = (if BlockIter_Valid it then cmp (bi_key it) target else 0);
          left = (if current_key_compare < 0 then bi_restart_index it else 0);
          right = (if 0 < current_key_compare then bi_restart_index it else bi_restarts_num it - 1)
      in if BlockIter_Valid it \<and> current_key_compare = 0 then it
         else case restart_search cmp target it left right of
           None \<Rightarrow> BlockIter_CorruptionError it
         | Some left \<Rightarrow>
             let skip_seek = (left = bi_restart_index it \<and> current_key_compare < 0)
             in parse_while (\<lambda>it. cmp (bi_key it) target < 0)
                  (if \<not> skip_seek then SeekToRestartPoint left it else it))"

definition BlockIter_SeekToFirst :: "BlockIter \<Rightarrow> BlockIter" where
  "BlockIter_SeekToFirst it = snd (ParseNextKey (SeekToRestartPoint 0 it))"

definition BlockIter_SeekToLast :: "BlockIter \<Rightarrow> BlockIter" where
  "BlockIter_SeekToLast it =
     parse_while (\<lambda>it. NextEntryOffset it < bi_restarts it) (SeekToRestartPoint (bi_restarts_num it - 1) it)"

definition BlockIter_ops :: "(bytes \<Rightarrow> bytes \<Rightarrow> int) \<Rightarrow> BlockIter IterOps" where
  "BlockIter_ops cmp =
     \<lparr>i_valid = BlockIter_Valid, i_seek_first = BlockIter_SeekToFirst, i_seek_last = BlockIter_SeekToLast,
      i_seek = BlockIter_Seek cmp, i_next = BlockIter_Next, i_prev = BlockIter_Prev, i_key = bi_key,
      i_value = BlockIter_value, i_status = bi_status\<rparr>"

text \<open>An iterator over a block, or the empty one with its status.\<close>

definition Block_NewIterator :: "Block \<Rightarrow> Status + BlockIter" where
  "Block_NewIterator b =
     (if blk_size b < 4 then Inl (NewErrorIterator (Corruption ''bad block contents''))
      else let restarts_num = RestartsNum (blk_data b) (blk_size b) in
        if restarts_num = 0 then Inl NewEmptyIterator
        else Inr (BlockIter_new (blk_data b) (blk_restart_offset b) restarts_num))"

definition AnyBlockIter_ops :: "(bytes \<Rightarrow> bytes \<Rightarrow> int) \<Rightarrow> (Status + BlockIter) IterOps" where
  "AnyBlockIter_ops cmp = sum_ops EmptyIterator_ops (BlockIter_ops cmp)"

end
