(* ===== verification/Block_Iterator.thy ===== *)
theory Block_Iterator
  imports Block
begin

text \<open>
  A block built from sorted entries is read back exactly: \<open>block_at\<close> says that the
  iterator of \<^verbatim>\<open>src/table/block.cc\<close> is at an entry of such a block, every
  operation moves it to the right entry, and so the iterator keeps the contract
  of sorted iterators, for any interval between restart points.
\<close>

section \<open>The bytes of an entry\<close>

definition entry_bytes :: "nat \<Rightarrow> bytes \<times> bytes \<Rightarrow> bytes" where
  "entry_bytes s e =
     EncodeVarint32 (word_of_nat s) @ EncodeVarint32 (word_of_nat (length (fst e) - s))
     @ EncodeVarint32 (word_of_nat (length (snd e))) @ drop s (fst e) @ snd e"

lemma unat_numeral_128: "unat (128 :: u32) = 128"
  by simp

lemma less_128_bits: "(w::u32) < 128 \<longleftrightarrow> (\<forall>n\<ge>7. \<not> bit w n)"
proof -
  have "w < 128 \<longleftrightarrow> unat w mod 128 = unat w"
    by (metis mod_less mod_less_divisor unat_numeral_128 word_less_nat_alt zero_less_numeral)
  also have "\<dots> \<longleftrightarrow> take_bit 7 w = w"
    by (simp add: word_unat_eq_iff unsigned_take_bit_eq take_bit_eq_mod unat_mod_distrib)
  also have "\<dots> \<longleftrightarrow> (\<forall>n\<ge>7. \<not> bit w n)"
  proof
    show "\<forall>n\<ge>7. \<not> bit w n" if "take_bit 7 w = w"
      using that by (metis bit_take_bit_iff linorder_not_le)
    show "take_bit 7 w = w" if "\<forall>n\<ge>7. \<not> bit w n"
      using that by (intro bit_eqI) (auto simp: bit_take_bit_iff linorder_not_le [symmetric])
  qed
  finally show ?thesis .
qed

lemma or_less_128: "(a OR b OR c :: u32) < 128 \<longleftrightarrow> a < 128 \<and> b < 128 \<and> c < 128"
  by (auto simp: less_128_bits bit_or_iff)

lemma EncodeVarint32_first:
  obtains b bs where "EncodeVarint32 v = b # bs" "(ucast b :: u32) < 128 \<longleftrightarrow> v < 128" "v < 128 \<Longrightarrow> bs = [] \<and> ucast b = v"
    "\<not> v < 128 \<Longrightarrow> bs \<noteq> []"
proof (cases "v < 128")
  case True
  then have "EncodeVarint32 v = [ucast v]" by (simp add: EncodeVarint32_def)
  moreover have "(ucast (ucast v :: byte) :: u32) = v"
  proof (rule word_unat_eq_iff [THEN iffD2])
    show "unat (ucast (ucast v :: byte) :: u32) = unat v"
      using True by (simp add: unsigned_ucast_eq take_bit_eq_mod word_less_nat_alt unat_mod_distrib)
  qed
  ultimately show ?thesis using that [of "ucast v" "[]"] True by simp
next
  case False
  have bit7: "bit (ucast (ucast (v OR 128) :: byte) :: u32) 7"
    by (simp add: bit_ucast_iff bit_or_iff)
  then have ge: "\<not> (ucast (ucast (v OR 128) :: byte) :: u32) < 128" by (auto simp: less_128_bits)
  define bs where "bs = tl (EncodeVarint32 v)"
  have "EncodeVarint32 v = ucast (v OR 128) # bs" "bs \<noteq> []"
    using False by (simp_all add: bs_def EncodeVarint32_def)
  then show ?thesis using that [of "ucast (v OR 128)" bs] False ge by simp
qed

lemma DecodeEntry_entry:
  assumes s: "s \<le> length (fst e)" and len: "length (entry_bytes s e @ rest) < 2 ^ 32"
  shows "DecodeEntry (entry_bytes s e @ rest) =
    Some (word_of_nat s, word_of_nat (length (fst e) - s), word_of_nat (length (snd e)), drop s (fst e) @ snd e @ rest)"
proof -
  let ?x = "word_of_nat s :: u32" and ?y = "word_of_nat (length (fst e) - s) :: u32" and ?z = "word_of_nat (length (snd e)) :: u32"
  let ?p = "drop s (fst e) @ snd e @ rest"
  obtain a as where a: "EncodeVarint32 ?x = a # as" "(ucast a :: u32) < 128 \<longleftrightarrow> ?x < 128" "?x < 128 \<Longrightarrow> as = [] \<and> ucast a = ?x"
    "\<not> ?x < 128 \<Longrightarrow> as \<noteq> []" by (rule EncodeVarint32_first [of ?x]) blast
  obtain b bs where b: "EncodeVarint32 ?y = b # bs" "(ucast b :: u32) < 128 \<longleftrightarrow> ?y < 128" "?y < 128 \<Longrightarrow> bs = [] \<and> ucast b = ?y"
    "\<not> ?y < 128 \<Longrightarrow> bs \<noteq> []" by (rule EncodeVarint32_first [of ?y]) blast
  obtain c cs where c: "EncodeVarint32 ?z = c # cs" "(ucast c :: u32) < 128 \<longleftrightarrow> ?z < 128" "?z < 128 \<Longrightarrow> cs = [] \<and> ucast c = ?z"
    "\<not> ?z < 128 \<Longrightarrow> cs \<noteq> []" by (rule EncodeVarint32_first [of ?z]) blast
  let ?e = "entry_bytes s e @ rest"
  have e: "?e = (a # as) @ (b # bs) @ (c # cs) @ ?p" by (simp add: entry_bytes_def a(1) b(1) c(1))
  have e': "?e = EncodeVarint32 ?x @ EncodeVarint32 ?y @ EncodeVarint32 ?z @ ?p" by (simp add: entry_bytes_def)
  have slow: "(case GetVarint32Ptr ?e of None \<Rightarrow> None
      | Some (shared, ptr) \<Rightarrow> (case GetVarint32Ptr ptr of None \<Rightarrow> None
      | Some (non_shared, ptr) \<Rightarrow> (case GetVarint32Ptr ptr of None \<Rightarrow> None
      | Some (value_length, ptr) \<Rightarrow> Some (shared, non_shared, value_length, ptr)))) = Some (?x, ?y, ?z, ?p)"
    unfolding e' by (simp flip: GetVarint32_def)
  have fast: "((ucast (?e ! 0) :: u32) OR ucast (?e ! 1) OR ucast (?e ! 2)) < 128 \<Longrightarrow>
    ucast (?e ! 0) = ?x \<and> ucast (?e ! 1) = ?y \<and> ucast (?e ! 2) = ?z \<and> drop 3 ?e = ?p"
  proof -
    assume or: "((ucast (?e ! 0) :: u32) OR ucast (?e ! 1) OR ucast (?e ! 2)) < 128"
    have "as = [] \<and> ucast a = ?x" using or a(2,3) unfolding or_less_128 e by simp
    moreover from this have "bs = [] \<and> ucast b = ?y" using or b(2,3) unfolding or_less_128 e by simp
    moreover from calculation have "cs = [] \<and> ucast c = ?z" using or c(2,3) unfolding or_less_128 e by simp
    ultimately show ?thesis unfolding e by simp
  qed
  have n: "\<not> length ?e < 3" unfolding e by simp
  have "length ?p \<le> length ?e" unfolding e by simp
  then have lt: "length ?p < 2 ^ 32" using len by simp
  then have "?y + ?z = word_of_nat (length (fst e) - s + length (snd e))" by simp
  then have "\<not> (word_of_nat (length ?p) :: u32) < ?y + ?z"
    using lt s by (simp add: word_less_nat_alt unat_of_nat not_less del: of_nat_add of_nat_diff)
  then show ?thesis
    unfolding DecodeEntry_def Let_def if_not_P [OF n] slow using fast by (auto split: if_splits)
qed

section \<open>The layout of a block\<close>

text \<open>
  \<open>ses\<close> are the entries, each with the length it shares with the key before it;
  \<open>ris\<close> are the indices of the restart points.
\<close>

definition body :: "(nat \<times> bytes \<times> bytes) list \<Rightarrow> bytes" where
  "body ses = concat (map (\<lambda>(s, e). entry_bytes s e) ses)"

definition off :: "(nat \<times> bytes \<times> bytes) list \<Rightarrow> nat \<Rightarrow> nat" where
  "off ses i = length (body (take i ses))"

definition block_data :: "(nat \<times> bytes \<times> bytes) list \<Rightarrow> nat list \<Rightarrow> bytes" where
  "block_data ses ris =
     body ses @ concat (map (\<lambda>i. EncodeFixed32 (word_of_nat (off ses i))) ris) @ EncodeFixed32 (word_of_nat (length ris))"

definition share_ok :: "(nat \<times> bytes \<times> bytes) list \<Rightarrow> nat \<Rightarrow> bool" where
  "share_ok ses i \<longleftrightarrow> fst (ses ! i) \<le> length (fst (snd (ses ! i))) \<and> length (fst (snd (ses ! i))) < 2 ^ 32
     \<and> (0 < i \<longrightarrow> take (fst (ses ! i)) (fst (snd (ses ! (i - 1)))) = take (fst (ses ! i)) (fst (snd (ses ! i))))"

definition layout_ok :: "(nat \<times> bytes \<times> bytes) list \<Rightarrow> nat list \<Rightarrow> bool" where
  "layout_ok ses ris \<longleftrightarrow> ris \<noteq> [] \<and> hd ris = 0 \<and> sorted_wrt (<) ris
     \<and> (\<forall>r\<in>set ris. r < length ses \<and> fst (ses ! r) = 0 \<or> r = 0 \<and> ses = [])
     \<and> (\<forall>i<length ses. share_ok ses i) \<and> length (block_data ses ris) < 2 ^ 32"

lemma entry_bytes_length: "3 \<le> length (entry_bytes s e)"
proof -
  have "0 < length (EncodeVarint32 v)" for v by (cases v rule: EncodeVarint32_first) simp
  then have "1 \<le> length (EncodeVarint32 v)" for v by (simp add: Suc_leI)
  from this [of "word_of_nat s"] this [of "word_of_nat (length (fst e) - s)"] this [of "word_of_nat (length (snd e))"]
  show ?thesis by (simp add: entry_bytes_def)
qed

lemma body_split: "i < length ses \<Longrightarrow> body ses = body (take i ses) @ entry_bytes (fst (ses ! i)) (snd (ses ! i)) @ body (drop (i + 1) ses)"
  unfolding body_def by (subst id_take_nth_drop [of i ses]) (auto simp: case_prod_beta)

lemma off_Suc: "i < length ses \<Longrightarrow> off ses (i + 1) = off ses i + length (entry_bytes (fst (ses ! i)) (snd (ses ! i)))"
  by (simp add: off_def body_def take_Suc_conv_app_nth case_prod_beta)

lemma off_0 [simp]: "off ses 0 = 0" and off_all [simp]: "off ses (length ses) = length (body ses)"
  by (simp_all add: off_def body_def)

lemma off_less: "i < j \<Longrightarrow> j \<le> length ses \<Longrightarrow> off ses i < off ses j"
proof (induction j)
  case (Suc j)
  then have "off ses j < off ses (Suc j)"
    using off_Suc [of j ses] entry_bytes_length [of "fst (ses ! j)" "snd (ses ! j)"] by (auto simp del: length_greater_0_conv)
  then show ?case using Suc by (cases "i = j") auto
qed simp

lemma off_mono: "i \<le> j \<Longrightarrow> j \<le> length ses \<Longrightarrow> off ses i \<le> off ses j"
  using off_less [of i j ses] by (cases "i = j") auto

lemma off_less_iff: "i \<le> length ses \<Longrightarrow> j \<le> length ses \<Longrightarrow> off ses i < off ses j \<longleftrightarrow> i < j"
  using off_less [of i j ses] off_mono [of j i ses] by (cases "i < j") (auto simp: not_less)

lemma layout_length:
  assumes "layout_ok ses ris"
  shows "length (body ses) < 2 ^ 32" "length ris < 2 ^ 32"
proof -
  have len: "length (concat (map (\<lambda>i. EncodeFixed32 (word_of_nat (off ses i))) rs)) = 4 * length rs" for rs
    by (induction rs) auto
  show "length (body ses) < 2 ^ 32" "length ris < 2 ^ 32"
    using assms by (auto simp: layout_ok_def block_data_def len)
qed

lemma take_body: "take (length (body ses)) (block_data ses ris) = body ses"
  by (simp add: block_data_def)

lemma concat_fixed_drop:
  "r < length ris \<Longrightarrow> drop (4 * r) (concat (map (\<lambda>i. EncodeFixed32 (f i)) ris)) =
     EncodeFixed32 (f (ris ! r)) @ concat (map (\<lambda>i. EncodeFixed32 (f i)) (drop (r + 1) ris))"
proof (induction ris arbitrary: r)
  case (Cons x ris)
  then show ?case by (cases r) (simp_all)
qed simp

section \<open>The state at an entry\<close>

definition block_iter :: "(nat \<times> bytes \<times> bytes) list \<Rightarrow> nat list \<Rightarrow> BlockIter \<Rightarrow> bool" where
  "block_iter ses ris it \<longleftrightarrow> layout_ok ses ris \<and> bi_data it = block_data ses ris
     \<and> bi_restarts it = length (body ses) \<and> bi_restarts_num it = length ris \<and> bi_status it = Status_OK"

text \<open>The next entry to parse is \<open>i\<close>; after it the iterator is at \<open>i\<close>.\<close>

definition ready :: "(nat \<times> bytes \<times> bytes) list \<Rightarrow> nat list \<Rightarrow> nat \<Rightarrow> BlockIter \<Rightarrow> bool" where
  "ready ses ris i it \<longleftrightarrow> block_iter ses ris it \<and> i \<le> length ses \<and> NextEntryOffset it = off ses i
     \<and> (i < length ses \<longrightarrow> fst (ses ! i) \<le> length (bi_key it)
          \<and> take (fst (ses ! i)) (bi_key it) = take (fst (ses ! i)) (fst (snd (ses ! i))))
     \<and> bi_restart_index it < length ris \<and> ris ! bi_restart_index it \<le> i"

definition block_at :: "(nat \<times> bytes \<times> bytes) list \<Rightarrow> nat list \<Rightarrow> nat \<Rightarrow> BlockIter \<Rightarrow> bool" where
  "block_at ses ris i it \<longleftrightarrow> block_iter ses ris it \<and> i \<le> length ses
     \<and> (if i < length ses then bi_current it = off ses i \<and> bi_key it = fst (snd (ses ! i))
          \<and> BlockIter_value it = snd (snd (ses ! i)) \<and> NextEntryOffset it = off ses (i + 1)
          \<and> bi_restart_index it < length ris \<and> ris ! bi_restart_index it \<le> i
          \<and> (bi_restart_index it + 1 < length ris \<longrightarrow> i \<le> ris ! (bi_restart_index it + 1))
        else bi_current it = bi_restarts it)"

lemma GetRestartPoint_off:
  assumes "block_iter ses ris it" "r < length ris"
  shows "GetRestartPoint it r = off ses (ris ! r)"
proof -
  let ?f = "\<lambda>i. word_of_nat (off ses i) :: u32"
  have lay: "layout_ok ses ris" using assms(1) by (simp add: block_iter_def)
  have "ris ! r \<in> set ris" using assms(2) by simp
  then have "ris ! r < length ses \<or> ris ! r = 0" using lay by (auto simp: layout_ok_def)
  then have "off ses (ris ! r) \<le> length (body ses)" using off_mono [of "ris ! r" "length ses" ses] by auto
  then have small: "off ses (ris ! r) < 2 ^ 32" using layout_length(1) [OF lay] by simp
  have "drop (bi_restarts it + r * 4) (bi_data it) = EncodeFixed32 (?f (ris ! r))
      @ concat (map (\<lambda>i. EncodeFixed32 (?f i)) (drop (r + 1) ris)) @ EncodeFixed32 (word_of_nat (length ris))"
    using assms concat_fixed_drop [OF assms(2), of ?f]
    by (simp add: block_iter_def block_data_def mult.commute [of r 4] less_imp_le
        length_concat comp_def sum_list_triv)
  then show ?thesis using small by (simp add: GetRestartPoint_def unat_of_nat)
qed

lemma advance_restart_at:
  assumes "block_iter ses ris it" "bi_current it = off ses i" "i \<le> length ses" "r < length ris" "ris ! r \<le> i"
  shows "advance_restart it r < length ris \<and> ris ! advance_restart it r \<le> i
    \<and> (advance_restart it r + 1 < length ris \<longrightarrow> i \<le> ris ! (advance_restart it r + 1))"
  using assms(4,5)
proof (induction "length ris - r" arbitrary: r)
  case (Suc n)
  have num: "bi_restarts_num it = length ris" using assms(1) by (simp add: block_iter_def)
  have less: "GetRestartPoint it (r + 1) < bi_current it \<longleftrightarrow> ris ! (r + 1) < i" if "r + 1 < length ris"
  proof -
    have "ris ! (r + 1) \<in> set ris" using that by simp
    then have "ris ! (r + 1) \<le> length ses" using assms(1) by (auto simp: block_iter_def layout_ok_def)
    then show ?thesis using GetRestartPoint_off [OF assms(1) that] assms(2,3) off_less_iff by simp
  qed
  show ?case
  proof (cases "r + 1 < length ris \<and> ris ! (r + 1) < i")
    case True
    then have "advance_restart it r = advance_restart it (r + 1)"
      using less num by (subst advance_restart.simps) simp
    then show ?thesis using Suc.hyps(1) [of "r + 1"] Suc.hyps(2) True by simp
  next
    case False
    then have "advance_restart it r = r" using less num by (subst advance_restart.simps) auto
    then show ?thesis using Suc.prems False by auto
  qed
qed simp

lemma entry_at_off:
  assumes lay: "layout_ok ses ris" and i: "i < length ses"
  shows "drop (off ses i) (take (length (body ses)) (block_data ses ris))
    = entry_bytes (fst (ses ! i)) (snd (ses ! i)) @ body (drop (i + 1) ses)"
  unfolding take_body by (subst body_split [OF i]) (simp add: off_def)

lemma ParseNextKey_at:
  assumes rd: "ready ses ris i it" and i: "i < length ses"
  shows "fst (ParseNextKey it) \<and> block_at ses ris i (snd (ParseNextKey it))"
proof -
  have blk: "block_iter ses ris it" and next_off: "NextEntryOffset it = off ses i" using rd by (simp_all add: ready_def)
  have lay: "layout_ok ses ris" using blk by (simp add: block_iter_def)
  obtain s k v where e: "ses ! i = (s, k, v)" by (rule prod_cases3)
  have sk: "s \<le> length k" "length k < 2 ^ 32" using lay i e by (auto simp: layout_ok_def share_ok_def)
  let ?rest = "body (drop (i + 1) ses)"
  note pos = entry_at_off [OF lay i, unfolded e fst_conv snd_conv]
  have total: "off ses i + length (entry_bytes s (k, v) @ ?rest) = length (body ses)"
    using arg_cong [OF body_split [OF i], of length] by (simp add: off_def e)
  then have small: "length (entry_bytes s (k, v) @ ?rest) < 2 ^ 32" using layout_length(1) [OF lay] by simp
  have dec: "DecodeEntry (entry_bytes s (k, v) @ ?rest) =
      Some (word_of_nat s, word_of_nat (length k - s), word_of_nat (length v), drop s k @ v @ ?rest)"
    using DecodeEntry_entry [of s "(k, v)" ?rest] sk small by simp
  have nums: "unat (word_of_nat s :: u32) = s" "unat (word_of_nat (length k - s) :: u32) = length k - s"
    "unat (word_of_nat (length v) :: u32) = length v"
    using sk small by (simp_all add: unat_of_nat entry_bytes_def del: of_nat_diff)
  let ?h = "length (entry_bytes s (k, v)) - length (drop s k @ v)"
  let ?po = "off ses i + ?h"
  have hle: "length (drop s k @ v) \<le> length (entry_bytes s (k, v))" by (simp add: entry_bytes_def)
  have po: "length (body ses) - length (drop s k @ v @ ?rest) = ?po" using total hle by simp
  have data: "drop ?po (block_data ses ris) = drop s k @ v @ ?rest @ drop (length (body ses)) (block_data ses ris)"
  proof -
    have "drop ?po (body ses) = drop ?h (entry_bytes s (k, v) @ ?rest)"
      unfolding pos [unfolded take_body, symmetric] drop_drop by (simp only: add.commute)
    also have "\<dots> = drop s k @ v @ ?rest" by (simp add: entry_bytes_def)
    finally have "drop ?po (body ses) = drop s k @ v @ ?rest" .
    moreover have "?po \<le> length (body ses)" using total hle by simp
    ultimately show ?thesis unfolding block_data_def by simp
  qed
  let ?it = "it\<lparr>bi_current := off ses i\<rparr>"
  let ?it1 = "?it\<lparr>bi_key := k, bi_value_offset := ?po + (length k - s), bi_value_length := length v\<rparr>"
  have fields: "bi_restarts it = length (body ses)" "bi_data it = block_data ses ris" using blk by (simp_all add: block_iter_def)
  have lt: "\<not> length (body ses) \<le> off ses i" using off_less [OF i, of ses] by simp
  have key: "\<not> length (bi_key it) < s" "take s (bi_key it) = take s k" using rd i e by (simp_all add: ready_def)
  have newkey: "take s (bi_key it) @ take (length k - s) (drop ?po (block_data ses ris)) = k"
    unfolding data key(2) by simp
  have P: "ParseNextKey it = (True, ?it1\<lparr>bi_restart_index := advance_restart ?it1 (bi_restart_index it)\<rparr>)"
  proof -
    have f: "bi_restarts ?it = length (body ses)" "bi_current ?it = off ses i" "bi_data ?it = block_data ses ris"
      "bi_key ?it = bi_key it" using fields by simp_all
    show ?thesis
      unfolding ParseNextKey_def next_off Let_def f if_not_P [OF lt] pos dec option.case prod.case nums
        if_not_P [OF key(1)] po newkey
      by simp
  qed
  have blk1: "block_iter ses ris ?it1" using blk by (simp add: block_iter_def)
  have adv: "advance_restart ?it1 (bi_restart_index it) < length ris \<and> ris ! advance_restart ?it1 (bi_restart_index it) \<le> i
    \<and> (advance_restart ?it1 (bi_restart_index it) + 1 < length ris \<longrightarrow> i \<le> ris ! (advance_restart ?it1 (bi_restart_index it) + 1))"
    using rd i by (intro advance_restart_at [OF blk1]) (simp_all add: ready_def)
  have val: "take (length v) (drop (?po + (length k - s)) (block_data ses ris)) = v"
  proof -
    have "drop (?po + (length k - s)) (block_data ses ris) = drop (length k - s) (drop ?po (block_data ses ris))"
      by (simp only: drop_drop add.commute)
    then show ?thesis by (simp only: data) simp
  qed
  have nxt: "?po + (length k - s) + length v = off ses (i + 1)"
    using off_Suc [OF i] hle by (simp add: e)
  show ?thesis
    unfolding P using blk1 i adv val nxt by (auto simp: block_at_def block_iter_def e BlockIter_value_def NextEntryOffset_def)
qed

lemma ParseNextKey_end:
  assumes "ready ses ris (length ses) it"
  shows "\<not> fst (ParseNextKey it) \<and> block_at ses ris (length ses) (snd (ParseNextKey it))"
  using assms by (auto simp: ready_def block_at_def block_iter_def ParseNextKey_def Let_def)

lemma at_ready:
  assumes at: "block_at ses ris i it" and i: "i < length ses"
  shows "ready ses ris (i + 1) it"
proof -
  have "fst (ses ! (i + 1)) \<le> length (bi_key it)
      \<and> take (fst (ses ! (i + 1))) (bi_key it) = take (fst (ses ! (i + 1))) (fst (snd (ses ! (i + 1))))"
    if l: "i + 1 < length ses"
  proof -
    let ?s = "fst (ses ! (i + 1))"
    have sh: "share_ok ses (i + 1)" using at l by (simp add: block_at_def block_iter_def layout_ok_def)
    have key: "bi_key it = fst (snd (ses ! i))" using at i by (simp add: block_at_def)
    have eq: "take ?s (bi_key it) = take ?s (fst (snd (ses ! (i + 1))))" using sh by (simp add: share_ok_def key)
    moreover have "length (take ?s (fst (snd (ses ! (i + 1))))) = ?s" using sh by (simp add: share_ok_def)
    ultimately show ?thesis by (metis length_take min.cobounded1)
  qed
  then show ?thesis using at i by (auto simp: ready_def block_at_def)
qed

lemma SeekToRestartPoint_ready:
  assumes "block_iter ses ris it" "r < length ris"
  shows "ready ses ris (ris ! r) (SeekToRestartPoint r it)"
proof -
  have lay: "layout_ok ses ris" using assms(1) by (simp add: block_iter_def)
  have "ris ! r \<in> set ris" using assms(2) by simp
  then have "ris ! r < length ses \<and> fst (ses ! (ris ! r)) = 0 \<or> ris ! r = 0 \<and> ses = []"
    using lay by (auto simp: layout_ok_def)
  then show ?thesis
    using assms GetRestartPoint_off [OF assms]
    by (auto simp: ready_def block_iter_def SeekToRestartPoint_def NextEntryOffset_def)
qed

lemma parse_while_at:
  assumes "ready ses ris i it" "i \<le> k" "k \<le> length ses"
    and c: "\<And>j it. block_at ses ris j it \<Longrightarrow> j < length ses \<Longrightarrow> before it = C j"
    and run: "\<And>j. i \<le> j \<Longrightarrow> j < k \<Longrightarrow> C j" and stop: "k < length ses \<Longrightarrow> \<not> C k"
  shows "block_at ses ris k (parse_while before it)"
  using assms(1,2) run
proof (induction "k - i" arbitrary: i it)
  case 0
  then have k: "i = k" by simp
  show ?case
  proof (cases "k < length ses")
    case True
    then have p: "fst (ParseNextKey it)" "block_at ses ris k (snd (ParseNextKey it))"
      using ParseNextKey_at 0(2) k by auto
    then have "parse_while before it = snd (ParseNextKey it)"
      using c stop True by (subst parse_while.simps) (simp add: Let_def)
    then show ?thesis using p by simp
  next
    case False
    then have p: "\<not> fst (ParseNextKey it) \<and> block_at ses ris k (snd (ParseNextKey it))"
      using ParseNextKey_end 0(2) k assms(3) by (metis le_antisym not_less)
    then have "parse_while before it = snd (ParseNextKey it)" by (subst parse_while.simps) (simp add: Let_def)
    then show ?thesis using p by simp
  qed
next
  case (Suc n)
  then have i: "i < k" "i < length ses" using assms(3) by simp_all
  have p: "fst (ParseNextKey it)" "block_at ses ris i (snd (ParseNextKey it))"
    using ParseNextKey_at Suc.prems(1) i by auto
  then have "parse_while before it = parse_while before (snd (ParseNextKey it))"
    using c [OF p(2) i(2)] Suc.prems(3) i(1) by (subst parse_while.simps) (simp add: Let_def)
  moreover have "block_at ses ris k (parse_while before (snd (ParseNextKey it)))"
    using Suc.hyps(1) [of "i + 1" "snd (ParseNextKey it)"] Suc.hyps(2) i at_ready [OF p(2) i(2)] Suc.prems(3) by simp
  ultimately show ?case by simp
qed

section \<open>The operations\<close>

lemma at_iter: "block_at ses ris i it \<Longrightarrow> block_iter ses ris it"
  by (simp add: block_at_def)

lemma at_valid:
  assumes "block_at ses ris i it"
  shows "BlockIter_Valid it \<longleftrightarrow> i < length ses"
proof (cases "i < length ses")
  case True
  then show ?thesis using assms off_less [of i "length ses" ses] by (simp add: BlockIter_Valid_def block_at_def block_iter_def)
qed (use assms in \<open>simp add: BlockIter_Valid_def block_at_def\<close>)

lemma block_Next: "block_at ses ris i it \<Longrightarrow> i < length ses \<Longrightarrow> block_at ses ris (i + 1) (BlockIter_Next it)"
  using at_ready ParseNextKey_at ParseNextKey_end unfolding BlockIter_Next_def
  by (metis Suc_eq_plus1 Suc_leI le_neq_implies_less)

lemma first_restart: "layout_ok ses ris \<Longrightarrow> 0 < length ris \<and> ris ! 0 = 0"
  by (auto simp: layout_ok_def hd_conv_nth)

lemma block_SeekToFirst:
  assumes "block_at ses ris i it"
  shows "block_at ses ris 0 (BlockIter_SeekToFirst it)"
proof -
  have blk: "block_iter ses ris it" using assms by (rule at_iter)
  have "0 < length ris \<and> ris ! 0 = 0" using blk first_restart unfolding block_iter_def by blast
  then have "ready ses ris 0 (SeekToRestartPoint 0 it)" using SeekToRestartPoint_ready [OF blk, of 0] by simp
  then show ?thesis
    unfolding BlockIter_SeekToFirst_def using ParseNextKey_at [of ses ris 0] ParseNextKey_end [of ses ris]
    by (cases "ses = []") auto
qed

lemma restart_le_last:
  assumes lay: "layout_ok ses ris" and r: "r < length ris"
  shows "ris ! r \<le> step_back (length ses) (length ses)"
proof -
  have "ris ! r \<in> set ris" using r by simp
  moreover have "\<forall>q\<in>set ris. q < length ses \<or> q = 0" using lay by (auto simp: layout_ok_def)
  ultimately have "ris ! r < length ses \<or> ris ! r = 0" by (rule bspec [rotated])
  then show ?thesis by (cases "length ses") (auto simp: step_back_def)
qed

lemma block_SeekToLast:
  assumes "block_at ses ris i it"
  shows "block_at ses ris (step_back (length ses) (length ses)) (BlockIter_SeekToLast it)"
proof -
  have blk: "block_iter ses ris it" using assms by (rule at_iter)
  have lay: "layout_ok ses ris" and num: "bi_restarts_num it = length ris" using blk by (simp_all add: block_iter_def)
  let ?r = "length ris - 1" and ?k = "step_back (length ses) (length ses)"
  have r: "?r < length ris" using first_restart [OF lay] by simp
  have le: "ris ! ?r \<le> ?k" by (rule restart_le_last [OF lay r])
  show ?thesis
    unfolding BlockIter_SeekToLast_def num
  proof (rule parse_while_at [OF SeekToRestartPoint_ready [OF blk r] le, of "\<lambda>it. NextEntryOffset it < bi_restarts it" "\<lambda>j. j + 1 < length ses"])
    show "?k \<le> length ses" by (simp add: step_back_def)
    show "(NextEntryOffset it < bi_restarts it) = (j + 1 < length ses)" if at: "block_at ses ris j it" "j < length ses" for j it
    proof -
      have "NextEntryOffset it = off ses (j + 1)" "bi_restarts it = off ses (length ses)"
        using at by (simp_all add: block_at_def block_iter_def)
      then show ?thesis using off_less_iff [of "j + 1" ses "length ses"] at(2) by simp
    qed
  qed (auto simp: step_back_def split: if_splits)
qed

lemma restart_before_at:
  assumes "block_iter ses ris it" "i < length ses" "0 < i" "r < length ris"
  shows "\<exists>q. restart_before it (off ses i) r = Some q \<and> q < length ris \<and> ris ! q < i"
  using assms(4)
proof (induction r)
  case 0
  have lay: "layout_ok ses ris" using assms(1) by (simp add: block_iter_def)
  have "GetRestartPoint it 0 = off ses 0" using GetRestartPoint_off [OF assms(1) 0] first_restart [OF lay] by simp
  then have "\<not> off ses i \<le> GetRestartPoint it 0" using off_less [OF assms(3), of ses] assms(2) by simp
  then show ?case using first_restart [OF lay] assms(3) by simp
next
  case (Suc r)
  have "ris ! Suc r \<in> set ris" using Suc.prems by simp
  then have "ris ! Suc r \<le> length ses" using assms(1) by (auto simp: block_iter_def layout_ok_def)
  then have "off ses i \<le> GetRestartPoint it (Suc r) \<longleftrightarrow> i \<le> ris ! Suc r"
    using GetRestartPoint_off [OF assms(1) Suc.prems] off_less_iff [of "ris ! Suc r" ses i] assms(2) by (auto simp: not_less [symmetric])
  then show ?case using Suc by auto
qed

lemma restart_before_first:
  assumes "block_iter ses ris it" "r < length ris"
  shows "restart_before it 0 r = None"
  using assms(2) by (induction r) simp_all

lemma block_Prev:
  assumes at: "block_at ses ris i it" and i: "i < length ses"
  shows "block_at ses ris (step_back (length ses) i) (BlockIter_Prev it)"
proof -
  have blk: "block_iter ses ris it" using at by (rule at_iter)
  have cur: "bi_current it = off ses i" and r: "bi_restart_index it < length ris" using at i by (simp_all add: block_at_def)
  show ?thesis
  proof (cases "i = 0")
    case True
    then have "restart_before it (bi_current it) (bi_restart_index it) = None"
      using cur restart_before_first [OF blk r] by simp
    then show ?thesis using blk True by (simp add: BlockIter_Prev_def block_at_def block_iter_def step_back_def)
  next
    case False
    then obtain q where q: "restart_before it (off ses i) (bi_restart_index it) = Some q" "q < length ris" "ris ! q < i"
      using restart_before_at [OF blk i _ r] by auto
    have "block_at ses ris (i - 1) (parse_while (\<lambda>it. NextEntryOffset it < off ses i) (SeekToRestartPoint q it))"
    proof (rule parse_while_at [OF SeekToRestartPoint_ready [OF blk q(2)], of _ _ "\<lambda>j. j + 1 < i"])
      show "ris ! q \<le> i - 1" "i - 1 \<le> length ses" using q(3) i by simp_all
      show "(NextEntryOffset it < off ses i) = (j + 1 < i)" if a: "block_at ses ris j it" "j < length ses" for j it
        using a off_less_iff [of "j + 1" ses i] i by (simp add: block_at_def)
    qed (use False in auto)
    then show ?thesis using q(1) False by (simp add: BlockIter_Prev_def cur step_back_def)
  qed
qed

context entry_order
begin

lemma restart_search_at:
  assumes blk: "block_iter ses ris it" and srt: "entries_sorted cmp (map snd ses)"
    and l: "left \<le> right" "right < length ris" "left = 0 \<or> cmp (fst (snd (ses ! (ris ! left)))) target < 0 \<and> ris ! left < length ses"
  shows "\<exists>m. restart_search cmp target it left right = Some m \<and> m < length ris
    \<and> (m = 0 \<or> cmp (fst (snd (ses ! (ris ! m)))) target < 0 \<and> ris ! m < length ses)"
  using l
proof (induction "right - left" arbitrary: left right rule: less_induct)
  case less
  show ?case
  proof (cases "left < right")
    case False
    then show ?thesis using less.prems by (subst restart_search.simps) auto
  next
    case True
    define mid where "mid = (left + right + 1) div 2"
    have mid: "left < mid" "mid \<le> right" using True by (auto simp: mid_def)
    then have m: "mid < length ris" "0 < mid" using less.prems(2) by simp_all
    have lay: "layout_ok ses ris" using blk by (simp add: block_iter_def)
    define r where "r = ris ! mid"
    have "r \<in> set ris" using m by (simp add: r_def)
    moreover have "ris ! 0 < r" using lay m by (auto simp: layout_ok_def sorted_wrt_iff_nth_less r_def)
    ultimately have r: "r < length ses" "fst (ses ! r) = 0" using lay by (auto simp: layout_ok_def)
    obtain k v where e: "ses ! r = (0, k, v)" using r(2) by (metis prod.collapse)
    let ?rest = "body (drop (r + 1) ses)"
    have pos: "drop (GetRestartPoint it mid) (take (bi_restarts it) (bi_data it)) = entry_bytes 0 (k, v) @ ?rest"
      using entry_at_off [OF lay r(1)] GetRestartPoint_off [OF blk m(1)] blk e by (simp add: block_iter_def r_def)
    have total: "off ses r + length (entry_bytes 0 (k, v) @ ?rest) = length (body ses)"
      using arg_cong [OF body_split [OF r(1)], of length] by (simp add: off_def e)
    then have small: "length (entry_bytes 0 (k, v) @ ?rest) < 2 ^ 32" using layout_length(1) [OF lay] by simp
    have dec: "DecodeEntry (entry_bytes 0 (k, v) @ ?rest) =
        Some (0, word_of_nat (length k), word_of_nat (length v), k @ v @ ?rest)"
      using DecodeEntry_entry [of 0 "(k, v)" ?rest] small by simp
    have klen: "unat (word_of_nat (length k) :: u32) = length k" using small by (simp add: unat_of_nat entry_bytes_def)
    let ?po = "bi_restarts it - length (k @ v @ ?rest)"
    have "drop ?po (body ses) = k @ v @ ?rest"
    proof -
      have "body ses = (body (take r ses) @ EncodeVarint32 (word_of_nat 0) @ EncodeVarint32 (word_of_nat (length k))
          @ EncodeVarint32 (word_of_nat (length v))) @ k @ v @ ?rest"
        using body_split [OF r(1)] e by (simp add: entry_bytes_def)
      moreover have "bi_restarts it = length (body ses)" using blk by (simp add: block_iter_def)
      ultimately show ?thesis by (metis append_eq_conv_conj diff_add_inverse2 length_append)
    qed
    moreover have "?po \<le> length (body ses)" using blk by (simp add: block_iter_def)
    ultimately have key: "take (length k) (drop ?po (bi_data it)) = k"
      using blk by (simp add: block_iter_def block_data_def)
    have step: "restart_search cmp target it left right =
        (if cmp k target < 0 then restart_search cmp target it mid right else restart_search cmp target it left (mid - 1))"
      by (subst restart_search.simps) (simp only: True Let_def mid_def [symmetric] pos dec option.case prod.case klen key if_True refl not_True_eq_False if_False simp_thms)
    show ?thesis
    proof (cases "cmp k target < 0")
      case lt: True
      have "right - mid < right - left" using mid by simp
      then show ?thesis using less.hyps [of right mid] less.prems(2) mid(2) lt r(1) e step by (simp add: r_def)
    next
      case False
      have "(mid - 1) - left < right - left" "left \<le> mid - 1" "mid - 1 < length ris" using mid less.prems(2) by simp_all
      then show ?thesis using less.hyps [of "mid - 1" left] less.prems(3) False step by simp
    qed
  qed
qed

lemma block_Seek:
  assumes at: "block_at ses ris i it" and srt: "entries_sorted cmp (map snd ses)"
  shows "block_at ses ris (lower_bound cmp target (map snd ses)) (BlockIter_Seek cmp target it)"
proof -
  let ?es = "map snd ses"
  let ?k = "lower_bound cmp target ?es"
  have blk: "block_iter ses ris it" using at by (rule at_iter)
  have lay: "layout_ok ses ris" and num: "bi_restarts_num it = length ris" using blk by (simp_all add: block_iter_def)
  have less: "cmp (fst (snd (ses ! j))) target < 0 \<longleftrightarrow> j < ?k" if "j < length ses" for j
    using cut_nth [OF srt down_less, of j target] that by (simp add: lower_bound_cut)
  have kle: "?k \<le> length ses" using cut_le [of "\<lambda>a. cmp a target < 0" ?es] by (simp add: lower_bound_cut)
  have val: "BlockIter_Valid it \<longleftrightarrow> i < length ses"
    using at by (rule at_valid)
  have cur: "bi_key it = fst (snd (ses ! i))" "bi_restart_index it < length ris" "ris ! bi_restart_index it \<le> i" if "i < length ses"
    using at that by (simp_all add: block_at_def)
  have scan: "block_at ses ris ?k (parse_while (\<lambda>it. cmp (bi_key it) target < 0) it')"
    if rd: "ready ses ris j it'" "j \<le> ?k" for it' j
  proof (rule parse_while_at [OF rd kle, of _ "\<lambda>j. j < ?k"])
    show "(cmp (bi_key it) target < 0) = (j < ?k)" if a: "block_at ses ris j it" "j < length ses" for j it
      using a less by (simp add: block_at_def)
  qed auto
  define c where "c = (if BlockIter_Valid it then cmp (bi_key it) target else 0)"
  define left where "left = (if c < 0 then bi_restart_index it else 0)"
  define right where "right = (if 0 < c then bi_restart_index it else bi_restarts_num it - 1)"
  show ?thesis
  proof (cases "BlockIter_Valid it \<and> c = 0")
    case True
    then have i: "i < length ses" and z: "cmp (fst (?es ! i)) target = 0" using val cur by (auto simp: c_def)
    have "cmp a target < 0 \<longleftrightarrow> cmp a (fst (?es ! i)) < 0" for a using cmp_zero_right [OF z] by blast
    then have "?k = i" using cut_nth_less(1) [OF srt, of i] i by (simp add: lower_bound_cut)
    moreover have "BlockIter_Seek cmp target it = it"
      unfolding BlockIter_Seek_def Let_def c_def [symmetric] by (rule if_P [OF True])
    ultimately show ?thesis using at by simp
  next
    case False
    have cneg: "i < length ses \<and> i < ?k" if "c < 0"
      using that val less cur by (auto simp: c_def split: if_splits)
    have "left \<le> right" "right < length ris"
      using first_restart [OF lay] cur val by (auto simp: left_def right_def num c_def split: if_splits)
    moreover have "left = 0 \<or> cmp (fst (snd (ses ! (ris ! left)))) target < 0 \<and> ris ! left < length ses"
    proof (cases "c < 0")
      case True
      then have "ris ! left \<le> i" "i < length ses" "i < ?k" using cneg cur by (simp_all add: left_def)
      then show ?thesis using less [of "ris ! left"] by simp
    qed (simp add: left_def)
    ultimately obtain m where m: "restart_search cmp target it left right = Some m" "m < length ris"
      "m = 0 \<or> cmp (fst (snd (ses ! (ris ! m)))) target < 0 \<and> ris ! m < length ses"
      using restart_search_at [OF blk srt] by blast
    have rm: "ris ! m \<le> ?k" using m(3) less [of "ris ! m"] first_restart [OF lay] by auto
    have "BlockIter_Seek cmp target it = parse_while (\<lambda>it. cmp (bi_key it) target < 0)
        (if \<not> (m = bi_restart_index it \<and> c < 0) then SeekToRestartPoint m it else it)"
      unfolding BlockIter_Seek_def Let_def c_def [symmetric] left_def [symmetric] right_def [symmetric] if_not_P [OF False]
        m(1) option.case ..
    also have "block_at ses ris ?k \<dots>"
    proof (cases "m = bi_restart_index it \<and> c < 0")
      case True
      then have "ready ses ris (i + 1) it" "i + 1 \<le> ?k" using at_ready [OF at] cneg by auto
      then show ?thesis using scan True by simp
    next
      case False
      then show ?thesis using scan [OF SeekToRestartPoint_ready [OF blk m(2)] rm] by simp
    qed
    finally show ?thesis .
  qed
qed

end

definition block_rep :: "(bytes \<Rightarrow> bytes \<Rightarrow> int) \<Rightarrow> BlockIter \<Rightarrow> entries \<Rightarrow> nat \<Rightarrow> bool" where
  "block_rep cmp it es i \<longleftrightarrow> entries_sorted cmp es \<and> (\<exists>ses ris. es = map snd ses \<and> block_at ses ris i it)"

context entry_order
begin

lemma block_iterator: "sorted_iterator cmp (BlockIter_ops cmp) (block_rep cmp)"
proof unfold_locales
  fix it es i assume rep: "block_rep cmp it es i"
  obtain ses ris where es: "es = map snd ses" and at: "block_at ses ris i it" and srt: "entries_sorted cmp es"
    using rep by (auto simp: block_rep_def)
  note repI = exI [of _ ses, THEN conjI [OF srt]]
  show "entries_sorted cmp es" "i \<le> length es" using srt at es by (simp_all add: block_at_def)
  show "i_valid (BlockIter_ops cmp) it \<longleftrightarrow> i < length es"
    using at_valid [OF at] es by (simp add: BlockIter_ops_def)
  show "i_status (BlockIter_ops cmp) it = Status_OK" using at by (simp add: BlockIter_ops_def block_at_def block_iter_def)
  show "block_rep cmp (i_seek_first (BlockIter_ops cmp) it) es 0"
    "block_rep cmp (i_seek_last (BlockIter_ops cmp) it) es (step_back (length es) (length es))"
    "block_rep cmp (i_seek (BlockIter_ops cmp) target it) es (lower_bound cmp target es)" for target
    using block_SeekToFirst [OF at] block_SeekToLast [OF at] block_Seek [OF at] srt es
    by (auto simp: BlockIter_ops_def block_rep_def)
  assume i: "i < length es"
  show "i_key (BlockIter_ops cmp) it = fst (es ! i)" "i_value (BlockIter_ops cmp) it = snd (es ! i)"
    using at i es by (simp_all add: BlockIter_ops_def block_at_def)
  show "block_rep cmp (i_next (BlockIter_ops cmp) it) es (i + 1)"
    "block_rep cmp (i_prev (BlockIter_ops cmp) it) es (step_back (length es) i)"
    using block_Next [OF at] block_Prev [OF at] srt es i by (auto simp: BlockIter_ops_def block_rep_def)
qed

end

section \<open>What the builder writes\<close>

text \<open>The entries added so far, and the restart points.\<close>

definition built :: "BlockBuilder \<Rightarrow> (nat \<times> bytes \<times> bytes) list \<Rightarrow> nat list \<Rightarrow> bool" where
  "built b ses ris \<longleftrightarrow> bb_buffer b = body ses \<and> bb_restarts b = map (\<lambda>i. word_of_nat (off ses i)) ris
     \<and> bb_last_key b = (if ses = [] then [] else fst (snd (last ses))) \<and> length (bb_last_key b) \<le> length (body ses)
     \<and> (ses = [] \<longrightarrow> bb_counter b = 0) \<and> ris \<noteq> [] \<and> hd ris = 0 \<and> sorted_wrt (<) ris
     \<and> (\<forall>r\<in>set ris. r < length ses \<and> fst (ses ! r) = 0 \<or> r = 0 \<and> ses = [])
     \<and> (\<forall>i<length ses. fst (ses ! i) \<le> length (fst (snd (ses ! i))) \<and> length (fst (snd (ses ! i))) \<le> length (body ses)
          \<and> (0 < i \<longrightarrow> take (fst (ses ! i)) (fst (snd (ses ! (i - 1)))) = take (fst (ses ! i)) (fst (snd (ses ! i)))))"

lemma body_snoc: "body (ses @ [(s, e)]) = body ses @ entry_bytes s e"
  by (simp add: body_def)

lemma off_snoc: "i \<le> length ses \<Longrightarrow> off (ses @ [x]) i = off ses i"
  by (simp add: off_def)

lemma built_new: "built BlockBuilder_new [] [0]"
  by (simp add: built_def BlockBuilder_new_def body_def off_def)

lemma built_step:
  assumes b: "built b ses ris" and s: "s \<le> length k" "take s (bb_last_key b) = take s k" "s \<le> length (bb_last_key b)"
    and ris': "ris' = ris \<or> ses \<noteq> [] \<and> s = 0 \<and> ris' = ris @ [length ses]"
    and b': "bb_buffer b' = body ses @ entry_bytes s (k, v)"
      "bb_restarts b' = map (\<lambda>i. word_of_nat (off ses i)) ris'" "bb_last_key b' = k"
  shows "built b' (ses @ [(s, k, v)]) ris'"
proof -
  let ?ses = "ses @ [(s, k, v)]"
  have below: "r < length ses \<or> r = 0" if "r \<in> set ris" for r using b that by (auto simp: built_def)
  have below': "r \<le> length ses" if "r \<in> set ris'" for r using below [of r] that ris' by auto
  have long: "length k \<le> length (body ?ses)"
    using b s by (auto simp: built_def body_snoc entry_bytes_def)
  have "map (\<lambda>i. word_of_nat (off ?ses i) :: u32) ris' = map (\<lambda>i. word_of_nat (off ses i)) ris'"
    using below' off_snoc by simp
  moreover have "ris' \<noteq> [] \<and> hd ris' = 0" using b ris' by (auto simp: built_def)
  moreover have "sorted_wrt (<) ris'" using b ris' below by (auto simp: built_def sorted_wrt_append)
  moreover have "\<forall>r\<in>set ris'. r < length ?ses \<and> fst (?ses ! r) = 0 \<or> r = 0 \<and> ?ses = []"
  proof
    fix r assume r: "r \<in> set ris'"
    show "r < length ?ses \<and> fst (?ses ! r) = 0 \<or> r = 0 \<and> ?ses = []"
    proof (cases "r < length ses")
      case True
      then have "r \<in> set ris" using r ris' by auto
      then show ?thesis using True b by (auto simp: built_def nth_append)
    next
      case False
      then have r': "r = length ses" using below' [OF r] by simp
      have "s = 0"
      proof (cases "ses = []")
        case True
        then show ?thesis using b s by (simp add: built_def)
      next
        case False
        then have "r \<notin> set ris" using below r' by auto
        then show ?thesis using ris' r by auto
      qed
      then show ?thesis using r' by simp
    qed
  qed
  moreover have "\<forall>i<length ?ses. fst (?ses ! i) \<le> length (fst (snd (?ses ! i)))
      \<and> length (fst (snd (?ses ! i))) \<le> length (body ?ses)
      \<and> (0 < i \<longrightarrow> take (fst (?ses ! i)) (fst (snd (?ses ! (i - 1)))) = take (fst (?ses ! i)) (fst (snd (?ses ! i))))"
  proof (intro allI impI)
    fix i assume i: "i < length ?ses"
    show "fst (?ses ! i) \<le> length (fst (snd (?ses ! i))) \<and> length (fst (snd (?ses ! i))) \<le> length (body ?ses)
      \<and> (0 < i \<longrightarrow> take (fst (?ses ! i)) (fst (snd (?ses ! (i - 1)))) = take (fst (?ses ! i)) (fst (snd (?ses ! i))))"
    proof (cases "i < length ses")
      case True
      then have "i - 1 < length ses" by simp
      then show ?thesis using True b by (auto simp: built_def nth_append body_snoc)
    next
      case False
      then have i': "i = length ses" using i by simp
      show ?thesis
      proof (cases "ses = []")
        case True
        then show ?thesis using i' s long by simp
      next
        case False
        then have "?ses ! (i - 1) = last ses" using i' by (simp add: nth_append last_conv_nth)
        then show ?thesis using i' s long b False by (simp add: built_def)
      qed
    qed
  qed
  ultimately show ?thesis unfolding built_def using b'(1,2,3) long by (simp add: body_snoc)
qed

lemma built_Add:
  assumes b: "built b ses ris" and n: "1 \<le> interval"
  shows "\<exists>s ris'. built (BlockBuilder_Add interval k v b) (ses @ [(s, k, v)]) ris'"
proof (cases "bb_counter b < interval")
  case True
  let ?s = "shared_prefix (bb_last_key b) k"
  have "built (BlockBuilder_Add interval k v b) (ses @ [(?s, k, v)]) ris"
    using b True take_shared_prefix [of "bb_last_key b" k] shared_prefix_le [of "bb_last_key b" k]
    by (intro built_step [OF b]) (auto simp: BlockBuilder_Add_def Let_def built_def entry_bytes_def PutVarint32_def)
  then show ?thesis by blast
next
  case False
  then have "ses \<noteq> []" using b n by (auto simp: built_def)
  then have "built (BlockBuilder_Add interval k v b) (ses @ [(0, k, v)]) (ris @ [length ses])"
    using b False by (intro built_step [OF b]) (auto simp: BlockBuilder_Add_def Let_def built_def entry_bytes_def PutVarint32_def)
  then show ?thesis by blast
qed

text \<open>The contents of a block with these entries.\<close>

definition BuildBlock :: "nat \<Rightarrow> entries \<Rightarrow> bytes" where
  "BuildBlock interval es =
     fst (BlockBuilder_Finish (foldl (\<lambda>b (k, v). BlockBuilder_Add interval k v b) BlockBuilder_new es))"

lemma built_all:
  assumes "1 \<le> interval"
  shows "\<exists>ses ris. map snd ses = es \<and> built (foldl (\<lambda>b (k, v). BlockBuilder_Add interval k v b) BlockBuilder_new es) ses ris"
proof (induction es rule: rev_induct)
  case Nil
  then show ?case using built_new by auto
next
  case (snoc e es)
  obtain ses ris where ih: "map snd ses = es" "built (foldl (\<lambda>b (k, v). BlockBuilder_Add interval k v b) BlockBuilder_new es) ses ris"
    using snoc by blast
  obtain k v where e: "e = (k, v)" by (cases e)
  obtain s ris' where "built (BlockBuilder_Add interval k v (foldl (\<lambda>b (k, v). BlockBuilder_Add interval k v b) BlockBuilder_new es))
      (ses @ [(s, k, v)]) ris'" using built_Add [OF ih(2) assms] by blast
  then show ?case using ih(1) e by (intro exI [of _ "ses @ [(s, k, v)]"] exI [of _ ris']) simp
qed

lemma built_Finish: "built b ses ris \<Longrightarrow> fst (BlockBuilder_Finish b) = block_data ses ris"
proof -
  have put: "foldl PutFixed32 buf ws = buf @ concat (map EncodeFixed32 ws)" for buf ws
    by (induction ws arbitrary: buf) (simp_all add: PutFixed32_def)
  show "built b ses ris \<Longrightarrow> fst (BlockBuilder_Finish b) = block_data ses ris"
    by (simp add: built_def BlockBuilder_Finish_def Let_def put PutFixed32_def block_data_def comp_def)
qed

lemma built_layout: "built b ses ris \<Longrightarrow> length (block_data ses ris) < 2 ^ 32 \<Longrightarrow> layout_ok ses ris"
  unfolding built_def layout_ok_def share_ok_def block_data_def by fastforce

lemma block_open:
  assumes lay: "layout_ok ses ris"
  shows "\<exists>it. Block_NewIterator (Block_new (block_data ses ris)) = Inr it \<and> block_at ses ris (length ses) it"
proof -
  let ?d = "block_data ses ris"
  let ?r = "concat (map (\<lambda>i. EncodeFixed32 (word_of_nat (off ses i))) ris)"
  have rlen: "length ?r = 4 * length ris" by (simp add: length_concat comp_def sum_list_triv)
  have len: "length ?d = length (body ses) + 4 * length ris + 4" by (simp add: block_data_def rlen)
  have ne: "0 < length ris" using first_restart [OF lay] by simp
  have "drop (length ?d - 4) ?d = EncodeFixed32 (word_of_nat (length ris))"
    unfolding len by (simp add: block_data_def rlen)
  then have num: "RestartsNum ?d (length ?d) = length ris"
    using layout_length(2) [OF lay] by (simp add: RestartsNum_def unat_of_nat)
  have "Block_new ?d = \<lparr>blk_data = ?d, blk_size = length ?d, blk_restart_offset = length (body ses)\<rparr>"
    unfolding Block_new_def Let_def num by (simp add: len)
  then have "Block_NewIterator (Block_new ?d) = Inr (BlockIter_new ?d (length (body ses)) (length ris))"
    unfolding Block_NewIterator_def Let_def using ne by (simp add: num) (simp add: len)
  then show ?thesis using lay by (simp add: block_at_def block_iter_def BlockIter_new_def)
qed

context entry_order
begin

lemma BuildBlock_reads:
  assumes "1 \<le> interval" "entries_sorted cmp es" "length (BuildBlock interval es) < 2 ^ 32"
  shows "\<exists>it. Block_NewIterator (Block_new (BuildBlock interval es)) = Inr it \<and> block_rep cmp it es (length es)"
proof -
  obtain ses ris where "map snd ses = es" and b: "built (foldl (\<lambda>b (k, v). BlockBuilder_Add interval k v b) BlockBuilder_new es) ses ris"
    using built_all [OF assms(1)] by blast
  moreover from built_Finish [OF b] have d: "BuildBlock interval es = block_data ses ris" by (simp add: BuildBlock_def)
  moreover from built_layout [OF b] have "layout_ok ses ris" using assms(3) d by simp
  from block_open [OF this] obtain it where "Block_NewIterator (Block_new (block_data ses ris)) = Inr it"
    "block_at ses ris (length ses) it" by blast
  ultimately show ?thesis using assms(2) unfolding block_rep_def by (metis length_map)
qed

lemma any_block_iterator: "sorted_iterator cmp (AnyBlockIter_ops cmp) (case_sum empty_rep (block_rep cmp))"
  unfolding AnyBlockIter_ops_def by (rule sum_iterator [OF empty_iterator block_iterator])

lemma BuildBlock_shows:
  assumes "1 \<le> interval" "entries_sorted cmp es" "length (BuildBlock interval es) < 2 ^ 32"
  shows "showing (AnyBlockIter_ops cmp) ms (Block_NewIterator (Block_new (BuildBlock interval es)))
    = cursor_showing cmp es ms (length es)"
proof -
  have "case_sum empty_rep (block_rep cmp) (Block_NewIterator (Block_new (BuildBlock interval es))) es (length es)"
    using BuildBlock_reads [OF assms] by auto
  then show ?thesis by (rule sorted_iterator.showing_rep [OF any_block_iterator])
qed

end

interpretation block: sorted_iterator BytewiseComparatorImpl_Compare "AnyBlockIter_ops BytewiseComparatorImpl_Compare"
    "case_sum empty_rep (block_rep BytewiseComparatorImpl_Compare)"
  by (rule bytewise_order.any_block_iterator)

text \<open>
  C31: A block written with any interval between restart points is read back
  exactly: whatever the client does with its iterator (seek to a key, to the
  first or the last entry, step forward or backward, in any order), it sees
  the entry a cursor in the list of the added entries would be at.
\<close>

theorem Block_roundtrip:
  assumes "1 \<le> interval" "entries_sorted BytewiseComparatorImpl_Compare es" "length (BuildBlock interval es) < 2 ^ 32"
  shows "showing (AnyBlockIter_ops BytewiseComparatorImpl_Compare) ms (Block_NewIterator (Block_new (BuildBlock interval es)))
    = cursor_showing BytewiseComparatorImpl_Compare es ms (length es)"
  by (rule bytewise_order.BuildBlock_shows [OF assms])

theorem Block_roundtrip_witness:
  "showing (AnyBlockIter_ops BytewiseComparatorImpl_Compare) [ToLast, Backward, To [1, 2], Forward]
      (Block_NewIterator (Block_new (BuildBlock 2 [([1], [7]), ([1, 2], [])])))
    = [Some ([1, 2], []), Some ([1], [7]), Some ([1, 2], []), None]"
proof -
  let ?es = "[([1], [7]), ([1, 2], [])] :: entries"
  have "entries_sorted BytewiseComparatorImpl_Compare ?es"
    by (simp add: entries_sorted_def)
  moreover have "length (BuildBlock 2 ?es) = 17" by code_simp
  moreover have "cursor_showing BytewiseComparatorImpl_Compare ?es [ToLast, Backward, To [1, 2], Forward] 2
    = [Some ([1, 2], []), Some ([1], [7]), Some ([1, 2], []), None]"
    by (simp add: cursor_shown_def step_back_def lower_bound_def)
  ultimately show ?thesis
    using Block_roundtrip [of 2 ?es "[ToLast, Backward, To [1, 2], Forward]"] by simp
qed

end
