(* ===== verification/Iter_Merger.thy ===== *)
theory Iter_Merger
  imports Block_Iterator
begin

text \<open>
  The merging iterator of \<^verbatim>\<open>src/table/iter_merger.cc\<close>: several sorted iterators
  seen as one, in both directions.  The children are wrappers; \<^verbatim>\<open>current_\<close> is an
  index into them.  The iterator keeps the contract of its children, for the
  sorted union of their entries.
\<close>

section \<open>The iterator\<close>

record 's MergeIterator =
  m_children :: "'s IteratorWrapper list"
  m_current :: "nat option"
  m_forward :: bool

definition MergeIterator_new :: "'s IterOps \<Rightarrow> 's list \<Rightarrow> 's MergeIterator" where
  "MergeIterator_new ops iters =
     \<lparr>m_children = map (\<lambda>s. Wrapper_new ops (Some s)) iters, m_current = None, m_forward = True\<rparr>"

fun FindSmallest_loop ::
    "(bytes \<Rightarrow> bytes \<Rightarrow> int) \<Rightarrow> 's IteratorWrapper list \<Rightarrow> nat list \<Rightarrow> nat option \<Rightarrow> nat option" where
  "FindSmallest_loop cmp cs [] smallest = smallest"
| "FindSmallest_loop cmp cs (i # is) smallest =
     FindSmallest_loop cmp cs is
       (if w_valid (cs ! i) then
          (case smallest of
             None \<Rightarrow> Some i
           | Some s \<Rightarrow> if cmp (w_key (cs ! i)) (w_key (cs ! s)) < 0 then Some i else smallest)
        else smallest)"

definition FindSmallest :: "(bytes \<Rightarrow> bytes \<Rightarrow> int) \<Rightarrow> 's MergeIterator \<Rightarrow> 's MergeIterator" where
  "FindSmallest cmp m =
     m\<lparr>m_current := FindSmallest_loop cmp (m_children m) [0..<length (m_children m)] None\<rparr>"

fun FindLargest_loop ::
    "(bytes \<Rightarrow> bytes \<Rightarrow> int) \<Rightarrow> 's IteratorWrapper list \<Rightarrow> nat list \<Rightarrow> nat option \<Rightarrow> nat option" where
  "FindLargest_loop cmp cs [] largest = largest"
| "FindLargest_loop cmp cs (i # is) largest =
     FindLargest_loop cmp cs is
       (if w_valid (cs ! i) then
          (case largest of
             None \<Rightarrow> Some i
           | Some l \<Rightarrow> if 0 < cmp (w_key (cs ! i)) (w_key (cs ! l)) then Some i else largest)
        else largest)"

definition FindLargest :: "(bytes \<Rightarrow> bytes \<Rightarrow> int) \<Rightarrow> 's MergeIterator \<Rightarrow> 's MergeIterator" where
  "FindLargest cmp m =
     m\<lparr>m_current := FindLargest_loop cmp (m_children m) (rev [0..<length (m_children m)]) None\<rparr>"

definition Merge_Valid :: "'s MergeIterator \<Rightarrow> bool" where
  "Merge_Valid m \<longleftrightarrow> m_current m \<noteq> None"

definition Merge_key :: "'s MergeIterator \<Rightarrow> bytes" where
  "Merge_key m = (case m_current m of None \<Rightarrow> [] | Some c \<Rightarrow> w_key (m_children m ! c))"

definition Merge_value :: "'s IterOps \<Rightarrow> 's MergeIterator \<Rightarrow> bytes" where
  "Merge_value ops m = (case m_current m of None \<Rightarrow> [] | Some c \<Rightarrow> Wrapper_value ops (m_children m ! c))"

fun Merge_status_loop :: "'s IterOps \<Rightarrow> 's IteratorWrapper list \<Rightarrow> Status" where
  "Merge_status_loop ops [] = Status_OK"
| "Merge_status_loop ops [w] = Wrapper_status ops w"
| "Merge_status_loop ops (w # ws) =
     (let s = Wrapper_status ops w in if \<not> ok s then s else Merge_status_loop ops ws)"

definition Merge_SeekToFirst ::
    "(bytes \<Rightarrow> bytes \<Rightarrow> int) \<Rightarrow> 's IterOps \<Rightarrow> 's MergeIterator \<Rightarrow> 's MergeIterator" where
  "Merge_SeekToFirst cmp ops m =
     (FindSmallest cmp (m\<lparr>m_children := map (Wrapper_SeekToFirst ops) (m_children m)\<rparr>))\<lparr>m_forward := True\<rparr>"

definition Merge_SeekToLast ::
    "(bytes \<Rightarrow> bytes \<Rightarrow> int) \<Rightarrow> 's IterOps \<Rightarrow> 's MergeIterator \<Rightarrow> 's MergeIterator" where
  "Merge_SeekToLast cmp ops m =
     (FindLargest cmp (m\<lparr>m_children := map (Wrapper_SeekToLast ops) (m_children m)\<rparr>))\<lparr>m_forward := False\<rparr>"

definition Merge_Seek ::
    "(bytes \<Rightarrow> bytes \<Rightarrow> int) \<Rightarrow> 's IterOps \<Rightarrow> bytes \<Rightarrow> 's MergeIterator \<Rightarrow> 's MergeIterator" where
  "Merge_Seek cmp ops target m =
     (FindSmallest cmp (m\<lparr>m_children := map (Wrapper_Seek ops target) (m_children m)\<rparr>))\<lparr>m_forward := True\<rparr>"

definition others :: "('s IteratorWrapper \<Rightarrow> 's IteratorWrapper) \<Rightarrow> nat \<Rightarrow> 's IteratorWrapper list \<Rightarrow> 's IteratorWrapper list" where
  "others f c ws = map (\<lambda>i. if i = c then ws ! i else f (ws ! i)) [0..<length ws]"

text \<open>
  Turning round: the children that are not current are put just after, or just
  before, the current key.
\<close>

definition turn_forward :: "(bytes \<Rightarrow> bytes \<Rightarrow> int) \<Rightarrow> 's IterOps \<Rightarrow> bytes \<Rightarrow> 's IteratorWrapper \<Rightarrow> 's IteratorWrapper" where
  "turn_forward cmp ops key w =
     (let w = Wrapper_Seek ops key w
      in if w_valid w \<and> cmp key (w_key w) = 0 then Wrapper_Next ops w else w)"

definition turn_reverse :: "'s IterOps \<Rightarrow> bytes \<Rightarrow> 's IteratorWrapper \<Rightarrow> 's IteratorWrapper" where
  "turn_reverse ops key w =
     (let w = Wrapper_Seek ops key w
      in if w_valid w then Wrapper_Prev ops w else Wrapper_SeekToLast ops w)"

definition Merge_Next ::
    "(bytes \<Rightarrow> bytes \<Rightarrow> int) \<Rightarrow> 's IterOps \<Rightarrow> 's MergeIterator \<Rightarrow> 's MergeIterator" where
  "Merge_Next cmp ops m =
     (case m_current m of
        None \<Rightarrow> m
      | Some c \<Rightarrow>
          let ws = (if m_forward m then m_children m
                    else others (turn_forward cmp ops (Merge_key m)) c (m_children m))
          in FindSmallest cmp (m\<lparr>m_children := ws[c := Wrapper_Next ops (ws ! c)], m_forward := True\<rparr>))"

definition Merge_Prev ::
    "(bytes \<Rightarrow> bytes \<Rightarrow> int) \<Rightarrow> 's IterOps \<Rightarrow> 's MergeIterator \<Rightarrow> 's MergeIterator" where
  "Merge_Prev cmp ops m =
     (case m_current m of
        None \<Rightarrow> m
      | Some c \<Rightarrow>
          let ws = (if \<not> m_forward m then m_children m
                    else others (turn_reverse ops (Merge_key m)) c (m_children m))
          in FindLargest cmp (m\<lparr>m_children := ws[c := Wrapper_Prev ops (ws ! c)], m_forward := False\<rparr>))"

definition Merge_ops :: "(bytes \<Rightarrow> bytes \<Rightarrow> int) \<Rightarrow> 's IterOps \<Rightarrow> 's MergeIterator IterOps" where
  "Merge_ops cmp ops =
     \<lparr>i_valid = Merge_Valid, i_seek_first = Merge_SeekToFirst cmp ops, i_seek_last = Merge_SeekToLast cmp ops,
      i_seek = Merge_Seek cmp ops, i_next = Merge_Next cmp ops, i_prev = Merge_Prev cmp ops,
      i_key = Merge_key, i_value = Merge_value ops, i_status = Merge_status_loop ops \<circ> m_children\<rparr>"

text \<open>The factory: no child, one child, or several.\<close>

definition NewMergeIterator :: "'s IterOps \<Rightarrow> 's list \<Rightarrow> Status + ('s + 's MergeIterator)" where
  "NewMergeIterator ops children =
     (if children = [] then Inl NewEmptyIterator
      else if length children = 1 then Inr (Inl (children ! 0))
      else Inr (Inr (MergeIterator_new ops children)))"

definition NewMerge_ops :: "(bytes \<Rightarrow> bytes \<Rightarrow> int) \<Rightarrow> 's IterOps \<Rightarrow> (Status + ('s + 's MergeIterator)) IterOps" where
  "NewMerge_ops cmp ops = sum_ops EmptyIterator_ops (sum_ops ops (Merge_ops cmp ops))"

section \<open>Merged entries\<close>

text \<open>The entries \<open>es\<close> are the entries of all children \<open>ess\<close>, whose keys differ.\<close>

definition merges :: "(bytes \<Rightarrow> bytes \<Rightarrow> int) \<Rightarrow> entries list \<Rightarrow> entries \<Rightarrow> bool" where
  "merges cmp ess es \<longleftrightarrow> entries_sorted cmp es \<and> set es = (\<Union>xs\<in>set ess. set xs)
     \<and> (\<forall>xs\<in>set ess. entries_sorted cmp xs)
     \<and> (\<forall>i<length ess. \<forall>j<length ess. \<forall>a\<in>set (ess ! i). \<forall>b\<in>set (ess ! j).
          cmp (fst a) (fst b) = 0 \<longrightarrow> i = j)"

context entry_order
begin

lemma FindSmallest_loop_result:
  assumes "FindSmallest_loop cmp cs is best = r" "\<forall>b. best = Some b \<longrightarrow> w_valid (cs ! b)"
  shows "(r = None \<longleftrightarrow> best = None \<and> (\<forall>i\<in>set is. \<not> w_valid (cs ! i)))
    \<and> (\<forall>c. r = Some c \<longrightarrow> w_valid (cs ! c) \<and> (c \<in> set is \<or> best = Some c)
        \<and> (\<forall>i. (i \<in> set is \<or> best = Some i) \<and> w_valid (cs ! i) \<longrightarrow> cmp (w_key (cs ! c)) (w_key (cs ! i)) \<le> 0))"
  using assms
proof (induction "is" arbitrary: best)
  case Nil
  then show ?case by (auto simp: cmp_refl)
next
  case (Cons i "is")
  define best' where "best' = (if w_valid (cs ! i) then
      (case best of None \<Rightarrow> Some i | Some s \<Rightarrow> if cmp (w_key (cs ! i)) (w_key (cs ! s)) < 0 then Some i else best)
      else best)"
  have r: "FindSmallest_loop cmp cs is best' = r" using Cons.prems(1) by (simp add: best'_def)
  have val: "\<forall>b. best' = Some b \<longrightarrow> w_valid (cs ! b)"
    using Cons.prems(2) by (auto simp: best'_def split: option.splits if_splits)
  note ih = Cons.IH [OF r val]
  have none: "best' = None \<longleftrightarrow> best = None \<and> \<not> w_valid (cs ! i)" by (auto simp: best'_def split: option.splits)
  have best': "best' = Some c \<Longrightarrow> best = Some c \<or> c = i \<and> w_valid (cs ! i)" for c
    by (auto simp: best'_def split: option.splits if_splits)
  have ge: "\<exists>b. best' = Some b \<and> cmp (w_key (cs ! b)) (w_key (cs ! j)) \<le> 0"
    if "j = i \<or> best = Some j" "w_valid (cs ! j)" for j
    using that Cons.prems(2) by (auto simp: best'_def cmp_refl cmp_le_iff less_imp_le dest: cmp_asym split: option.splits)
  have all: "cmp (w_key (cs ! c)) (w_key (cs ! j)) \<le> 0"
    if c: "r = Some c" and j: "j \<in> set (i # is) \<or> best = Some j" "w_valid (cs ! j)" for c j
  proof (cases "j \<in> set is")
    case True
    then show ?thesis using ih c j(2) by blast
  next
    case False
    then obtain b where b: "best' = Some b" "cmp (w_key (cs ! b)) (w_key (cs ! j)) \<le> 0" using ge j by auto
    have "cmp (w_key (cs ! c)) (w_key (cs ! b)) \<le> 0" using ih c b(1) val by blast
    then show ?thesis using b(2) by (rule cmp_le_trans)
  qed
  have "r = None \<longleftrightarrow> best = None \<and> (\<forall>i\<in>set (i # is). \<not> w_valid (cs ! i))" using ih none by auto
  moreover have "w_valid (cs ! c) \<and> (c \<in> set (i # is) \<or> best = Some c)" if "r = Some c" for c
    using ih that best' by auto
  ultimately show ?case using all by blast
qed

text \<open>The opposite order: looking for the largest is looking for the smallest in it.\<close>

lemma FindLargest_loop_smallest: "FindLargest_loop cmp cs is best = FindSmallest_loop (\<lambda>a b. cmp b a) cs is best"
  by (induction "is" arbitrary: best) (simp_all add: cmp_swap split: option.split)

lemma reverse_order: "entry_order (\<lambda>a b. cmp b a)"
  by unfold_locales (auto simp: cmp_swap intro: cmp_le_trans)

lemmas FindLargest_loop_result = entry_order.FindSmallest_loop_result [OF reverse_order, folded FindLargest_loop_smallest]

text \<open>The first entry outside a cut is the first one outside it of some child.\<close>

lemma merges_sorted: "merges cmp ess es \<Longrightarrow> j < length ess \<Longrightarrow> entries_sorted cmp (ess ! j)"
  by (simp add: merges_def)

lemma merges_mem: "merges cmp ess es \<Longrightarrow> j < length ess \<Longrightarrow> e \<in> set (ess ! j) \<Longrightarrow> e \<in> set es"
  by (auto simp: merges_def)

lemma merges_child: "merges cmp ess es \<Longrightarrow> e \<in> set es \<Longrightarrow> \<exists>c<length ess. e \<in> set (ess ! c)"
  unfolding merges_def by (metis UN_E in_set_conv_nth)

lemma merges_child_unique:
  assumes "merges cmp ess es" "i < length ess" "j < length ess" "a \<in> set (ess ! i)" "b \<in> set (ess ! j)" "cmp (fst a) (fst b) = 0"
  shows "i = j"
  using assms unfolding merges_def by blast

lemma merges_outside:
  assumes m: "merges cmp ess es" and P: "down_closed cmp P"
    and j: "j < length ess" "q < length (ess ! j)" "cut_pos P (ess ! j) \<le> q"
  shows "cut_pos P es < length es \<and> cmp (fst (es ! cut_pos P es)) (fst (ess ! j ! q)) \<le> 0"
proof -
  have srt: "entries_sorted cmp es" using m by (simp add: merges_def)
  have "\<not> P (fst (ess ! j ! q))" using cut_nth [OF merges_sorted [OF m j(1)] P j(2)] j(3) by simp
  obtain i where i: "i < length es" "es ! i = ess ! j ! q"
    using merges_mem [OF m j(1)] j(2) by (meson in_set_conv_nth nth_mem)
  have le: "cut_pos P es \<le> i" using \<open>\<not> P _\<close> cut_nth [OF srt P i(1)] i(2) by simp
  then have "cmp (fst (es ! cut_pos P es)) (fst (es ! i)) \<le> 0"
    using entries_nth [OF srt, of "cut_pos P es" i] i(1) by (cases "cut_pos P es = i") (auto simp: cmp_refl)
  then show ?thesis using le i by simp
qed

lemma merges_inside:
  assumes m: "merges cmp ess es" and P: "down_closed cmp P"
    and j: "j < length ess" "q < cut_pos P (ess ! j)"
  shows "0 < cut_pos P es \<and> cmp (fst (ess ! j ! q)) (fst (es ! (cut_pos P es - 1))) \<le> 0"
proof -
  have srt: "entries_sorted cmp es" using m by (simp add: merges_def)
  have q: "q < length (ess ! j)" using j(2) cut_le [of P "ess ! j"] by simp
  have "P (fst (ess ! j ! q))" using cut_nth [OF merges_sorted [OF m j(1)] P q] j(2) by simp
  obtain i where i: "i < length es" "es ! i = ess ! j ! q"
    using merges_mem [OF m j(1)] q by (meson in_set_conv_nth nth_mem)
  have lt: "i < cut_pos P es" using \<open>P _\<close> cut_nth [OF srt P i(1)] i(2) by simp
  have "cmp (fst (es ! i)) (fst (es ! (cut_pos P es - 1))) \<le> 0"
  proof (cases "i = cut_pos P es - 1")
    case False
    then have "i < cut_pos P es - 1" "cut_pos P es - 1 < length es" using lt cut_le [of P es] by auto
    then show ?thesis using entries_nth [OF srt] by (simp add: less_imp_le)
  qed (simp add: cmp_refl)
  then show ?thesis using lt i by simp
qed

text \<open>Where the entry at a cut, and the one before it, is among the children.\<close>

lemma merges_at_cut:
  assumes m: "merges cmp ess es" and P: "down_closed cmp P" and i: "cut_pos P es < length es"
  shows "\<exists>c<length ess. cut_pos P (ess ! c) < length (ess ! c) \<and> ess ! c ! cut_pos P (ess ! c) = es ! cut_pos P es"
proof -
  have srt: "entries_sorted cmp es" using m by (simp add: merges_def)
  let ?e = "es ! cut_pos P es"
  obtain c where c: "c < length ess" "?e \<in> set (ess ! c)" using merges_child [OF m] i by (meson nth_mem)
  then obtain q where q: "q < length (ess ! c)" "ess ! c ! q = ?e" by (meson in_set_conv_nth)
  note sc = merges_sorted [OF m c(1)]
  have "\<not> P (fst ?e)" using cut_nth [OF srt P i] by simp
  then have le: "cut_pos P (ess ! c) \<le> q" using cut_nth [OF sc P q(1)] q(2) by simp
  then have len: "cut_pos P (ess ! c) < length (ess ! c)" using q(1) by simp
  have "q = cut_pos P (ess ! c)"
  proof (rule ccontr)
    assume "q \<noteq> cut_pos P (ess ! c)"
    then have "cmp (fst (ess ! c ! cut_pos P (ess ! c))) (fst ?e) < 0"
      using entries_nth [OF sc, of "cut_pos P (ess ! c)" q] le q by simp
    then show False using merges_outside [OF m P c(1) len] cmp_le_iff by blast
  qed
  then show ?thesis using c(1) len q(2) by blast
qed

lemma merges_before_cut:
  assumes m: "merges cmp ess es" and P: "down_closed cmp P" and i: "0 < cut_pos P es"
  shows "\<exists>c<length ess. 0 < cut_pos P (ess ! c) \<and> ess ! c ! (cut_pos P (ess ! c) - 1) = es ! (cut_pos P es - 1)"
proof -
  have srt: "entries_sorted cmp es" using m by (simp add: merges_def)
  let ?e = "es ! (cut_pos P es - 1)"
  have lt: "cut_pos P es - 1 < length es" using i cut_le [of P es] by simp
  obtain c where c: "c < length ess" "?e \<in> set (ess ! c)" using merges_child [OF m] lt by (meson nth_mem)
  then obtain q where q: "q < length (ess ! c)" "ess ! c ! q = ?e" by (meson in_set_conv_nth)
  note sc = merges_sorted [OF m c(1)]
  have "P (fst ?e)" using cut_nth [OF srt P lt] i by simp
  then have lq: "q < cut_pos P (ess ! c)" using cut_nth [OF sc P q(1)] q(2) by simp
  have "q = cut_pos P (ess ! c) - 1"
  proof (rule ccontr)
    assume "q \<noteq> cut_pos P (ess ! c) - 1"
    then have "cmp (fst ?e) (fst (ess ! c ! (cut_pos P (ess ! c) - 1))) < 0"
      using entries_nth [OF sc, of q "cut_pos P (ess ! c) - 1"] lq q cut_le [of P "ess ! c"] by simp
    moreover have "cut_pos P (ess ! c) - 1 < cut_pos P (ess ! c)" using lq by simp
    ultimately show False using merges_inside [OF m P c(1)] cmp_le_iff by blast
  qed
  then show ?thesis using c(1) lq q(2) by auto
qed

end

section \<open>The merging iterator keeps the contract\<close>

definition merge_rep ::
    "(bytes \<Rightarrow> bytes \<Rightarrow> int) \<Rightarrow> ('s \<Rightarrow> entries \<Rightarrow> nat \<Rightarrow> bool) \<Rightarrow> 's MergeIterator \<Rightarrow> entries \<Rightarrow> nat \<Rightarrow> bool" where
  "merge_rep cmp rep m es i \<longleftrightarrow> (\<exists>ess. length (m_children m) = length ess \<and> merges cmp ess es \<and> i \<le> length es
     \<and> (if i < length es then
          (\<exists>c<length ess. m_current m = Some c \<and> es ! i \<in> set (ess ! c)
            \<and> (\<forall>j<length ess. wrapped rep (m_children m ! j) (ess ! j)
                 (let p = lower_bound cmp (fst (es ! i)) (ess ! j)
                  in if m_forward m \<or> j = c then p else step_back (length (ess ! j)) p)))
        else m_current m = None \<and> (\<forall>j<length ess. \<exists>p. wrapped rep (m_children m ! j) (ess ! j) p)))"

context sorted_iterator
begin

lemma smallest_at_cut:
  assumes m: "merges cmp ess es" and P: "down_closed cmp P" and len: "length (m_children m) = length ess"
    and at: "\<forall>j<length ess. wrapped rep (m_children m ! j) (ess ! j) (cut_pos P (ess ! j))"
    and fwd: "m' = (FindSmallest cmp m)\<lparr>m_forward := True\<rparr>"
  shows "merge_rep cmp rep m' es (cut_pos P es)"
proof -
  let ?cs = "m_children m"
  obtain r where r: "FindSmallest_loop cmp ?cs [0..<length ?cs] None = r" by blast
  have m': "m_children m' = ?cs" "m_current m' = r" "m_forward m'" using fwd r by (simp_all add: FindSmallest_def)
  have srt: "entries_sorted cmp es" using m by (simp add: merges_def)
  have val: "w_valid (?cs ! j) \<longleftrightarrow> cut_pos P (ess ! j) < length (ess ! j)"
    and key: "w_valid (?cs ! j) \<Longrightarrow> w_key (?cs ! j) = fst (ess ! j ! cut_pos P (ess ! j))" if "j < length ess" for j
    using wrapped_at [of "?cs ! j" "ess ! j"] at that by simp_all
  note res = FindSmallest_loop_result [OF r, simplified]
  have none: "r = None \<longleftrightarrow> (\<forall>j<length ess. \<not> cut_pos P (ess ! j) < length (ess ! j))"
    using res val len by auto
  have some: "c < length ess \<and> cut_pos P (ess ! c) < length (ess ! c)
      \<and> (\<forall>j<length ess. cut_pos P (ess ! j) < length (ess ! j) \<longrightarrow>
          cmp (fst (ess ! c ! cut_pos P (ess ! c))) (fst (ess ! j ! cut_pos P (ess ! j))) \<le> 0)" if c: "r = Some c" for c
  proof -
    have "c < length ess" "w_valid (?cs ! c)" using res c len by auto
    moreover have "cmp (w_key (?cs ! c)) (w_key (?cs ! j)) \<le> 0" if "j < length ess" "w_valid (?cs ! j)" for j
      using res c that len by auto
    ultimately show ?thesis using val key by metis
  qed
  show ?thesis
  proof (cases "cut_pos P es < length es")
    case False
    have "\<not> cut_pos P (ess ! j) < length (ess ! j)" if "j < length ess" for j
      using merges_outside [OF m P that, of "cut_pos P (ess ! j)"] False by auto
    then have "r = None" using none by blast
    then show ?thesis using m len at m' cut_le [of P es] False unfolding merge_rep_def by auto
  next
    case True
    let ?e = "es ! cut_pos P es"
    obtain c where c: "c < length ess" "cut_pos P (ess ! c) < length (ess ! c)" "ess ! c ! cut_pos P (ess ! c) = ?e"
      using merges_at_cut [OF m P True] by blast
    then obtain d where d: "r = Some d" using none by auto
    note sd = some [OF d]
    have "cmp (fst ?e) (fst (ess ! d ! cut_pos P (ess ! d))) \<le> 0" using merges_outside [OF m P, of d] sd by blast
    moreover have "cmp (fst (ess ! d ! cut_pos P (ess ! d))) (fst ?e) \<le> 0" using sd c by metis
    ultimately have "cmp (fst (ess ! d ! cut_pos P (ess ! d))) (fst (ess ! c ! cut_pos P (ess ! c))) = 0"
      using cmp_le_iff c(3) by (metis order_antisym_conv linorder_not_less)
    then have "d = c" using merges_child_unique [OF m] sd c by (meson nth_mem)
    have "lower_bound cmp (fst ?e) (ess ! j) = cut_pos P (ess ! j)" if j: "j < length ess" for j
      unfolding lower_bound_cut
    proof (rule cut_cong)
      fix x assume x: "x \<in> set (ess ! j)"
      then obtain q where q: "q < length (ess ! j)" "ess ! j ! q = x" by (meson in_set_conv_nth)
      have Px: "P (fst x) \<longleftrightarrow> q < cut_pos P (ess ! j)" using cut_nth [OF merges_sorted [OF m j] P q(1)] q(2) by simp
      obtain i where i: "i < length es" "es ! i = x" using merges_mem [OF m j x] by (meson in_set_conv_nth)
      have "P (fst x) \<longleftrightarrow> i < cut_pos P es" using cut_nth [OF srt P i(1)] i(2) by simp
      then show "(cmp (fst x) (fst ?e) < 0) = P (fst x)"
        using entries_nth [OF srt, of i "cut_pos P es"] entries_nth [OF srt, of "cut_pos P es" i] i True
        by (cases i "cut_pos P es" rule: linorder_cases) (auto simp: cmp_refl dest: cmp_asym)
    qed
    moreover have "?e \<in> set (ess ! c)" using c by (metis nth_mem)
    ultimately show ?thesis
      using m len at m' True c(1) d \<open>d = c\<close> cut_le [of P es] unfolding merge_rep_def by (auto simp: Let_def)
  qed
qed

lemma largest_at_cut:
  assumes m: "merges cmp ess es" and P: "down_closed cmp P" and len: "length (m_children m) = length ess"
    and at: "\<forall>j<length ess. wrapped rep (m_children m ! j) (ess ! j) (step_back (length (ess ! j)) (cut_pos P (ess ! j)))"
    and rev: "m' = (FindLargest cmp m)\<lparr>m_forward := False\<rparr>"
  shows "merge_rep cmp rep m' es (step_back (length es) (cut_pos P es))"
proof -
  let ?cs = "m_children m"
  obtain r where r: "FindLargest_loop cmp ?cs (List.rev [0..<length ?cs]) None = r" by blast
  have m': "m_children m' = ?cs" "m_current m' = r" "\<not> m_forward m'" using rev r by (simp_all add: FindLargest_def)
  have srt: "entries_sorted cmp es" using m by (simp add: merges_def)
  have val: "w_valid (?cs ! j) \<longleftrightarrow> 0 < cut_pos P (ess ! j)"
    and key: "w_valid (?cs ! j) \<Longrightarrow> w_key (?cs ! j) = fst (ess ! j ! (cut_pos P (ess ! j) - 1))" if "j < length ess" for j
    using wrapped_at [OF at [rule_format, OF that]] cut_le [of P "ess ! j"]
    by (auto simp: step_back_def split: if_splits)
  note res = FindLargest_loop_result [OF r, simplified]
  have none: "r = None \<longleftrightarrow> (\<forall>j<length ess. \<not> 0 < cut_pos P (ess ! j))"
    using res val len by auto
  have some: "c < length ess \<and> 0 < cut_pos P (ess ! c)
      \<and> (\<forall>j<length ess. 0 < cut_pos P (ess ! j) \<longrightarrow>
          cmp (fst (ess ! j ! (cut_pos P (ess ! j) - 1))) (fst (ess ! c ! (cut_pos P (ess ! c) - 1))) \<le> 0)"
    if c: "r = Some c" for c
  proof -
    have "c < length ess" "w_valid (?cs ! c)" using res c len by auto
    moreover have "cmp (w_key (?cs ! j)) (w_key (?cs ! c)) \<le> 0" if "j < length ess" "w_valid (?cs ! j)" for j
      using res c that len by auto
    ultimately show ?thesis using val key by metis
  qed
  show ?thesis
  proof (cases "0 < cut_pos P es")
    case False
    have "\<not> 0 < cut_pos P (ess ! j)" if "j < length ess" for j
      using merges_inside [OF m P that, of 0] False by auto
    then have "r = None" using none by blast
    then show ?thesis using m len at m' False unfolding merge_rep_def step_back_def by auto
  next
    case True
    let ?p = "cut_pos P es - 1"
    let ?e = "es ! ?p"
    have p: "?p < length es" using True cut_le [of P es] by simp
    obtain c where c: "c < length ess" "0 < cut_pos P (ess ! c)" "ess ! c ! (cut_pos P (ess ! c) - 1) = ?e"
      using merges_before_cut [OF m P True] by blast
    then obtain d where d: "r = Some d" using none by auto
    note sd = some [OF d]
    have "cut_pos P (ess ! d) - 1 < cut_pos P (ess ! d)" using sd by simp
    from merges_inside [OF m P _ this]
    have "cmp (fst (ess ! d ! (cut_pos P (ess ! d) - 1))) (fst ?e) \<le> 0" using sd by blast
    moreover have "cmp (fst ?e) (fst (ess ! d ! (cut_pos P (ess ! d) - 1))) \<le> 0" using sd c by metis
    ultimately have z: "cmp (fst (ess ! d ! (cut_pos P (ess ! d) - 1))) (fst (ess ! c ! (cut_pos P (ess ! c) - 1))) = 0"
      using cmp_le_iff c(3) by (metis order_antisym_conv linorder_not_less)
    have lc: "cut_pos P (ess ! j) - 1 < length (ess ! j)" if "0 < cut_pos P (ess ! j)" for j
      using that cut_le [of P "ess ! j"] by simp
    have "d = c" using merges_child_unique [OF m _ _ _ _ z] sd c lc by (meson nth_mem)
    have lbc: "lower_bound cmp (fst ?e) (ess ! c) = cut_pos P (ess ! c) - 1"
      using cut_nth_less(1) [OF merges_sorted [OF m c(1)] lc [OF c(2)]] c(3) by (simp add: lower_bound_cut)
    have lbj: "lower_bound cmp (fst ?e) (ess ! j) = cut_pos P (ess ! j)" if j: "j < length ess" "j \<noteq> c" for j
      unfolding lower_bound_cut
    proof (rule cut_cong)
      fix x assume x: "x \<in> set (ess ! j)"
      then obtain q where q: "q < length (ess ! j)" "ess ! j ! q = x" by (meson in_set_conv_nth)
      obtain i where i: "i < length es" "es ! i = x" using merges_mem [OF m j(1) x] by (meson in_set_conv_nth)
      have "P (fst x) \<longleftrightarrow> i < cut_pos P es" using cut_nth [OF srt P i(1)] i(2) by simp
      moreover have "x \<noteq> ?e"
        using merges_child_unique [OF m j(1) c(1) x, of ?e] c lc j(2) by (metis cmp_refl nth_mem)
      then have "i \<noteq> ?p" using i by auto
      ultimately show "(cmp (fst x) (fst ?e) < 0) = P (fst x)"
        using entries_nth [OF srt, of i ?p] entries_nth [OF srt, of ?p i] i p True
        by (cases i ?p rule: linorder_cases) (auto dest: cmp_asym)
    qed
    have "?e \<in> set (ess ! c)" using c lc by (metis nth_mem)
    moreover have "wrapped rep (?cs ! j) (ess ! j)
        (let q = lower_bound cmp (fst ?e) (ess ! j) in if False \<or> j = c then q else step_back (length (ess ! j)) q)"
      if j: "j < length ess" for j
      using at [rule_format, OF j] lbc lbj [OF j] c(2) by (cases "j = c") (auto simp: step_back_def Let_def)
    moreover have "step_back (length es) (cut_pos P es) = ?p" using True by (simp add: step_back_def)
    ultimately show ?thesis
      using m len m' p c(1) d \<open>d = c\<close> unfolding merge_rep_def by (intro exI [of _ ess]) (auto intro!: exI [of _ c])
  qed
qed

lemma down_False: "down_closed cmp (\<lambda>a. False)" and down_True: "down_closed cmp (\<lambda>a. True)"
  by (simp_all add: down_closed_def)

lemma merge_repE:
  assumes "merge_rep cmp rep m es i"
  obtains ess where "length (m_children m) = length ess" "merges cmp ess es" "i \<le> length es"
    "\<And>j. j < length ess \<Longrightarrow> \<exists>p. wrapped rep (m_children m ! j) (ess ! j) p"
  using assms unfolding merge_rep_def by (cases "i < length es") auto

lemma merge_rep_currentE:
  assumes "merge_rep cmp rep m es i" "i < length es"
  obtains ess c where "length (m_children m) = length ess" "merges cmp ess es" "c < length ess" "m_current m = Some c"
    "es ! i \<in> set (ess ! c)"
    "\<And>j. j < length ess \<Longrightarrow> wrapped rep (m_children m ! j) (ess ! j)
       (let p = lower_bound cmp (fst (es ! i)) (ess ! j) in if m_forward m \<or> j = c then p else step_back (length (ess ! j)) p)"
  using assms unfolding merge_rep_def by auto

text \<open>The entry at the position, in its child and in the others.\<close>

lemma current_in_child:
  assumes m: "merges cmp ess es" "c < length ess" "es ! i \<in> set (ess ! c)" "i < length es"
  shows "lower_bound cmp (fst (es ! i)) (ess ! c) < length (ess ! c)"
    "ess ! c ! lower_bound cmp (fst (es ! i)) (ess ! c) = es ! i"
    "cut_pos (\<lambda>a. cmp a (fst (es ! i)) \<le> 0) (ess ! c) = lower_bound cmp (fst (es ! i)) (ess ! c) + 1"
proof -
  obtain q where q: "q < length (ess ! c)" "ess ! c ! q = es ! i" using m(3) by (meson in_set_conv_nth)
  have lb: "lower_bound cmp (fst (es ! i)) (ess ! c) = q"
    using cut_nth_less(1) [OF merges_sorted [OF m(1,2)] q(1)] q(2) by (simp add: lower_bound_cut)
  then show "lower_bound cmp (fst (es ! i)) (ess ! c) < length (ess ! c)"
    "ess ! c ! lower_bound cmp (fst (es ! i)) (ess ! c) = es ! i" using q by simp_all
  show "cut_pos (\<lambda>a. cmp a (fst (es ! i)) \<le> 0) (ess ! c) = lower_bound cmp (fst (es ! i)) (ess ! c) + 1"
    using cut_nth_less(2) [OF merges_sorted [OF m(1,2)] q(1)] q(2) lb by simp
qed

lemma not_in_other:
  assumes m: "merges cmp ess es" "c < length ess" "es ! i \<in> set (ess ! c)" "j < length ess" "j \<noteq> c" "x \<in> set (ess ! j)"
  shows "cmp (fst (es ! i)) (fst x) \<noteq> 0"
  using merges_child_unique [OF m(1,2,4,3,6)] m(5) by blast

lemma other_cut:
  assumes m: "merges cmp ess es" "c < length ess" "es ! i \<in> set (ess ! c)" "j < length ess" "j \<noteq> c"
  shows "cut_pos (\<lambda>a. cmp a (fst (es ! i)) \<le> 0) (ess ! j) = lower_bound cmp (fst (es ! i)) (ess ! j)"
  unfolding lower_bound_cut
proof (rule cut_cong)
  fix x assume "x \<in> set (ess ! j)"
  then have "cmp (fst x) (fst (es ! i)) \<noteq> 0" using not_in_other [OF m] cmp_zero_sym by blast
  then show "(cmp (fst x) (fst (es ! i)) \<le> 0) = (cmp (fst x) (fst (es ! i)) < 0)" by linarith
qed

lemma Merge_key_current:
  assumes "merge_rep cmp rep m es i" "i < length es"
  shows "Merge_key m = fst (es ! i)" "Merge_value ops m = snd (es ! i)"
proof -
  obtain ess c where c: "merges cmp ess es" "c < length ess" "m_current m = Some c" "es ! i \<in> set (ess ! c)"
    and at: "\<And>j. j < length ess \<Longrightarrow> wrapped rep (m_children m ! j) (ess ! j)
       (let p = lower_bound cmp (fst (es ! i)) (ess ! j) in if m_forward m \<or> j = c then p else step_back (length (ess ! j)) p)"
    using merge_rep_currentE [OF assms] by blast
  have w: "wrapped rep (m_children m ! c) (ess ! c) (lower_bound cmp (fst (es ! i)) (ess ! c))"
    using at [OF c(2)] by (simp add: Let_def)
  note cur = current_in_child [OF c(1,2,4) assms(2)]
  show "Merge_key m = fst (es ! i)" using wrapped_at(2) [OF w cur(1)] cur(2) c(3) by (simp add: Merge_key_def)
  show "Merge_value ops m = snd (es ! i)"
    using wrapped_laws(5) [OF w cur(1)] cur(2) c(3) by (simp add: Merge_value_def)
qed

lemma others_nth: "j < length ws \<Longrightarrow> others f c ws ! j = (if j = c then ws ! j else f (ws ! j))"
  by (simp add: others_def)

lemma others_length [simp]: "length (others f c ws) = length ws"
  by (simp add: others_def)

lemma Merge_Next_rep:
  assumes rep: "merge_rep cmp rep m es i" "i < length es"
  shows "merge_rep cmp rep (Merge_Next cmp ops m) es (i + 1)"
proof -
  obtain ess c where len: "length (m_children m) = length ess" and m: "merges cmp ess es" and c: "c < length ess"
    and cur: "m_current m = Some c" and mem: "es ! i \<in> set (ess ! c)"
    and at: "\<And>j. j < length ess \<Longrightarrow> wrapped rep (m_children m ! j) (ess ! j)
       (let p = lower_bound cmp (fst (es ! i)) (ess ! j) in if m_forward m \<or> j = c then p else step_back (length (ess ! j)) p)"
    using merge_rep_currentE [OF rep] by blast
  let ?k = "fst (es ! i)"
  let ?P = "\<lambda>a. cmp a ?k \<le> 0"
  define ws where "ws = (if m_forward m then m_children m
      else others (turn_forward cmp ops (Merge_key m)) c (m_children m))"
  have wlen: "length ws = length ess" using len by (simp add: ws_def)
  have wsj: "wrapped rep (ws ! j) (ess ! j) (lower_bound cmp ?k (ess ! j))" if j: "j < length ess" for j
  proof (cases "m_forward m \<or> j = c")
    case True
    then show ?thesis using at [OF j] j len by (auto simp: ws_def others_nth Let_def)
  next
    case False
    have sk: "wrapped rep (Wrapper_Seek ops ?k (m_children m ! j)) (ess ! j) (lower_bound cmp ?k (ess ! j))"
      using wrapped_laws(9) [OF at [OF j]] .
    have "\<not> (w_valid (Wrapper_Seek ops ?k (m_children m ! j))
        \<and> cmp ?k (w_key (Wrapper_Seek ops ?k (m_children m ! j))) = 0)"
      using wrapped_at [OF sk] not_in_other [OF m c mem j] False by auto
    then have "turn_forward cmp ops ?k (m_children m ! j) = Wrapper_Seek ops ?k (m_children m ! j)"
      unfolding turn_forward_def Let_def by (rule if_not_P)
    then show ?thesis using sk False j len Merge_key_current(1) [OF rep] by (simp add: ws_def others_nth)
  qed
  let ?m = "m\<lparr>m_children := ws[c := Wrapper_Next ops (ws ! c)], m_forward := True\<rparr>"
  have "wrapped rep (m_children ?m ! j) (ess ! j) (cut_pos ?P (ess ! j))" if j: "j < length ess" for j
  proof (cases "j = c")
    case True
    then show ?thesis
      using wrapped_laws(10) [OF wsj [OF c] current_in_child(1) [OF m c mem rep(2)]]
        current_in_child(3) [OF m c mem rep(2)] wlen c by simp
  next
    case False
    then show ?thesis using wsj [OF j] other_cut [OF m c mem j] by simp
  qed
  moreover have "Merge_Next cmp ops m = (FindSmallest cmp ?m)\<lparr>m_forward := True\<rparr>"
    by (simp add: Merge_Next_def cur ws_def Let_def FindSmallest_def)
  ultimately have "merge_rep cmp rep (Merge_Next cmp ops m) es (cut_pos ?P es)"
    using m wlen by (intro smallest_at_cut [OF _ down_le, of ess es ?m]) auto
  moreover have "cut_pos ?P es = i + 1" using m rep(2) by (intro cut_nth_less(2)) (auto simp: merges_def)
  ultimately show ?thesis by simp
qed

lemma Merge_Prev_rep:
  assumes rep: "merge_rep cmp rep m es i" "i < length es"
  shows "merge_rep cmp rep (Merge_Prev cmp ops m) es (step_back (length es) i)"
proof -
  obtain ess c where len: "length (m_children m) = length ess" and m: "merges cmp ess es" and c: "c < length ess"
    and cur: "m_current m = Some c" and mem: "es ! i \<in> set (ess ! c)"
    and at: "\<And>j. j < length ess \<Longrightarrow> wrapped rep (m_children m ! j) (ess ! j)
       (let p = lower_bound cmp (fst (es ! i)) (ess ! j) in if m_forward m \<or> j = c then p else step_back (length (ess ! j)) p)"
    using merge_rep_currentE [OF rep] by blast
  let ?k = "fst (es ! i)"
  let ?P = "\<lambda>a. cmp a ?k < 0"
  let ?b = "\<lambda>j. step_back (length (ess ! j)) (lower_bound cmp ?k (ess ! j))"
  define ws where "ws = (if \<not> m_forward m then m_children m
      else others (turn_reverse ops (Merge_key m)) c (m_children m))"
  have wlen: "length ws = length ess" using len by (simp add: ws_def)
  have wsj: "wrapped rep (ws ! j) (ess ! j) (?b j)" if j: "j < length ess" "j \<noteq> c" for j
  proof (cases "m_forward m")
    case False
    then show ?thesis using at [OF j(1)] j len by (auto simp: ws_def Let_def)
  next
    case True
    let ?w = "Wrapper_Seek ops ?k (m_children m ! j)"
    have sk: "wrapped rep ?w (ess ! j) (lower_bound cmp ?k (ess ! j))" using wrapped_laws(9) [OF at [OF j(1)]] .
    have "wrapped rep (turn_reverse ops ?k (m_children m ! j)) (ess ! j) (?b j)"
    proof (cases "w_valid ?w")
      case True
      then have "lower_bound cmp ?k (ess ! j) < length (ess ! j)" using wrapped_at(1) [OF sk] by simp
      from wrapped_laws(11) [OF sk this] True show ?thesis by (simp add: turn_reverse_def Let_def)
    next
      case False
      then have "lower_bound cmp ?k (ess ! j) = length (ess ! j)"
        using wrapped_at(1) [OF sk] cut_le [of ?P "ess ! j"] by (simp add: lower_bound_cut)
      with wrapped_laws(8) [OF sk] False show ?thesis by (simp add: turn_reverse_def Let_def)
    qed
    then show ?thesis using True j len Merge_key_current(1) [OF rep] by (simp add: ws_def others_nth)
  qed
  have wsc: "wrapped rep (ws ! c) (ess ! c) (lower_bound cmp ?k (ess ! c))"
    using at [OF c] c len by (auto simp: ws_def others_nth Let_def)
  let ?m = "m\<lparr>m_children := ws[c := Wrapper_Prev ops (ws ! c)], m_forward := False\<rparr>"
  have "wrapped rep (m_children ?m ! j) (ess ! j) (step_back (length (ess ! j)) (cut_pos ?P (ess ! j)))"
    if j: "j < length ess" for j
    unfolding lower_bound_cut [symmetric]
  proof (cases "j = c")
    case True
    then show "wrapped rep (m_children ?m ! j) (ess ! j) (?b j)"
      using wrapped_laws(11) [OF wsc current_in_child(1) [OF m c mem rep(2)]] wlen c by simp
  next
    case False
    then show "wrapped rep (m_children ?m ! j) (ess ! j) (?b j)" using wsj [OF j] by simp
  qed
  moreover have "Merge_Prev cmp ops m = (FindLargest cmp ?m)\<lparr>m_forward := False\<rparr>"
    by (simp add: Merge_Prev_def cur ws_def Let_def FindLargest_def)
  ultimately have "merge_rep cmp rep (Merge_Prev cmp ops m) es (step_back (length es) (cut_pos ?P es))"
    using m wlen by (intro largest_at_cut [OF _ down_less, of ess es ?m]) auto
  moreover have "cut_pos ?P es = i" using m rep(2) by (intro cut_nth_less(1)) (auto simp: merges_def)
  ultimately show ?thesis by simp
qed

lemma Merge_status_ok: "(\<And>w. w \<in> set ws \<Longrightarrow> Wrapper_status ops w = Status_OK) \<Longrightarrow> Merge_status_loop ops ws = Status_OK"
  by (induction ops ws rule: Merge_status_loop.induct) (auto simp: Let_def)

text \<open>The contract of the children is a contract of the merging iterator.\<close>

lemma merge_iterator: "sorted_iterator cmp (Merge_ops cmp ops) (merge_rep cmp rep)"
proof unfold_locales
  fix m es i assume rep: "merge_rep cmp rep m es i"
  obtain ess where len: "length (m_children m) = length ess" and m: "merges cmp ess es" and i: "i \<le> length es"
    and at: "\<And>j. j < length ess \<Longrightarrow> \<exists>p. wrapped rep (m_children m ! j) (ess ! j) p"
    using merge_repE [OF rep] by blast
  show "entries_sorted cmp es" "i \<le> length es" using m i by (simp_all add: merges_def)
  show "i_valid (Merge_ops cmp ops) m \<longleftrightarrow> i < length es"
    using rep by (auto simp: Merge_ops_def Merge_Valid_def merge_rep_def split: if_splits)
  have "Wrapper_status ops w = Status_OK" if "w \<in> set (m_children m)" for w
    using that at len wrapped_laws(6) by (metis in_set_conv_nth)
  then show "i_status (Merge_ops cmp ops) m = Status_OK"
    by (simp add: Merge_ops_def Merge_status_ok)
  have "merge_rep cmp rep (Merge_SeekToFirst cmp ops m) es (cut_pos (\<lambda>a. False) es)"
    unfolding Merge_SeekToFirst_def using at len wrapped_laws(7)
    by (intro smallest_at_cut [OF m down_False _ _ refl]) auto
  then show "merge_rep cmp rep (i_seek_first (Merge_ops cmp ops) m) es 0" by (simp add: Merge_ops_def)
  have "merge_rep cmp rep (Merge_SeekToLast cmp ops m) es (step_back (length es) (cut_pos (\<lambda>a. True) es))"
    unfolding Merge_SeekToLast_def using at len wrapped_laws(8)
    by (intro largest_at_cut [OF m down_True _ _ refl]) auto
  then show "merge_rep cmp rep (i_seek_last (Merge_ops cmp ops) m) es (step_back (length es) (length es))"
    by (simp add: Merge_ops_def)
  show "merge_rep cmp rep (i_seek (Merge_ops cmp ops) target m) es (lower_bound cmp target es)" for target
    unfolding lower_bound_cut Merge_ops_def IterOps.simps Merge_Seek_def
    using at len wrapped_laws(9) [unfolded lower_bound_cut]
    by (intro smallest_at_cut [OF m down_less _ _ refl]) (auto, blast)
  assume lt: "i < length es"
  show "i_key (Merge_ops cmp ops) m = fst (es ! i)" "i_value (Merge_ops cmp ops) m = snd (es ! i)"
    using Merge_key_current [OF rep lt] by (simp_all add: Merge_ops_def)
  show "merge_rep cmp rep (i_next (Merge_ops cmp ops) m) es (i + 1)"
    using Merge_Next_rep [OF rep lt] by (simp add: Merge_ops_def)
  show "merge_rep cmp rep (i_prev (Merge_ops cmp ops) m) es (step_back (length es) i)"
    using Merge_Prev_rep [OF rep lt] by (simp add: Merge_ops_def)
qed

lemma merge_new:
  assumes "merges cmp ess es" "length iters = length ess" "\<And>j. j < length ess \<Longrightarrow> \<exists>p. rep (iters ! j) (ess ! j) p"
  shows "merge_rep cmp rep (MergeIterator_new ops iters) es (length es)"
  using assms wrapped_new unfolding merge_rep_def MergeIterator_new_def by (intro exI [of _ ess]) fastforce

lemma sorted_entries_unique: "entries_sorted cmp xs \<Longrightarrow> entries_sorted cmp ys \<Longrightarrow> set xs = set ys \<Longrightarrow> xs = ys"
proof (induction xs arbitrary: ys)
  case (Cons x xs)
  then obtain y zs where ys: "ys = y # zs" by (cases ys) auto
  have x: "\<And>e. e \<in> set xs \<Longrightarrow> cmp (fst x) (fst e) < 0" and y: "\<And>e. e \<in> set zs \<Longrightarrow> cmp (fst y) (fst e) < 0"
    using Cons.prems(1,2) ys by (simp_all add: entries_sorted_def)
  have "x = y"
  proof (rule ccontr)
    assume "x \<noteq> y"
    then have "x \<in> set zs" "y \<in> set xs" using Cons.prems(3) ys by auto
    then show False using x y cmp_asym by blast
  qed
  moreover have "x \<notin> set xs" "y \<notin> set zs" using x y cmp_refl by fastforce+
  ultimately have "set xs = set zs" using Cons.prems(3) ys by auto
  then show ?case using Cons.IH [of zs] Cons.prems(1,2) ys \<open>x = y\<close> by (simp add: entries_sorted_def)
qed simp

lemma merges_single: "merges cmp [xs] es \<Longrightarrow> es = xs"
  by (rule sorted_entries_unique) (simp_all add: merges_def)

text \<open>Whatever the number of children, the iterator of the factory keeps the contract.\<close>

lemma new_merge_iterator: "sorted_iterator cmp (NewMerge_ops cmp ops) (case_sum empty_rep (case_sum rep (merge_rep cmp rep)))"
  unfolding NewMerge_ops_def
  by (rule sum_iterator [OF empty_iterator sum_iterator [OF sorted_iterator_axioms merge_iterator]])

lemma new_merge_rep:
  assumes m: "merges cmp ess es" and len: "length iters = length ess"
    and at: "\<And>j. j < length ess \<Longrightarrow> rep (iters ! j) (ess ! j) (length (ess ! j))"
  shows "case_sum empty_rep (case_sum rep (merge_rep cmp rep)) (NewMergeIterator ops iters) es (length es)"
proof (cases ess)
  case Nil
  then show ?thesis using m len by (simp add: NewMergeIterator_def NewEmptyIterator_def empty_rep_def merges_def)
next
  case (Cons xs rest)
  have new: "merge_rep cmp rep (MergeIterator_new ops iters) es (length es)"
    using at by (intro merge_new [OF m len]) blast
  show ?thesis
  proof (cases "length iters = 1")
    case True
    then have "ess = [xs]" using Cons len by simp
    then show ?thesis using merges_single [of xs es] m at [of 0] True by (auto simp: NewMergeIterator_def)
  next
    case False
    then show ?thesis using new len Cons by (auto simp: NewMergeIterator_def)
  qed
qed

end

interpretation merged_blocks: sorted_iterator BytewiseComparatorImpl_Compare
    "NewMerge_ops BytewiseComparatorImpl_Compare (AnyBlockIter_ops BytewiseComparatorImpl_Compare)"
    "case_sum empty_rep (case_sum (case_sum empty_rep (block_rep BytewiseComparatorImpl_Compare))
       (merge_rep BytewiseComparatorImpl_Compare (case_sum empty_rep (block_rep BytewiseComparatorImpl_Compare))))"
  by (rule block.new_merge_iterator)

text \<open>
  C32: A merging iterator over any number of blocks is an iterator over the sorted
  union of their entries: for every sequence of seeks and steps, in both
  directions and with any changes of direction, the client sees the entry a
  cursor in the sorted union would be at, when no key is in two blocks.
\<close>

theorem MergeIterator_refines:
  assumes "1 \<le> interval" "merges BytewiseComparatorImpl_Compare ess es"
    and "\<forall>xs\<in>set ess. length (BuildBlock interval xs) < 2 ^ 32"
  shows "showing (NewMerge_ops BytewiseComparatorImpl_Compare (AnyBlockIter_ops BytewiseComparatorImpl_Compare)) ms
      (NewMergeIterator (AnyBlockIter_ops BytewiseComparatorImpl_Compare)
        (map (\<lambda>xs. Block_NewIterator (Block_new (BuildBlock interval xs))) ess))
    = cursor_showing BytewiseComparatorImpl_Compare es ms (length es)"
proof (rule merged_blocks.showing_rep, rule block.new_merge_rep [OF assms(2)])
  fix j assume j: "j < length ess"
  have "entries_sorted BytewiseComparatorImpl_Compare (ess ! j)"
    using bytewise_order.merges_sorted [OF assms(2) j] .
  moreover have "length (BuildBlock interval (ess ! j)) < 2 ^ 32" using assms(3) j by simp
  ultimately obtain it where it: "Block_NewIterator (Block_new (BuildBlock interval (ess ! j))) = Inr it"
    "block_rep BytewiseComparatorImpl_Compare it (ess ! j) (length (ess ! j))"
    using bytewise_order.BuildBlock_reads [OF assms(1)] by blast
  then show "case_sum empty_rep (block_rep BytewiseComparatorImpl_Compare)
      (map (\<lambda>xs. Block_NewIterator (Block_new (BuildBlock interval xs))) ess ! j) (ess ! j) (length (ess ! j))"
    using j by simp
qed simp

theorem MergeIterator_refines_witness:
  "showing (NewMerge_ops BytewiseComparatorImpl_Compare (AnyBlockIter_ops BytewiseComparatorImpl_Compare))
      [ToFirst, Forward, Backward, ToLast, To [2]]
      (NewMergeIterator (AnyBlockIter_ops BytewiseComparatorImpl_Compare)
        (map (\<lambda>xs. Block_NewIterator (Block_new (BuildBlock 16 xs))) [[([1], [7]), ([3], [])], [([2], [8])]]))
    = [Some ([1], [7]), Some ([2], [8]), Some ([1], [7]), Some ([3], []), Some ([2], [8])]"
proof -
  let ?ess = "[[([1], [7]), ([3], [])], [([2], [8])]] :: entries list"
  let ?es = "[([1], [7]), ([2], [8]), ([3], [])] :: entries"
  let ?ms = "[ToFirst, Forward, Backward, ToLast, To [2]]"
  have "merges BytewiseComparatorImpl_Compare ?ess ?es"
    by (auto simp: merges_def entries_sorted_def less_Suc_eq)
  moreover have "length (BuildBlock 16 (?ess ! 0)) = 17" "length (BuildBlock 16 (?ess ! 1)) = 13" by code_simp+
  moreover have "cursor_showing BytewiseComparatorImpl_Compare ?es ?ms 3
    = [Some ([1], [7]), Some ([2], [8]), Some ([1], [7]), Some ([3], []), Some ([2], [8])]"
    by (simp add: cursor_shown_def step_back_def lower_bound_def)
  ultimately show ?thesis
    using MergeIterator_refines [of 16 ?ess ?es ?ms] by simp
qed

end
