(* ===== verification/Sst_Format.thy ===== *)
theory Sst_Format
  imports Files Config
begin

text \<open>
  The physical format of a table file: handles of blocks, the footer, and
  reading a block (\<^verbatim>\<open>src/table/sst_format.cc\<close>,
  \<^verbatim>\<open>src/table/include/sst_format.h\<close>) through a file read at any place
  (\<^verbatim>\<open>src/table/include/random_access_file.h\<close>).  The checksum of the \<^verbatim>\<open>crc32c\<close>
  library and the compression wrappers around snappy and zstd are parameters.
\<close>

section \<open>Files read at any place\<close>

text \<open>
  \<^verbatim>\<open>raf_contents\<close> are the bytes on disk.  The outcomes of the system calls are
  \<^verbatim>\<open>raf_reopen\<close> for the \<^verbatim>\<open>open\<close> of every read without a permanent descriptor and
  \<^verbatim>\<open>raf_pread\<close> for a \<^verbatim>\<open>pread\<close> of so many bytes at a place.
\<close>

record RandomAccessFile =
  raf_filename :: bytes
  raf_permanent :: bool
  raf_contents :: bytes
  raf_reopen :: "errno option"
  raf_pread :: "nat \<Rightarrow> nat \<Rightarrow> errno option"

text \<open>
  The constructor asks the limiter for a descriptor; when it is refused, the
  limiter has given back what it took.
\<close>

definition RandomAccessFile_new ::
    "bytes \<Rightarrow> bytes \<Rightarrow> errno option \<Rightarrow> (nat \<Rightarrow> nat \<Rightarrow> errno option) \<Rightarrow> int \<Rightarrow> RandomAccessFile \<times> int"
where
  "RandomAccessFile_new filename contents reopen pread limiter =
     (let (got, limiter') = Limiter_Acquire limiter
      in (\<lparr>raf_filename = filename, raf_permanent = got, raf_contents = contents,
           raf_reopen = reopen, raf_pread = pread\<rparr>,
          if got then limiter' else Limiter_Release limiter'))"

definition RandomAccessFile_delete :: "RandomAccessFile \<Rightarrow> int \<Rightarrow> int" where
  "RandomAccessFile_delete f limiter = (if raf_permanent f then Limiter_Release limiter else limiter)"

definition RandomAccessFile_Read :: "nat \<Rightarrow> nat \<Rightarrow> RandomAccessFile \<Rightarrow> Status \<times> bytes" where
  "RandomAccessFile_Read position n f =
     (case (if raf_permanent f then None else raf_reopen f) of
        Some e \<Rightarrow> (PosixError (raf_filename f) e, [])
      | None \<Rightarrow>
          (case raf_pread f position n of
             Some e \<Rightarrow> (PosixError (raf_filename f) e, [])
           | None \<Rightarrow> (Status_OK, take n (drop position (raf_contents f)))))"

definition NewRandomAccessFile ::
    "errno option \<Rightarrow> bytes \<Rightarrow> bytes \<Rightarrow> errno option \<Rightarrow> (nat \<Rightarrow> nat \<Rightarrow> errno option) \<Rightarrow> int
      \<Rightarrow> (Status + RandomAccessFile) \<times> int"
where
  "NewRandomAccessFile opening filename contents reopen pread limiter =
     (case opening of
        Some e \<Rightarrow> (Inl (PosixError filename e), limiter)
      | None \<Rightarrow>
          (let (f, limiter') = RandomAccessFile_new filename contents reopen pread limiter
           in (Inr f, limiter')))"

section \<open>Handles and the footer\<close>

definition kSSTMagicNumber :: u64 where "kSSTMagicNumber = 0xdb4775248b80fb57"

definition kBlockTrailerSize :: nat where "kBlockTrailerSize = 5"

record BlockHandle =
  bh_offset :: u64
  bh_size :: u64

definition BlockHandle_new :: BlockHandle where
  "BlockHandle_new = \<lparr>bh_offset = - 1, bh_size = - 1\<rparr>"

definition BlockHandle_EncodeTo :: "bytes \<Rightarrow> BlockHandle \<Rightarrow> bytes" where
  "BlockHandle_EncodeTo dst h = PutVarint64 (PutVarint64 dst (bh_offset h)) (bh_size h)"

definition BlockHandle_DecodeFrom :: "bytes \<Rightarrow> Status + (BlockHandle \<times> bytes)" where
  "BlockHandle_DecodeFrom input =
     (case GetVarint64 input of
        None \<Rightarrow> Inl (Corruption ''bad block handle'')
      | Some (pos, input) \<Rightarrow>
          (case GetVarint64 input of
             None \<Rightarrow> Inl (Corruption ''bad block handle'')
           | Some (n, input) \<Rightarrow> Inr (\<lparr>bh_offset = pos, bh_size = n\<rparr>, input)))"

definition kMaxEncodedLength :: nat where "kMaxEncodedLength = 20"

record Footer =
  ft_metaindex :: BlockHandle
  ft_index :: BlockHandle

definition kEncodedLength :: nat where "kEncodedLength = 2 * kMaxEncodedLength + 8"

text \<open>\<^verbatim>\<open>resize\<close> cuts or pads with zero bytes.\<close>

definition resize_to :: "nat \<Rightarrow> bytes \<Rightarrow> bytes" where
  "resize_to n s = take n s @ replicate (n - length s) 0"

definition Footer_EncodeTo :: "bytes \<Rightarrow> Footer \<Rightarrow> bytes" where
  "Footer_EncodeTo dst f =
     (let dst = BlockHandle_EncodeTo dst (ft_metaindex f);
          dst = BlockHandle_EncodeTo dst (ft_index f);
          dst = resize_to (2 * kMaxEncodedLength) dst;
          dst = PutFixed32 dst (ucast (kSSTMagicNumber AND 0xffffffff))
      in PutFixed32 dst (ucast (drop_bit 32 kSSTMagicNumber)))"

definition Footer_DecodeFrom :: "bytes \<Rightarrow> Status + (Footer \<times> bytes)" where
  "Footer_DecodeFrom input =
     (if length input < kEncodedLength then Inl (Corruption ''not an sst (footer too short)'')
      else
        let magic_ptr = drop (kEncodedLength - 8) input;
            magic_low = DecodeFixed32 magic_ptr;
            magic_high = DecodeFixed32 (drop 4 magic_ptr);
            magic = push_bit 32 (ucast magic_high) OR ucast magic_low
        in if magic \<noteq> kSSTMagicNumber then Inl (Corruption ''not an sst (bad magic number)'')
           else case BlockHandle_DecodeFrom input of
             Inl s \<Rightarrow> Inl s
           | Inr (metaindex, input1) \<Rightarrow>
               (case BlockHandle_DecodeFrom input1 of
                  Inl s \<Rightarrow> Inl s
                | Inr (index, input2) \<Rightarrow>
                    Inr (\<lparr>ft_metaindex = metaindex, ft_index = index\<rparr>, drop 8 magic_ptr)))"

section \<open>Blocks on disk\<close>

text \<open>
  The wrappers around the compression libraries: the compressed bytes, or
  nothing when the library is not built in or refuses; the length announced by
  compressed data; the data itself.
\<close>

record Codecs =
  snappy_compress :: "bytes \<Rightarrow> bytes option"
  snappy_length :: "bytes \<Rightarrow> nat option"
  snappy_uncompress :: "bytes \<Rightarrow> bytes option"
  zstd_compress :: "bytes \<Rightarrow> bytes option"
  zstd_length :: "bytes \<Rightarrow> nat option"
  zstd_uncompress :: "bytes \<Rightarrow> bytes option"

record BlockContents =
  bc_data :: bytes
  bc_cacheable :: bool
  bc_heap_allocated :: bool

text \<open>
  The number of bytes to read is \<^verbatim>\<open>size_t\<close> and wraps; where the type byte is then
  behind what was read, the code reads past its buffer and the model sees a type
  that does not exist.  The file always reads into the given buffer, so the branch
  for memory the file keeps itself is not taken.
\<close>

definition type_byte :: "nat \<Rightarrow> bytes \<Rightarrow> byte" where
  "type_byte n data = (case drop n data of [] \<Rightarrow> 255 | c # cs \<Rightarrow> c)"

definition ReadBlock ::
    "(bytes \<Rightarrow> u32) \<Rightarrow> Codecs \<Rightarrow> RandomAccessFile \<Rightarrow> ReadOptions \<Rightarrow> BlockHandle \<Rightarrow> Status + BlockContents"
where
  "ReadBlock crc cs file options handle =
     (let n = unat (bh_size handle);
          amount = unat (bh_size handle + of_nat kBlockTrailerSize);
          (s, contents) = RandomAccessFile_Read (unat (bh_offset handle)) amount file
      in if \<not> ok s then Inl s
         else if length contents \<noteq> amount then Inl (Corruption ''truncated block read'')
         else if verify_checksums options \<and> crc (take (n + 1) contents) \<noteq> DecodeFixed32 (drop (n + 1) contents)
         then Inl (Corruption ''block checksum mismatch'')
         else if type_byte n contents = CompressionType_code kNoCompression
         then Inr \<lparr>bc_data = take n contents, bc_cacheable = True, bc_heap_allocated = True\<rparr>
         else if type_byte n contents = CompressionType_code kSnappyCompression
         then (case snappy_length cs (take n contents) of
                 None \<Rightarrow> Inl (Corruption ''corrupted snappy compressed block length'')
               | Some ulength \<Rightarrow>
                   (case snappy_uncompress cs (take n contents) of
                      None \<Rightarrow> Inl (Corruption ''corrupted snappy compressed block contents'')
                    | Some ubuf \<Rightarrow>
                        Inr \<lparr>bc_data = take ulength ubuf, bc_cacheable = True, bc_heap_allocated = True\<rparr>))
         else if type_byte n contents = CompressionType_code kZstdCompression
         then (case zstd_length cs (take n contents) of
                 None \<Rightarrow> Inl (Corruption ''corrupted zstd compressed block length'')
               | Some ulength \<Rightarrow>
                   (case zstd_uncompress cs (take n contents) of
                      None \<Rightarrow> Inl (Corruption ''corrupted zstd compressed block contents'')
                    | Some ubuf \<Rightarrow>
                        Inr \<lparr>bc_data = take ulength ubuf, bc_cacheable = True, bc_heap_allocated = True\<rparr>))
         else Inl (Corruption ''bad block type''))"

section \<open>Round trips\<close>

lemma BlockHandle_Decode_Encode [simp, codec]:
  "BlockHandle_DecodeFrom (BlockHandle_EncodeTo [] h @ rest) = Inr (h, rest)"
  by (simp add: BlockHandle_EncodeTo_def BlockHandle_DecodeFrom_def PutVarint64_def)

lemma BlockHandle_Decode_Encode' [simp, codec]:
  "BlockHandle_DecodeFrom (BlockHandle_EncodeTo [] h) = Inr (h, [])"
  using BlockHandle_Decode_Encode [of h "[]"] by simp

lemma BlockHandle_EncodeTo_append: "BlockHandle_EncodeTo dst h = dst @ BlockHandle_EncodeTo [] h"
  by (simp add: BlockHandle_EncodeTo_def PutVarint64_def)

lemma length_BlockHandle_Encode: "length (BlockHandle_EncodeTo [] h) \<le> kMaxEncodedLength"
  using length_EncodeVarint64_le [of "bh_offset h"] length_EncodeVarint64_le [of "bh_size h"]
  by (simp add: BlockHandle_EncodeTo_def PutVarint64_def kMaxEncodedLength_def)

lemma BlockHandle_Encode_inject: "BlockHandle_EncodeTo [] h = BlockHandle_EncodeTo [] h' \<longleftrightarrow> h = h'"
proof
  assume "BlockHandle_EncodeTo [] h = BlockHandle_EncodeTo [] h'"
  then have "BlockHandle_DecodeFrom (BlockHandle_EncodeTo [] h) = BlockHandle_DecodeFrom (BlockHandle_EncodeTo [] h')" by simp
  then show "h = h'" by simp
qed simp

lemma Footer_EncodeTo_eq:
  "Footer_EncodeTo [] f = BlockHandle_EncodeTo [] (ft_metaindex f) @ BlockHandle_EncodeTo [] (ft_index f)
     @ replicate (40 - length (BlockHandle_EncodeTo [] (ft_metaindex f)) - length (BlockHandle_EncodeTo [] (ft_index f))) 0
     @ EncodeFixed32 0x8b80fb57 @ EncodeFixed32 0xdb477524"
proof -
  let ?m = "BlockHandle_EncodeTo [] (ft_metaindex f)" and ?i = "BlockHandle_EncodeTo [] (ft_index f)"
  have len: "length (?m @ ?i) \<le> 40"
    using length_BlockHandle_Encode [of "ft_metaindex f"] length_BlockHandle_Encode [of "ft_index f"]
    by (simp add: kMaxEncodedLength_def)
  have "resize_to 40 (?m @ ?i) = ?m @ ?i @ replicate (40 - length ?m - length ?i) 0"
    using len by (simp add: resize_to_def)
  moreover have "(ucast (kSSTMagicNumber AND 0xffffffff) :: u32) = 0x8b80fb57"
    "(ucast (drop_bit 32 kSSTMagicNumber) :: u32) = 0xdb477524"
    by (simp_all add: kSSTMagicNumber_def)
  ultimately show ?thesis
    unfolding Footer_EncodeTo_def Let_def BlockHandle_EncodeTo_append [of ?m]
    by (simp add: kMaxEncodedLength_def PutFixed32_def)
qed

lemma length_Footer [simp]: "length (Footer_EncodeTo [] f) = kEncodedLength"
  using length_BlockHandle_Encode [of "ft_metaindex f"] length_BlockHandle_Encode [of "ft_index f"]
  by (simp add: Footer_EncodeTo_eq kEncodedLength_def kMaxEncodedLength_def)

lemma Footer_Decode_Encode: "Footer_DecodeFrom (Footer_EncodeTo [] f @ rest) = Inr (f, rest)"
proof -
  let ?m = "BlockHandle_EncodeTo [] (ft_metaindex f)" and ?i = "BlockHandle_EncodeTo [] (ft_index f)"
  let ?pad = "replicate (40 - length ?m - length ?i) 0" and ?magic = "EncodeFixed32 0x8b80fb57 @ EncodeFixed32 0xdb477524 @ rest"
  have e: "Footer_EncodeTo [] f @ rest = ?m @ ?i @ ?pad @ ?magic" by (simp add: Footer_EncodeTo_eq)
  have "length (?m @ ?i @ ?pad) = 40"
    using length_BlockHandle_Encode [of "ft_metaindex f"] length_BlockHandle_Encode [of "ft_index f"]
    by (simp add: kMaxEncodedLength_def)
  then have "drop 40 ((?m @ ?i @ ?pad) @ ?magic) = ?magic" by (metis append_eq_conv_conj)
  then have magic: "drop 40 (Footer_EncodeTo [] f @ rest) = ?magic" unfolding e by (simp only: append_assoc)
  have n: "\<not> length (Footer_EncodeTo [] f @ rest) < kEncodedLength" by simp
  have low: "DecodeFixed32 ?magic = 0x8b80fb57" by (rule DecodeFixed32_Encode)
  have "drop 4 (EncodeFixed32 a @ z) = z" for a z by simp
  then have high: "DecodeFixed32 (drop 4 ?magic) = 0xdb477524" by (simp only: DecodeFixed32_Encode)
  have "drop 8 (EncodeFixed32 a @ EncodeFixed32 b @ z) = z" for a b z by simp
  then have rest: "drop 8 ?magic = rest" .
  have num: "(push_bit 32 (ucast (0xdb477524 :: u32)) OR ucast (0x8b80fb57 :: u32)) = kSSTMagicNumber"
    by (simp add: kSSTMagicNumber_def)
  have k: "kEncodedLength - 8 = 40" by (simp add: kEncodedLength_def kMaxEncodedLength_def)
  have dec: "BlockHandle_DecodeFrom (Footer_EncodeTo [] f @ rest) = Inr (ft_metaindex f, ?i @ ?pad @ ?magic)"
    unfolding e by (rule BlockHandle_Decode_Encode)
  show ?thesis
    unfolding Footer_DecodeFrom_def if_not_P [OF n] Let_def k magic low high num rest dec
    by (simp only: sum.case prod.case BlockHandle_Decode_Encode refl not_True_eq_False if_False) simp
qed

end
