(* ===== verification/Sst_Builder.thy ===== *)
theory Sst_Builder
  imports Sst_Format Filter_Block Block_Iterator Wal_Writer
begin

text \<open>
  The builder of table files: \<^verbatim>\<open>SSTBuilder\<close> of \<^verbatim>\<open>src/table/sst_builder.cc\<close>.
  The state behind \<^verbatim>\<open>rep_\<close> is a record; \<^verbatim>\<open>compressed_output\<close> is empty between two
  blocks and has no field.  The asserts on the order of the keys are
  preconditions of the theorems.
\<close>

section \<open>Configuration\<close>

text \<open>
  What the builder and the tables read of \<^verbatim>\<open>gDBConfig\<close>: \<^verbatim>\<open>comparator\<close> with its two
  shortening functions, \<^verbatim>\<open>internal_comparator\<close> and \<^verbatim>\<open>filter_policy\<close>.
\<close>

record FilterPolicy =
  fp_name :: bytes
  fp_create :: "bytes list \<Rightarrow> bytes \<Rightarrow> bytes"
  fp_may_match :: "bytes \<Rightarrow> bytes \<Rightarrow> bool"

record TableConfig = DBConfig +
  tc_compare :: "bytes \<Rightarrow> bytes \<Rightarrow> int"
  tc_separator :: "bytes \<Rightarrow> bytes \<Rightarrow> bytes"
  tc_successor :: "bytes \<Rightarrow> bytes"
  tc_internal :: "bytes \<Rightarrow> bytes \<Rightarrow> int"
  tc_policy :: "FilterPolicy option"

section \<open>The builder\<close>

record SSTBuilder =
  sb_file :: WritableFile
  sb_offset :: u64
  sb_status :: Status
  sb_data :: BlockBuilder
  sb_index :: BlockBuilder
  sb_last_key :: bytes
  sb_entries_num :: nat
  sb_closed :: bool
  sb_filter :: "FilterBlockBuilder option"
  sb_pending_index_entry :: bool
  sb_pending_handle :: BlockHandle

text \<open>The constructor also sets the restart interval of the shared configuration to 1.\<close>

definition SSTBuilder_new :: "TableConfig \<Rightarrow> WritableFile \<Rightarrow> TableConfig \<times> SSTBuilder" where
  "SSTBuilder_new cfg file =
     (cfg\<lparr>block_restart_interval := 1\<rparr>,
      \<lparr>sb_file = file, sb_offset = 0, sb_status = Status_OK, sb_data = BlockBuilder_new,
       sb_index = BlockBuilder_new, sb_last_key = [], sb_entries_num = 0, sb_closed = False,
       sb_filter = map_option (\<lambda>p. StartBlock (fp_create p) 0 FilterBlockBuilder_new) (tc_policy cfg),
       sb_pending_index_entry = False, sb_pending_handle = BlockHandle_new\<rparr>)"

definition WriteRawBlock ::
    "(bytes \<Rightarrow> u32) \<Rightarrow> (u32 \<Rightarrow> bytes \<Rightarrow> u32) \<Rightarrow> bytes \<Rightarrow> CompressionType \<Rightarrow> SSTBuilder \<Rightarrow> BlockHandle \<times> SSTBuilder"
where
  "WriteRawBlock crc ext_crc block_contents type b =
     (let handle = \<lparr>bh_offset = sb_offset b, bh_size = of_nat (length block_contents)\<rparr>;
          (s, file) = WritableFile_Append (sb_file b) block_contents;
          b = b\<lparr>sb_file := file, sb_status := s\<rparr>
      in if ok s then
           let trailer = CompressionType_code type # EncodeFixed32 (ext_crc (crc block_contents) [CompressionType_code type]);
               (s, file) = WritableFile_Append (sb_file b) trailer;
               b = b\<lparr>sb_file := file, sb_status := s\<rparr>
           in if ok s
              then (handle, b\<lparr>sb_offset := sb_offset b + of_nat (length block_contents + kBlockTrailerSize)\<rparr>)
              else (handle, b)
         else (handle, b))"

text \<open>What \<^verbatim>\<open>WriteBlock\<close> writes for a block, and the type it notes.\<close>

definition choose_content :: "Codecs \<Rightarrow> CompressionType \<Rightarrow> bytes \<Rightarrow> bytes \<times> CompressionType" where
  "choose_content cs type raw =
     (case type of
        kNoCompression \<Rightarrow> (raw, kNoCompression)
      | kSnappyCompression \<Rightarrow>
          (case snappy_compress cs raw of
             Some compressed \<Rightarrow>
               if length compressed < length raw - length raw div 8 then (compressed, type) else (raw, kNoCompression)
           | None \<Rightarrow> (raw, kNoCompression))
      | kZstdCompression \<Rightarrow>
          (case zstd_compress cs raw of
             Some compressed \<Rightarrow>
               if length compressed < length raw - length raw div 8 then (compressed, type) else (raw, kNoCompression)
           | None \<Rightarrow> (raw, kNoCompression)))"

text \<open>The block builder is one of the builder's own or a temporary one; it comes back reset.\<close>

definition WriteBlock ::
    "(bytes \<Rightarrow> u32) \<Rightarrow> (u32 \<Rightarrow> bytes \<Rightarrow> u32) \<Rightarrow> Codecs \<Rightarrow> TableConfig \<Rightarrow> BlockBuilder \<Rightarrow> SSTBuilder
      \<Rightarrow> BlockHandle \<times> BlockBuilder \<times> SSTBuilder"
where
  "WriteBlock crc ext_crc cs cfg block b =
     (let (raw, block) = BlockBuilder_Finish block;
          (block_content, type) = choose_content cs (compression cfg) raw;
          (handle, b) = WriteRawBlock crc ext_crc block_content type b
      in (handle, BlockBuilder_Reset block, b))"

definition SSTBuilder_Flush ::
    "(bytes \<Rightarrow> u32) \<Rightarrow> (u32 \<Rightarrow> bytes \<Rightarrow> u32) \<Rightarrow> Codecs \<Rightarrow> TableConfig \<Rightarrow> SSTBuilder \<Rightarrow> SSTBuilder"
where
  "SSTBuilder_Flush crc ext_crc cs cfg b =
     (if \<not> ok (sb_status b) then b
      else if BlockBuilder_empty (sb_data b) then b
      else
        let (handle, data, b) = WriteBlock crc ext_crc cs cfg (sb_data b) b;
            b = b\<lparr>sb_data := data, sb_pending_handle := handle\<rparr>;
            b = (if ok (sb_status b) then
                   (let (s, file) = WritableFile_Flush (sb_file b)
                    in b\<lparr>sb_pending_index_entry := True, sb_file := file, sb_status := s\<rparr>)
                 else b)
        in case (sb_filter b, tc_policy cfg) of
             (Some fb, Some p) \<Rightarrow> b\<lparr>sb_filter := Some (StartBlock (fp_create p) (sb_offset b) fb)\<rparr>
           | _ \<Rightarrow> b)"

text \<open>The index entry of the last written block, under the given key.\<close>

definition add_index_entry :: "TableConfig \<Rightarrow> bytes \<Rightarrow> SSTBuilder \<Rightarrow> SSTBuilder" where
  "add_index_entry cfg key b =
     b\<lparr>sb_last_key := key,
       sb_index := BlockBuilder_Add (block_restart_interval cfg) key
         (BlockHandle_EncodeTo [] (sb_pending_handle b)) (sb_index b),
       sb_pending_index_entry := False\<rparr>"

definition SSTBuilder_Add ::
    "(bytes \<Rightarrow> u32) \<Rightarrow> (u32 \<Rightarrow> bytes \<Rightarrow> u32) \<Rightarrow> Codecs \<Rightarrow> TableConfig \<Rightarrow> bytes \<Rightarrow> bytes \<Rightarrow> SSTBuilder \<Rightarrow> SSTBuilder"
where
  "SSTBuilder_Add crc ext_crc cs cfg key value b =
     (if \<not> ok (sb_status b) then b
      else
        let b = (if sb_pending_index_entry b
                 then add_index_entry cfg (tc_separator cfg (sb_last_key b) key) b else b);
            b = b\<lparr>sb_filter := map_option (FilterBlock_AddKey key) (sb_filter b), sb_last_key := key,
                  sb_entries_num := sb_entries_num b + 1,
                  sb_data := BlockBuilder_Add (block_restart_interval cfg) key value (sb_data b)\<rparr>
        in if block_size cfg \<le> BlockBuilder_CurrentSizeEstimate (sb_data b)
           then SSTBuilder_Flush crc ext_crc cs cfg b else b)"

text \<open>The meta index block names the filter block.\<close>

definition metaindex_builder :: "TableConfig \<Rightarrow> BlockHandle \<Rightarrow> SSTBuilder \<Rightarrow> BlockBuilder" where
  "metaindex_builder cfg filter_block_handle b =
     (case (sb_filter b, tc_policy cfg) of
        (Some fb, Some p) \<Rightarrow>
          BlockBuilder_Add (block_restart_interval cfg) (text_bytes ''filter.'' @ fp_name p)
            (BlockHandle_EncodeTo [] filter_block_handle) BlockBuilder_new
      | _ \<Rightarrow> BlockBuilder_new)"

definition finish_filter ::
    "(bytes \<Rightarrow> u32) \<Rightarrow> (u32 \<Rightarrow> bytes \<Rightarrow> u32) \<Rightarrow> TableConfig \<Rightarrow> SSTBuilder \<Rightarrow> BlockHandle \<times> SSTBuilder"
where
  "finish_filter crc ext_crc cfg b =
     (case (sb_filter b, tc_policy cfg) of
        (Some fb, Some p) \<Rightarrow>
          if ok (sb_status b) then WriteRawBlock crc ext_crc (FilterBlock_Finish (fp_create p) fb) kNoCompression b
          else (BlockHandle_new, b)
      | _ \<Rightarrow> (BlockHandle_new, b))"

definition finish_index ::
    "(bytes \<Rightarrow> u32) \<Rightarrow> (u32 \<Rightarrow> bytes \<Rightarrow> u32) \<Rightarrow> Codecs \<Rightarrow> TableConfig \<Rightarrow> SSTBuilder \<Rightarrow> BlockHandle \<times> SSTBuilder"
where
  "finish_index crc ext_crc cs cfg b =
     (if ok (sb_status b) then
        let b = (if sb_pending_index_entry b then add_index_entry cfg (tc_successor cfg (sb_last_key b)) b else b);
            (handle, index, b) = WriteBlock crc ext_crc cs cfg (sb_index b) b
        in (handle, b\<lparr>sb_index := index\<rparr>)
      else (BlockHandle_new, b))"

definition finish_footer :: "BlockHandle \<Rightarrow> BlockHandle \<Rightarrow> SSTBuilder \<Rightarrow> SSTBuilder" where
  "finish_footer metaindex index b =
     (if ok (sb_status b) then
        let footer_encoding = Footer_EncodeTo [] \<lparr>ft_metaindex = metaindex, ft_index = index\<rparr>;
            (s, file) = WritableFile_Append (sb_file b) footer_encoding;
            b = b\<lparr>sb_file := file, sb_status := s\<rparr>
        in if ok s then b\<lparr>sb_offset := sb_offset b + of_nat (length footer_encoding)\<rparr> else b
      else b)"

definition SSTBuilder_Finish ::
    "(bytes \<Rightarrow> u32) \<Rightarrow> (u32 \<Rightarrow> bytes \<Rightarrow> u32) \<Rightarrow> Codecs \<Rightarrow> TableConfig \<Rightarrow> SSTBuilder \<Rightarrow> Status \<times> SSTBuilder"
where
  "SSTBuilder_Finish crc ext_crc cs cfg b =
     (let b = SSTBuilder_Flush crc ext_crc cs cfg b;
          b = b\<lparr>sb_closed := True\<rparr>;
          (filter_handle, b) = finish_filter crc ext_crc cfg b;
          (metaindex_handle, b) =
            (if ok (sb_status b) then
               (let (handle, block, b) = WriteBlock crc ext_crc cs cfg (metaindex_builder cfg filter_handle b) b
                in (handle, b))
             else (BlockHandle_new, b));
          (index_handle, b) = finish_index crc ext_crc cs cfg b;
          b = finish_footer metaindex_handle index_handle b
      in (sb_status b, b))"

definition SSTBuilder_Abandon :: "SSTBuilder \<Rightarrow> SSTBuilder" where
  "SSTBuilder_Abandon b = b\<lparr>sb_closed := True\<rparr>"

definition SSTBuilder_EntriesNum :: "SSTBuilder \<Rightarrow> nat" where
  "SSTBuilder_EntriesNum b = sb_entries_num b"

definition SSTBuilder_FileSize :: "SSTBuilder \<Rightarrow> u64" where
  "SSTBuilder_FileSize b = sb_offset b"

end
