(* ===== verification/Two_Level.thy ===== *)
theory Two_Level
  imports Iterators
begin

text \<open>
  The two-level iterator of \<^verbatim>\<open>src/table/two_level_iterator.cc\<close>: an index iterator
  whose values name blocks, and a function that opens an iterator over a block.
  The function argument and the read options are part of the block function.
  The loops that skip empty blocks are partial functions, because an index that
  never gets invalid would keep them running; over an index and blocks that keep
  the contract of iterators they end, and the two-level iterator keeps the
  contract for the concatenation of the blocks.
\<close>

section \<open>The iterator\<close>

record ('i, 'd) TwoLevel =
  tl_status :: Status
  tl_index :: "'i IteratorWrapper"
  tl_data :: "'d IteratorWrapper"
  tl_handle :: bytes

definition TwoLevel_new :: "'i IterOps \<Rightarrow> 'd IterOps \<Rightarrow> 'i \<Rightarrow> ('i, 'd) TwoLevel" where
  "TwoLevel_new iops dops index_iter =
     \<lparr>tl_status = Status_OK, tl_index = Wrapper_new iops (Some index_iter),
      tl_data = Wrapper_new dops None, tl_handle = []\<rparr>"

definition SaveError :: "Status \<Rightarrow> ('i, 'd) TwoLevel \<Rightarrow> ('i, 'd) TwoLevel" where
  "SaveError s t = (if ok (tl_status t) \<and> \<not> ok s then t\<lparr>tl_status := s\<rparr> else t)"

definition SetDataIterator :: "'d IterOps \<Rightarrow> 'd option \<Rightarrow> ('i, 'd) TwoLevel \<Rightarrow> ('i, 'd) TwoLevel" where
  "SetDataIterator dops data_iter t =
     (let t = (if w_iter (tl_data t) \<noteq> None then SaveError (Wrapper_status dops (tl_data t)) t else t)
      in t\<lparr>tl_data := Wrapper_Set dops data_iter (tl_data t)\<rparr>)"

definition InitDataBlock ::
    "'i IterOps \<Rightarrow> 'd IterOps \<Rightarrow> (bytes \<Rightarrow> 'd) \<Rightarrow> ('i, 'd) TwoLevel \<Rightarrow> ('i, 'd) TwoLevel" where
  "InitDataBlock iops dops block_function t =
     (if \<not> w_valid (tl_index t) then SetDataIterator dops None t
      else
        let handle = Wrapper_value iops (tl_index t) in
        if w_iter (tl_data t) \<noteq> None \<and> handle = tl_handle t then t
        else SetDataIterator dops (Some (block_function handle)) (t\<lparr>tl_handle := handle\<rparr>))"

definition on_data :: "('d IteratorWrapper \<Rightarrow> 'd IteratorWrapper) \<Rightarrow> ('i, 'd) TwoLevel \<Rightarrow> ('i, 'd) TwoLevel" where
  "on_data f t = (if w_iter (tl_data t) \<noteq> None then t\<lparr>tl_data := f (tl_data t)\<rparr> else t)"

partial_function (option) SkipEmptyDataBlocksForward ::
    "'i IterOps \<Rightarrow> 'd IterOps \<Rightarrow> (bytes \<Rightarrow> 'd) \<Rightarrow> ('i, 'd) TwoLevel \<Rightarrow> ('i, 'd) TwoLevel option" where
  "SkipEmptyDataBlocksForward iops dops block_function t =
     (if w_iter (tl_data t) = None \<or> \<not> w_valid (tl_data t) then
        if \<not> w_valid (tl_index t) then Some (SetDataIterator dops None t)
        else SkipEmptyDataBlocksForward iops dops block_function
               (on_data (Wrapper_SeekToFirst dops)
                 (InitDataBlock iops dops block_function
                   (t\<lparr>tl_index := Wrapper_Next iops (tl_index t)\<rparr>)))
      else Some t)"

partial_function (option) SkipEmptyDataBlocksBackward ::
    "'i IterOps \<Rightarrow> 'd IterOps \<Rightarrow> (bytes \<Rightarrow> 'd) \<Rightarrow> ('i, 'd) TwoLevel \<Rightarrow> ('i, 'd) TwoLevel option" where
  "SkipEmptyDataBlocksBackward iops dops block_function t =
     (if w_iter (tl_data t) = None \<or> \<not> w_valid (tl_data t) then
        if \<not> w_valid (tl_index t) then Some (SetDataIterator dops None t)
        else SkipEmptyDataBlocksBackward iops dops block_function
               (on_data (Wrapper_SeekToLast dops)
                 (InitDataBlock iops dops block_function
                   (t\<lparr>tl_index := Wrapper_Prev iops (tl_index t)\<rparr>)))
      else Some t)"

declare SkipEmptyDataBlocksForward.simps [code] SkipEmptyDataBlocksBackward.simps [code]

definition TwoLevel_Seek ::
    "'i IterOps \<Rightarrow> 'd IterOps \<Rightarrow> (bytes \<Rightarrow> 'd) \<Rightarrow> bytes \<Rightarrow> ('i, 'd) TwoLevel \<Rightarrow> ('i, 'd) TwoLevel option" where
  "TwoLevel_Seek iops dops block_function target t =
     SkipEmptyDataBlocksForward iops dops block_function
       (on_data (Wrapper_Seek dops target)
         (InitDataBlock iops dops block_function (t\<lparr>tl_index := Wrapper_Seek iops target (tl_index t)\<rparr>)))"

definition TwoLevel_SeekToFirst ::
    "'i IterOps \<Rightarrow> 'd IterOps \<Rightarrow> (bytes \<Rightarrow> 'd) \<Rightarrow> ('i, 'd) TwoLevel \<Rightarrow> ('i, 'd) TwoLevel option" where
  "TwoLevel_SeekToFirst iops dops block_function t =
     SkipEmptyDataBlocksForward iops dops block_function
       (on_data (Wrapper_SeekToFirst dops)
         (InitDataBlock iops dops block_function (t\<lparr>tl_index := Wrapper_SeekToFirst iops (tl_index t)\<rparr>)))"

definition TwoLevel_SeekToLast ::
    "'i IterOps \<Rightarrow> 'd IterOps \<Rightarrow> (bytes \<Rightarrow> 'd) \<Rightarrow> ('i, 'd) TwoLevel \<Rightarrow> ('i, 'd) TwoLevel option" where
  "TwoLevel_SeekToLast iops dops block_function t =
     SkipEmptyDataBlocksBackward iops dops block_function
       (on_data (Wrapper_SeekToLast dops)
         (InitDataBlock iops dops block_function (t\<lparr>tl_index := Wrapper_SeekToLast iops (tl_index t)\<rparr>)))"

definition TwoLevel_Next ::
    "'i IterOps \<Rightarrow> 'd IterOps \<Rightarrow> (bytes \<Rightarrow> 'd) \<Rightarrow> ('i, 'd) TwoLevel \<Rightarrow> ('i, 'd) TwoLevel option" where
  "TwoLevel_Next iops dops block_function t =
     SkipEmptyDataBlocksForward iops dops block_function (t\<lparr>tl_data := Wrapper_Next dops (tl_data t)\<rparr>)"

definition TwoLevel_Prev ::
    "'i IterOps \<Rightarrow> 'd IterOps \<Rightarrow> (bytes \<Rightarrow> 'd) \<Rightarrow> ('i, 'd) TwoLevel \<Rightarrow> ('i, 'd) TwoLevel option" where
  "TwoLevel_Prev iops dops block_function t =
     SkipEmptyDataBlocksBackward iops dops block_function (t\<lparr>tl_data := Wrapper_Prev dops (tl_data t)\<rparr>)"

definition TwoLevel_status :: "'i IterOps \<Rightarrow> 'd IterOps \<Rightarrow> ('i, 'd) TwoLevel \<Rightarrow> Status" where
  "TwoLevel_status iops dops t =
     (if \<not> ok (Wrapper_status iops (tl_index t)) then Wrapper_status iops (tl_index t)
      else if w_iter (tl_data t) \<noteq> None \<and> \<not> ok (Wrapper_status dops (tl_data t))
      then Wrapper_status dops (tl_data t)
      else tl_status t)"

text \<open>A state that a loop never left is \<^verbatim>\<open>None\<close>.\<close>

definition TwoLevel_ops ::
    "'i IterOps \<Rightarrow> 'd IterOps \<Rightarrow> (bytes \<Rightarrow> 'd) \<Rightarrow> ('i, 'd) TwoLevel option IterOps" where
  "TwoLevel_ops iops dops bf =
     \<lparr>i_valid = (\<lambda>t. case t of None \<Rightarrow> False | Some t \<Rightarrow> w_valid (tl_data t)),
      i_seek_first = (\<lambda>t. Option.bind t (TwoLevel_SeekToFirst iops dops bf)),
      i_seek_last = (\<lambda>t. Option.bind t (TwoLevel_SeekToLast iops dops bf)),
      i_seek = (\<lambda>target t. Option.bind t (TwoLevel_Seek iops dops bf target)),
      i_next = (\<lambda>t. Option.bind t (TwoLevel_Next iops dops bf)),
      i_prev = (\<lambda>t. Option.bind t (TwoLevel_Prev iops dops bf)),
      i_key = (\<lambda>t. case t of None \<Rightarrow> [] | Some t \<Rightarrow> w_key (tl_data t)),
      i_value = (\<lambda>t. case t of None \<Rightarrow> [] | Some t \<Rightarrow> Wrapper_value dops (tl_data t)),
      i_status = (\<lambda>t. case t of None \<Rightarrow> Status_OK | Some t \<Rightarrow> TwoLevel_status iops dops t)\<rparr>"

section \<open>The entries of a two-level structure\<close>

text \<open>
  \<open>blk h\<close> are the entries of the block with handle \<open>h\<close>.  The index key of a block
  is at least its last key and below the first key of the next blocks.
\<close>

definition flat :: "(bytes \<Rightarrow> entries) \<Rightarrow> entries \<Rightarrow> entries" where
  "flat blk idx = concat (map (\<lambda>e. blk (snd e)) idx)"

definition separated :: "(bytes \<Rightarrow> bytes \<Rightarrow> int) \<Rightarrow> (bytes \<Rightarrow> entries) \<Rightarrow> entries \<Rightarrow> bool" where
  "separated cmp blk idx \<longleftrightarrow> entries_sorted cmp (flat blk idx)
     \<and> (\<forall>j<length idx. \<forall>e\<in>set (blk (snd (idx ! j))). cmp (fst e) (fst (idx ! j)) \<le> 0)
     \<and> (\<forall>j<length idx. \<forall>k<length idx. j < k \<longrightarrow>
          (\<forall>e\<in>set (blk (snd (idx ! k))). cmp (fst (idx ! j)) (fst e) < 0))"

definition offset :: "(bytes \<Rightarrow> entries) \<Rightarrow> entries \<Rightarrow> nat \<Rightarrow> nat" where
  "offset blk idx j = length (flat blk (take j idx))"

lemma flat_split: "j < length idx \<Longrightarrow> flat blk idx = flat blk (take j idx) @ blk (snd (idx ! j)) @ flat blk (drop (j + 1) idx)"
  unfolding flat_def by (subst id_take_nth_drop [of j idx]) simp_all

lemma offset_Suc: "j < length idx \<Longrightarrow> offset blk idx (j + 1) = offset blk idx j + length (blk (snd (idx ! j)))"
  by (simp add: offset_def flat_def take_Suc_conv_app_nth)

lemma offset_0 [simp]: "offset blk idx 0 = 0"
  by (simp add: offset_def flat_def)

lemma offset_all [simp]: "offset blk idx (length idx) = length (flat blk idx)"
  by (simp add: offset_def)

lemma flat_nth:
  assumes "j < length idx" "p < length (blk (snd (idx ! j)))"
  shows "flat blk idx ! (offset blk idx j + p) = blk (snd (idx ! j)) ! p"
    "offset blk idx j + p < length (flat blk idx)"
  unfolding flat_split [OF assms(1), of blk] offset_def using assms(2) by (simp_all add: nth_append)

lemma flat_mem_take: "e \<in> set (flat blk (take j idx)) \<Longrightarrow> \<exists>k<j. k < length idx \<and> e \<in> set (blk (snd (idx ! k)))"
  unfolding flat_def by (fastforce simp: in_set_conv_nth [of _ "take j idx"])

lemma flat_mem_drop:
  assumes "e \<in> set (flat blk (drop j idx))"
  shows "\<exists>k\<ge>j. k < length idx \<and> e \<in> set (blk (snd (idx ! k)))"
proof -
  obtain x where x: "x \<in> set (drop j idx)" "e \<in> set (blk (snd x))" using assms by (auto simp: flat_def)
  then obtain k where "k < length (drop j idx)" "drop j idx ! k = x" unfolding in_set_conv_nth by blast
  then show ?thesis using x by (intro exI [of _ "j + k"]) auto
qed

lemma cut_pos_append: "(\<And>e. e \<in> set xs \<Longrightarrow> P (fst e)) \<Longrightarrow> cut_pos P (xs @ ys) = length xs + cut_pos P ys"
  by (simp add: cut_pos_def takeWhile_append)

lemma cut_pos_stop: "(\<And>e. e \<in> set ys \<Longrightarrow> \<not> P (fst e)) \<Longrightarrow> cut_pos P (xs @ ys) = cut_pos P xs"
proof (induction xs)
  case Nil
  then show ?case by (cases ys) (simp_all add: cut_pos_def)
qed (simp add: cut_pos_def)

section \<open>The iterator keeps the contract\<close>

locale two_level = index: sorted_iterator cmp iops irep + data: sorted_iterator cmp dops drep
  for cmp :: "bytes \<Rightarrow> bytes \<Rightarrow> int"
    and iops :: "'i IterOps" and irep :: "'i \<Rightarrow> entries \<Rightarrow> nat \<Rightarrow> bool"
    and dops :: "'d IterOps" and drep :: "'d \<Rightarrow> entries \<Rightarrow> nat \<Rightarrow> bool" +
  fixes bf :: "bytes \<Rightarrow> 'd" and blk :: "bytes \<Rightarrow> entries" and handles :: "bytes set"
  assumes open_block: "h \<in> handles \<Longrightarrow> \<exists>p. drep (bf h) (blk h) p"
begin

text \<open>
  Between two operations: the index is at \<open>j\<close>, and the data iterator, if there is
  one, is over the block whose handle is kept.
\<close>

definition tl_inv :: "entries \<Rightarrow> nat \<Rightarrow> ('i, 'd) TwoLevel \<Rightarrow> bool" where
  "tl_inv idx j t \<longleftrightarrow> tl_status t = Status_OK \<and> snd ` set idx \<subseteq> handles \<and> separated cmp blk idx
     \<and> wrapped irep (tl_index t) idx j
     \<and> (w_iter (tl_data t) = None \<or> (\<exists>p. wrapped drep (tl_data t) (blk (tl_handle t)) p))"

definition at_block :: "entries \<Rightarrow> nat \<Rightarrow> nat \<Rightarrow> ('i, 'd) TwoLevel \<Rightarrow> bool" where
  "at_block idx j p t \<longleftrightarrow> tl_inv idx j t \<and> j < length idx \<and> tl_handle t = snd (idx ! j)
     \<and> wrapped drep (tl_data t) (blk (snd (idx ! j))) p"

definition tl_rep :: "('i, 'd) TwoLevel option \<Rightarrow> entries \<Rightarrow> nat \<Rightarrow> bool" where
  "tl_rep s es i \<longleftrightarrow> (\<exists>t idx. s = Some t \<and> es = flat blk idx \<and> i \<le> length es
     \<and> (if i < length es then
          (\<exists>j p. at_block idx j p t \<and> p < length (blk (snd (idx ! j))) \<and> i = offset blk idx j + p)
        else w_valid (tl_data t) = False \<and> (\<exists>j. tl_inv idx j t)))"

lemma at_block_rep:
  assumes "at_block idx j p t" "p < length (blk (snd (idx ! j)))"
  shows "tl_rep (Some t) (flat blk idx) (offset blk idx j + p)"
  using assms flat_nth [of j idx p blk] unfolding tl_rep_def at_block_def by (fastforce intro: less_imp_le)

lemma wrapped_iter: "wrapped r w es i \<Longrightarrow> w_iter w \<noteq> None"
  by (auto simp: wrapped_def)

lemma SetDataIterator_None:
  assumes "tl_inv idx j t"
  shows "tl_inv idx j (SetDataIterator dops None t)" "\<not> w_valid (tl_data (SetDataIterator dops None t))"
proof -
  have s: "w_iter (tl_data t) \<noteq> None \<Longrightarrow> Wrapper_status dops (tl_data t) = Status_OK"
    using assms data.wrapped_laws(6) by (auto simp: tl_inv_def)
  show "tl_inv idx j (SetDataIterator dops None t)" "\<not> w_valid (tl_data (SetDataIterator dops None t))"
    using assms s by (auto simp: SetDataIterator_def Let_def SaveError_def tl_inv_def Wrapper_Set_def)
qed

lemma wrapped_Set: "drep d es p \<Longrightarrow> wrapped drep (Wrapper_Set dops (Some d) w) es p"
  by (auto simp: Wrapper_Set_def Let_def intro: data.wrapped_Update)

lemma InitDataBlock_inv:
  assumes "tl_inv idx j t"
  shows "if j < length idx then \<exists>p. at_block idx j p (InitDataBlock iops dops bf t)
    else tl_inv idx j (InitDataBlock iops dops bf t) \<and> w_iter (tl_data (InitDataBlock iops dops bf t)) = None
      \<and> \<not> w_valid (tl_data (InitDataBlock iops dops bf t))"
proof (cases "j < length idx")
  case False
  have w: "wrapped irep (tl_index t) idx j" using assms by (simp add: tl_inv_def)
  have "\<not> w_valid (tl_index t)" using index.wrapped_at(1) [OF w] False by simp
  moreover have "w_iter (tl_data (SetDataIterator dops None t)) = None"
    by (simp add: SetDataIterator_def Let_def Wrapper_Set_def SaveError_def)
  ultimately show ?thesis
    using SetDataIterator_None [OF assms] False by (simp add: InitDataBlock_def)
next
  case True
  have w: "wrapped irep (tl_index t) idx j" using assms by (simp add: tl_inv_def)
  have val: "w_valid (tl_index t)" "Wrapper_value iops (tl_index t) = snd (idx ! j)"
    using index.wrapped_at(1) [OF w] index.wrapped_laws(5) [OF w True] True by auto
  let ?h = "snd (idx ! j)"
  show ?thesis
  proof (cases "w_iter (tl_data t) \<noteq> None \<and> ?h = tl_handle t")
    case same: True
    then have "InitDataBlock iops dops bf t = t" using val by (simp add: InitDataBlock_def Let_def)
    then show ?thesis using assms True same by (auto simp: at_block_def tl_inv_def)
  next
    case False
    have "?h \<in> handles" using assms True by (auto simp: tl_inv_def)
    then obtain p where p: "drep (bf ?h) (blk ?h) p" using open_block by blast
    have s: "w_iter (tl_data t) \<noteq> None \<Longrightarrow> Wrapper_status dops (tl_data t) = Status_OK"
      using assms data.wrapped_laws(6) by (auto simp: tl_inv_def)
    have "InitDataBlock iops dops bf t = t\<lparr>tl_handle := ?h, tl_data := Wrapper_Set dops (Some (bf ?h)) (tl_data t)\<rparr>"
      using val False s by (auto simp: InitDataBlock_def Let_def SetDataIterator_def SaveError_def)
    then show ?thesis using assms True wrapped_Set [OF p] by (auto simp: at_block_def tl_inv_def)
  qed
qed

text \<open>Opening the block at the index, and positioning in it.\<close>

lemma open_and_move:
  assumes t: "tl_inv idx j t"
    and f: "\<And>w es p. wrapped drep w es p \<Longrightarrow> wrapped drep (f w) es (g es)"
  shows "if j < length idx then at_block idx j (g (blk (snd (idx ! j)))) (on_data f (InitDataBlock iops dops bf t))
    else tl_inv idx j (on_data f (InitDataBlock iops dops bf t))
      \<and> \<not> w_valid (tl_data (on_data f (InitDataBlock iops dops bf t)))"
proof (cases "j < length idx")
  case True
  then obtain p where p: "at_block idx j p (InitDataBlock iops dops bf t)" using InitDataBlock_inv [OF t] by auto
  have w: "wrapped drep (tl_data (InitDataBlock iops dops bf t)) (blk (snd (idx ! j))) p" using p by (simp add: at_block_def)
  show ?thesis using p f [OF w] wrapped_iter [OF w] True by (auto simp: on_data_def at_block_def tl_inv_def)
next
  case False
  then show ?thesis using InitDataBlock_inv [OF t] by (simp add: on_data_def)
qed

lemma move_index:
  "tl_inv idx j t \<Longrightarrow> wrapped irep w idx k \<Longrightarrow> tl_inv idx k (t\<lparr>tl_index := w\<rparr>)"
  by (simp add: tl_inv_def)

lemma SkipForward_step:
  "SkipEmptyDataBlocksForward iops dops bf t =
     (if w_iter (tl_data t) = None \<or> \<not> w_valid (tl_data t) then
        if \<not> w_valid (tl_index t) then Some (SetDataIterator dops None t)
        else SkipEmptyDataBlocksForward iops dops bf
               (on_data (Wrapper_SeekToFirst dops) (InitDataBlock iops dops bf
                   (t\<lparr>tl_index := Wrapper_Next iops (tl_index t)\<rparr>)))
      else Some t)"
  by (rule SkipEmptyDataBlocksForward.simps)

lemma SkipBackward_step:
  "SkipEmptyDataBlocksBackward iops dops bf t =
     (if w_iter (tl_data t) = None \<or> \<not> w_valid (tl_data t) then
        if \<not> w_valid (tl_index t) then Some (SetDataIterator dops None t)
        else SkipEmptyDataBlocksBackward iops dops bf
               (on_data (Wrapper_SeekToLast dops) (InitDataBlock iops dops bf
                   (t\<lparr>tl_index := Wrapper_Prev iops (tl_index t)\<rparr>)))
      else Some t)"
  by (rule SkipEmptyDataBlocksBackward.simps)

lemma stay_forward:
  assumes "wrapped drep (tl_data t) es p" "p < length es"
  shows "SkipEmptyDataBlocksForward iops dops bf t = Some t"
  using data.wrapped_at(1) [OF assms(1)] wrapped_iter [OF assms(1)] assms(2) by (subst SkipForward_step) auto

lemma stay_backward:
  assumes "wrapped drep (tl_data t) es p" "p < length es"
  shows "SkipEmptyDataBlocksBackward iops dops bf t = Some t"
  using data.wrapped_at(1) [OF assms(1)] wrapped_iter [OF assms(1)] assms(2) by (subst SkipBackward_step) auto

lemma end_rep:
  assumes "tl_inv idx j t" "\<not> w_valid (tl_data t)"
  shows "tl_rep (Some t) (flat blk idx) (length (flat blk idx))"
  using assms unfolding tl_rep_def by auto

lemma SkipForward_end:
  assumes t: "tl_inv idx j t" "\<not> w_valid (tl_data t)" "\<not> j < length idx"
  shows "tl_rep (SkipEmptyDataBlocksForward iops dops bf t) (flat blk idx) (length (flat blk idx))"
proof -
  have "wrapped irep (tl_index t) idx j" using t(1) by (simp add: tl_inv_def)
  then have "\<not> w_valid (tl_index t)" using index.wrapped_at(1) t(3) by blast
  then have "SkipEmptyDataBlocksForward iops dops bf t = Some (SetDataIterator dops None t)"
    using t(2) by (subst SkipForward_step) simp
  then show ?thesis using SetDataIterator_None [OF t(1)] end_rep by simp
qed

lemma SkipForward_rep:
  assumes "tl_inv idx j t" "\<not> w_valid (tl_data t)" "j \<le> length idx"
  shows "tl_rep (SkipEmptyDataBlocksForward iops dops bf t) (flat blk idx)
    (if j < length idx then offset blk idx (j + 1) else length (flat blk idx))"
  using assms
proof (induction "length idx - j" arbitrary: j t)
  case 0
  then show ?case using SkipForward_end [OF 0(2,3)] by simp
next
  case (Suc n)
  then have j: "j < length idx" by simp
  have w: "wrapped irep (tl_index t) idx j" using Suc.prems(1) by (simp add: tl_inv_def)
  define t' where "t' = on_data (Wrapper_SeekToFirst dops) (InitDataBlock iops dops bf
      (t\<lparr>tl_index := Wrapper_Next iops (tl_index t)\<rparr>))"
  have "w_valid (tl_index t)" using index.wrapped_at(1) [OF w] j by simp
  then have eq: "SkipEmptyDataBlocksForward iops dops bf t = SkipEmptyDataBlocksForward iops dops bf t'"
    using Suc.prems(2) by (subst SkipForward_step) (simp add: t'_def)
  have inv': "tl_inv idx (j + 1) (t\<lparr>tl_index := Wrapper_Next iops (tl_index t)\<rparr>)"
    using move_index [OF Suc.prems(1) index.wrapped_laws(10) [OF w j]] .
  note t' = open_and_move [OF inv', of "Wrapper_SeekToFirst dops" "\<lambda>_. 0", OF data.wrapped_laws(7), folded t'_def]
  show ?case
  proof (cases "j + 1 < length idx")
    case False
    then have "j + 1 = length idx" using j by simp
    then have "offset blk idx (j + 1) = length (flat blk idx)" by simp
    moreover have "tl_inv idx (j + 1) t'" "\<not> w_valid (tl_data t')" using t' False by auto
    ultimately show ?thesis using SkipForward_end [OF _ _ False] j eq by simp
  next
    case True
    then have at: "at_block idx (j + 1) 0 t'" using t' by simp
    then have w': "wrapped drep (tl_data t') (blk (snd (idx ! (j + 1)))) 0" "tl_inv idx (j + 1) t'"
      by (simp_all add: at_block_def)
    show ?thesis
    proof (cases "0 < length (blk (snd (idx ! (j + 1))))")
      case ne: True
      then have "SkipEmptyDataBlocksForward iops dops bf t' = Some t'" using stay_forward [OF w'(1)] by simp
      then show ?thesis using at_block_rep [OF at ne] j eq by simp
    next
      case empty: False
      then have "\<not> w_valid (tl_data t')" using data.wrapped_at(1) [OF w'(1)] by simp
      moreover have "n = length idx - (j + 1)" "j + 1 \<le> length idx" using Suc.hyps(2) True by simp_all
      ultimately have "tl_rep (SkipEmptyDataBlocksForward iops dops bf t') (flat blk idx) (offset blk idx (j + 1 + 1))"
        using Suc.hyps(1) [of "j + 1" t'] w'(2) True by simp
      then show ?thesis using offset_Suc [OF True, of blk] empty j eq by simp
    qed
  qed
qed

lemma SkipBackward_end:
  assumes t: "tl_inv idx j t" "\<not> w_valid (tl_data t)" "\<not> j < length idx"
  shows "tl_rep (SkipEmptyDataBlocksBackward iops dops bf t) (flat blk idx) (length (flat blk idx))"
proof -
  have "wrapped irep (tl_index t) idx j" using t(1) by (simp add: tl_inv_def)
  then have "\<not> w_valid (tl_index t)" using index.wrapped_at(1) t(3) by blast
  then have "SkipEmptyDataBlocksBackward iops dops bf t = Some (SetDataIterator dops None t)"
    using t(2) by (subst SkipBackward_step) simp
  then show ?thesis using SetDataIterator_None [OF t(1)] end_rep by simp
qed

lemma SkipBackward_rep:
  assumes "tl_inv idx j t" "\<not> w_valid (tl_data t)" "j < length idx"
  shows "tl_rep (SkipEmptyDataBlocksBackward iops dops bf t) (flat blk idx)
    (step_back (length (flat blk idx)) (offset blk idx j))"
  using assms
proof (induction j arbitrary: t)
  case 0
  have w: "wrapped irep (tl_index t) idx 0" using 0(1) by (simp add: tl_inv_def)
  define t' where "t' = on_data (Wrapper_SeekToLast dops) (InitDataBlock iops dops bf
      (t\<lparr>tl_index := Wrapper_Prev iops (tl_index t)\<rparr>))"
  have "w_valid (tl_index t)" using index.wrapped_at(1) [OF w] 0 by simp
  then have eq: "SkipEmptyDataBlocksBackward iops dops bf t = SkipEmptyDataBlocksBackward iops dops bf t'"
    using 0(2) by (subst SkipBackward_step) (simp add: t'_def)
  have inv': "tl_inv idx (length idx) (t\<lparr>tl_index := Wrapper_Prev iops (tl_index t)\<rparr>)"
    using move_index [OF 0(1) index.wrapped_laws(11) [OF w 0(3)]] by (simp add: step_back_def)
  have "tl_inv idx (length idx) t' \<and> \<not> w_valid (tl_data t')"
    using open_and_move [OF inv', of "Wrapper_SeekToLast dops" "\<lambda>es. step_back (length es) (length es)",
        OF data.wrapped_laws(8), folded t'_def] by simp
  then show ?case using SkipBackward_end [of idx "length idx" t'] eq by (simp add: step_back_def)
next
  case (Suc j)
  have w: "wrapped irep (tl_index t) idx (Suc j)" using Suc.prems(1) by (simp add: tl_inv_def)
  define t' where "t' = on_data (Wrapper_SeekToLast dops) (InitDataBlock iops dops bf
      (t\<lparr>tl_index := Wrapper_Prev iops (tl_index t)\<rparr>))"
  have "w_valid (tl_index t)" using index.wrapped_at(1) [OF w] Suc.prems by simp
  then have eq: "SkipEmptyDataBlocksBackward iops dops bf t = SkipEmptyDataBlocksBackward iops dops bf t'"
    using Suc.prems(2) by (subst SkipBackward_step) (simp add: t'_def)
  have inv': "tl_inv idx j (t\<lparr>tl_index := Wrapper_Prev iops (tl_index t)\<rparr>)"
    using move_index [OF Suc.prems(1) index.wrapped_laws(11) [OF w Suc.prems(3)]] by (simp add: step_back_def)
  let ?b = "blk (snd (idx ! j))"
  have j: "j < length idx" using Suc.prems(3) by simp
  have at: "at_block idx j (step_back (length ?b) (length ?b)) t'"
    using open_and_move [OF inv', of "Wrapper_SeekToLast dops" "\<lambda>es. step_back (length es) (length es)",
        OF data.wrapped_laws(8), folded t'_def] j by simp
  then have w': "wrapped drep (tl_data t') ?b (step_back (length ?b) (length ?b))" "tl_inv idx j t'"
    by (simp_all add: at_block_def)
  show ?case
  proof (cases "?b = []")
    case False
    then have lt: "step_back (length ?b) (length ?b) < length ?b" by (simp add: step_back_def)
    then have "SkipEmptyDataBlocksBackward iops dops bf t' = Some t'" using stay_backward [OF w'(1)] by simp
    moreover have "step_back (length (flat blk idx)) (offset blk idx (Suc j)) =
        offset blk idx j + step_back (length ?b) (length ?b)"
      using offset_Suc [OF j, of blk] False by (cases ?b) (simp_all add: step_back_def)
    ultimately show ?thesis using at_block_rep [OF at lt] eq by simp
  next
    case True
    then have "\<not> w_valid (tl_data t')" using data.wrapped_at(1) [OF w'(1)] by (simp add: step_back_def)
    from Suc.IH [OF w'(2) this j] show ?thesis using offset_Suc [OF j, of blk] True eq by simp
  qed
qed

text \<open>After moving in the block at \<open>j\<close>: valid there, or on to the next or last block.\<close>

lemma settle_forward:
  assumes at: "at_block idx j p t" and p: "p \<le> length (blk (snd (idx ! j)))"
  shows "tl_rep (SkipEmptyDataBlocksForward iops dops bf t) (flat blk idx) (offset blk idx j + p)"
proof -
  have w: "wrapped drep (tl_data t) (blk (snd (idx ! j))) p" "tl_inv idx j t" "j < length idx"
    using at by (simp_all add: at_block_def)
  show ?thesis
  proof (cases "p < length (blk (snd (idx ! j)))")
    case True
    then have "SkipEmptyDataBlocksForward iops dops bf t = Some t" using stay_forward [OF w(1)] by simp
    then show ?thesis using at_block_rep [OF at True] by simp
  next
    case False
    then have "\<not> w_valid (tl_data t)" using data.wrapped_at(1) [OF w(1)] by simp
    from SkipForward_rep [OF w(2) this] w(3) p False offset_Suc [OF w(3), of blk] show ?thesis by simp
  qed
qed

lemma settle_backward:
  assumes at: "at_block idx j (step_back (length (blk (snd (idx ! j)))) p) t" and p: "p \<le> length (blk (snd (idx ! j)))"
  shows "tl_rep (SkipEmptyDataBlocksBackward iops dops bf t) (flat blk idx)
    (step_back (length (flat blk idx)) (offset blk idx j + p))"
proof -
  let ?b = "blk (snd (idx ! j))"
  have w: "wrapped drep (tl_data t) ?b (step_back (length ?b) p)" "tl_inv idx j t" "j < length idx"
    using at by (simp_all add: at_block_def)
  show ?thesis
  proof (cases "p = 0")
    case False
    then have lt: "step_back (length ?b) p < length ?b" using p by (simp add: step_back_def)
    then have "SkipEmptyDataBlocksBackward iops dops bf t = Some t" using stay_backward [OF w(1)] by simp
    then show ?thesis using at_block_rep [OF at lt] False by (simp add: step_back_def)
  next
    case True
    then have "\<not> w_valid (tl_data t)" using data.wrapped_at(1) [OF w(1)] by (simp add: step_back_def)
    from SkipBackward_rep [OF w(2) this w(3)] True show ?thesis by simp
  qed
qed

lemma tl_repE:
  assumes "tl_rep s es i"
  obtains t idx j where "s = Some t" "es = flat blk idx" "i \<le> length es" "tl_inv idx j t"
    "w_valid (tl_data t) \<longleftrightarrow> i < length es"
proof -
  obtain t idx where t: "s = Some t" "es = flat blk idx" "i \<le> length es"
    and c: "if i < length es then
          (\<exists>j p. at_block idx j p t \<and> p < length (blk (snd (idx ! j))) \<and> i = offset blk idx j + p)
        else w_valid (tl_data t) = False \<and> (\<exists>j. tl_inv idx j t)"
    using assms unfolding tl_rep_def by blast
  show ?thesis
  proof (cases "i < length es")
    case True
    then obtain j p where at: "at_block idx j p t" "p < length (blk (snd (idx ! j)))" using c by auto
    then have "w_valid (tl_data t)" using data.wrapped_at(1) by (auto simp: at_block_def)
    then show ?thesis using that [OF t(1,2,3), of j] at True by (simp add: at_block_def)
  next
    case False
    then show ?thesis using c that [OF t(1,2,3)] by auto
  qed
qed

lemma tl_rep_validE:
  assumes "tl_rep s es i" "i < length es"
  obtains t idx j p where "s = Some t" "es = flat blk idx" "at_block idx j p t" "p < length (blk (snd (idx ! j)))"
    "i = offset blk idx j + p" "es ! i = blk (snd (idx ! j)) ! p"
proof -
  obtain t idx j p where r: "s = Some t" "es = flat blk idx" "at_block idx j p t" "p < length (blk (snd (idx ! j)))"
    "i = offset blk idx j + p"
    using assms unfolding tl_rep_def by auto
  then have "es ! i = blk (snd (idx ! j)) ! p" using flat_nth(1) by (simp add: at_block_def)
  with that r show ?thesis by blast
qed

lemma at_block_move:
  assumes "at_block idx j p t" "wrapped drep w (blk (snd (idx ! j))) q"
  shows "at_block idx j q (t\<lparr>tl_data := w\<rparr>)"
  using assms by (auto simp: at_block_def tl_inv_def)

text \<open>The lower bound in the block the index leads to is the lower bound of all.\<close>

lemma lower_bound_flat:
  assumes sep: "separated cmp blk idx" and sorted: "entries_sorted cmp idx" and j_def: "j = lower_bound cmp target idx"
  shows "lower_bound cmp target (flat blk idx) =
    (if j < length idx then offset blk idx j + lower_bound cmp target (blk (snd (idx ! j))) else length (flat blk idx))"
proof -
  have idx_less: "cmp (fst (idx ! k)) target < 0 \<longleftrightarrow> k < j" if "k < length idx" for k
    using index.cut_nth [OF sorted index.down_less that] by (simp add: j_def lower_bound_cut)
  have before: "cmp (fst e) target < 0" if "k < j" "k < length idx" "e \<in> set (blk (snd (idx ! k)))" for e k
    using that sep idx_less index.cmp_le_less_trans unfolding separated_def by blast
  have after: "\<not> cmp (fst e) target < 0" if "j < k" "k < length idx" "e \<in> set (blk (snd (idx ! k)))" for e k
  proof -
    have "\<not> cmp (fst (idx ! j)) target < 0" using idx_less [of j] that by simp
    moreover have "cmp (fst (idx ! j)) (fst e) < 0" using that sep unfolding separated_def by auto
    ultimately show ?thesis using index.cmp_less_trans by blast
  qed
  have pre: "e \<in> set (flat blk (take j idx)) \<Longrightarrow> cmp (fst e) target < 0" for e
    using flat_mem_take [of e blk j idx] before by blast
  show ?thesis
  proof (cases "j < length idx")
    case True
    have post: "e \<in> set (flat blk (drop (j + 1) idx)) \<Longrightarrow> \<not> cmp (fst e) target < 0" for e
      using flat_mem_drop [of e blk "j + 1" idx] after by (metis Suc_eq_plus1 Suc_le_lessD)
    show ?thesis
      unfolding lower_bound_cut flat_split [OF True, of blk] offset_def
      using True pre post by (simp add: cut_pos_append cut_pos_stop)
  next
    case False
    then have "take j idx = idx" by simp
    then show ?thesis using pre False cut_pos_append [of "flat blk idx" "\<lambda>a. cmp a target < 0" "[]"]
      by (simp add: lower_bound_cut) (simp add: cut_pos_def)
  qed
qed

lemma two_level_iterator: "sorted_iterator cmp (TwoLevel_ops iops dops bf) tl_rep"
proof unfold_locales
  fix s es i assume rep: "tl_rep s es i"
  obtain t idx j where t: "s = Some t" "es = flat blk idx" "i \<le> length es" "tl_inv idx j t"
    "w_valid (tl_data t) \<longleftrightarrow> i < length es"
    using tl_repE [OF rep] by blast
  have sep: "separated cmp blk idx" and w: "wrapped irep (tl_index t) idx j" using t(4) by (simp_all add: tl_inv_def)
  have isort: "entries_sorted cmp idx" using index.wrapped_laws(1) [OF w] .
  show "entries_sorted cmp es" "i \<le> length es" using sep t by (simp_all add: separated_def)
  show "i_valid (TwoLevel_ops iops dops bf) s \<longleftrightarrow> i < length es" using t by (simp add: TwoLevel_ops_def)
  have "Wrapper_status iops (tl_index t) = Status_OK" using index.wrapped_laws(6) [OF w] .
  moreover have "w_iter (tl_data t) \<noteq> None \<Longrightarrow> Wrapper_status dops (tl_data t) = Status_OK"
    using t(4) data.wrapped_laws(6) by (auto simp: tl_inv_def)
  ultimately show "i_status (TwoLevel_ops iops dops bf) s = Status_OK"
    using t by (auto simp: TwoLevel_ops_def TwoLevel_status_def tl_inv_def)
  show "tl_rep (i_seek_first (TwoLevel_ops iops dops bf) s) es 0"
  proof -
    have inv: "tl_inv idx 0 (t\<lparr>tl_index := Wrapper_SeekToFirst iops (tl_index t)\<rparr>)"
      using move_index [OF t(4) index.wrapped_laws(7) [OF w]] .
    note o = open_and_move [OF inv, of "Wrapper_SeekToFirst dops" "\<lambda>_. 0", OF data.wrapped_laws(7)]
    show ?thesis
    proof (cases "0 < length idx")
      case True
      with o settle_forward [of idx 0 0] show ?thesis by (simp add: t TwoLevel_ops_def TwoLevel_SeekToFirst_def)
    next
      case False
      then have "length (flat blk idx) = 0" by (simp add: flat_def)
      with o False SkipForward_end [of idx 0] show ?thesis
        by (simp add: t TwoLevel_ops_def TwoLevel_SeekToFirst_def)
    qed
  qed
  show "tl_rep (i_seek_last (TwoLevel_ops iops dops bf) s) es (step_back (length es) (length es))"
  proof -
    let ?l = "step_back (length idx) (length idx)"
    have inv: "tl_inv idx ?l (t\<lparr>tl_index := Wrapper_SeekToLast iops (tl_index t)\<rparr>)"
      using move_index [OF t(4) index.wrapped_laws(8) [OF w]] .
    note o = open_and_move [OF inv, of "Wrapper_SeekToLast dops" "\<lambda>es. step_back (length es) (length es)", OF data.wrapped_laws(8)]
    show ?thesis
    proof (cases "idx = []")
      case True
      then have "length (flat blk idx) = 0" "\<not> ?l < length idx" by (simp_all add: flat_def)
      with o SkipBackward_end [of idx ?l] show ?thesis
        by (simp add: t TwoLevel_ops_def TwoLevel_SeekToLast_def step_back_def)
    next
      case False
      then have l: "?l < length idx" "?l + 1 = length idx" by (simp_all add: step_back_def)
      have "offset blk idx ?l + length (blk (snd (idx ! ?l))) = length (flat blk idx)"
        using offset_Suc [OF l(1), of blk] l(2) by simp
      with o l settle_backward [of idx ?l "length (blk (snd (idx ! ?l)))"] show ?thesis
        by (simp add: t TwoLevel_ops_def TwoLevel_SeekToLast_def)
    qed
  qed
  show "tl_rep (i_seek (TwoLevel_ops iops dops bf) target s) es (lower_bound cmp target es)" for target
  proof -
    let ?l = "lower_bound cmp target idx"
    have inv: "tl_inv idx ?l (t\<lparr>tl_index := Wrapper_Seek iops target (tl_index t)\<rparr>)"
      using move_index [OF t(4) index.wrapped_laws(9) [OF w]] .
    note o = open_and_move [OF inv, of "Wrapper_Seek dops target" "lower_bound cmp target", OF data.wrapped_laws(9)]
    show ?thesis
    proof (cases "?l < length idx")
      case True
      have "lower_bound cmp target (blk (snd (idx ! ?l))) \<le> length (blk (snd (idx ! ?l)))"
        by (simp add: lower_bound_cut cut_le)
      with o True settle_forward [of idx ?l] lower_bound_flat [OF sep isort refl, of target] show ?thesis
        by (simp add: t TwoLevel_ops_def TwoLevel_Seek_def)
    next
      case False
      with o SkipForward_end [of idx ?l] lower_bound_flat [OF sep isort refl, of target] show ?thesis
        by (simp add: t TwoLevel_ops_def TwoLevel_Seek_def)
    qed
  qed
  assume lt: "i < length es"
  obtain t idx j p where v: "s = Some t" "es = flat blk idx" "at_block idx j p t" "p < length (blk (snd (idx ! j)))"
    "i = offset blk idx j + p" "es ! i = blk (snd (idx ! j)) ! p"
    using tl_rep_validE [OF rep lt] by blast
  have d: "wrapped drep (tl_data t) (blk (snd (idx ! j))) p" using v(3) by (simp add: at_block_def)
  show "i_key (TwoLevel_ops iops dops bf) s = fst (es ! i)" "i_value (TwoLevel_ops iops dops bf) s = snd (es ! i)"
    using data.wrapped_at(2) [OF d v(4)] data.wrapped_laws(5) [OF d v(4)] v(6) by (simp_all add: v(1) TwoLevel_ops_def)
  show "tl_rep (i_next (TwoLevel_ops iops dops bf) s) es (i + 1)"
    using settle_forward [OF at_block_move [OF v(3) data.wrapped_laws(10) [OF d v(4)]]] v(4)
    by (simp add: v(1,2,5) TwoLevel_ops_def TwoLevel_Next_def)
  show "tl_rep (i_prev (TwoLevel_ops iops dops bf) s) es (step_back (length es) i)"
    using settle_backward [OF at_block_move [OF v(3) data.wrapped_laws(11) [OF d v(4)]]] v(4)
    by (simp add: v(1,2,5) TwoLevel_ops_def TwoLevel_Prev_def)
qed

lemma two_level_new:
  assumes "irep s idx j" "snd ` set idx \<subseteq> handles" "separated cmp blk idx"
  shows "tl_rep (Some (TwoLevel_new iops dops s)) (flat blk idx) (length (flat blk idx))"
proof -
  have "tl_inv idx j (TwoLevel_new iops dops s)"
    using assms index.wrapped_new by (simp add: tl_inv_def TwoLevel_new_def Wrapper_new_def Wrapper_Set_def)
  moreover have "\<not> w_valid (tl_data (TwoLevel_new iops dops s))"
    by (simp add: TwoLevel_new_def Wrapper_new_def Wrapper_Set_def)
  ultimately show ?thesis by (rule end_rep)
qed

end

end
