(* ===== verification/Sst_Table.thy ===== *)
theory Sst_Table
  imports Sst_Builder Two_Level Dbformat
begin

text \<open>
  Reading tables: \<^verbatim>\<open>Table\<close> of \<^verbatim>\<open>src/table/table.cc\<close> and
  \<^verbatim>\<open>src/table/include/table.h\<close>.  The block cache is an optional pair of operations
  on a state of its own; the state is passed through.  The clean-up functions
  registered at the iterators are in \<open>Iterators\<close>.
\<close>

record Table =
  tb_file :: RandomAccessFile
  tb_cache_id :: u64
  tb_filter :: "FilterBlockReader option"
  tb_metaindex :: BlockHandle
  tb_index :: Block

definition meta_options :: "TableConfig \<Rightarrow> ReadOptions" where
  "meta_options cfg = \<lparr>verify_checksums = paranoid_checks cfg, fill_cache = True\<rparr>"

definition Table_ReadFilter ::
    "(bytes \<Rightarrow> u32) \<Rightarrow> Codecs \<Rightarrow> TableConfig \<Rightarrow> bytes \<Rightarrow> Table \<Rightarrow> Table"
where
  "Table_ReadFilter crc cs cfg filter_handle_value t =
     (case BlockHandle_DecodeFrom filter_handle_value of
        Inl s \<Rightarrow> t
      | Inr (filter_handle, v) \<Rightarrow>
          (case ReadBlock crc cs (tb_file t) (meta_options cfg) filter_handle of
             Inl s \<Rightarrow> t
           | Inr block \<Rightarrow> t\<lparr>tb_filter := Some (FilterBlockReader_new (bc_data block))\<rparr>))"

definition Table_ReadMeta ::
    "(bytes \<Rightarrow> u32) \<Rightarrow> Codecs \<Rightarrow> TableConfig \<Rightarrow> Footer \<Rightarrow> Table \<Rightarrow> Table"
where
  "Table_ReadMeta crc cs cfg footer t =
     (case tc_policy cfg of
        None \<Rightarrow> t
      | Some p \<Rightarrow>
          (case ReadBlock crc cs (tb_file t) (meta_options cfg) (ft_metaindex footer) of
             Inl s \<Rightarrow> t
           | Inr contents \<Rightarrow>
               let ops = AnyBlockIter_ops BytewiseComparatorImpl_Compare;
                   key = text_bytes ''filter.'' @ fp_name p;
                   iter = i_seek ops key (Block_NewIterator (Block_new (bc_data contents)))
               in if i_valid ops iter \<and> i_key ops iter = key
                  then Table_ReadFilter crc cs cfg (i_value ops iter) t else t))"

text \<open>\<^verbatim>\<open>new_id\<close> is what the block cache, if there is one, hands out as the id.\<close>

definition OpenSST ::
    "(bytes \<Rightarrow> u32) \<Rightarrow> Codecs \<Rightarrow> TableConfig \<Rightarrow> u64 option \<Rightarrow> RandomAccessFile \<Rightarrow> nat \<Rightarrow> Status + Table"
where
  "OpenSST crc cs cfg new_id file n =
     (if n < kEncodedLength then Inl (Corruption ''file is too short to be an sst'')
      else
        let (status, footer_input) = RandomAccessFile_Read (n - kEncodedLength) kEncodedLength file
        in if \<not> ok status then Inl status
           else case Footer_DecodeFrom footer_input of
             Inl s \<Rightarrow> Inl s
           | Inr (footer, rest) \<Rightarrow>
               (case ReadBlock crc cs file (meta_options cfg) (ft_index footer) of
                  Inl s \<Rightarrow> Inl s
                | Inr contents \<Rightarrow>
                    Inr (Table_ReadMeta crc cs cfg footer
                      \<lparr>tb_file = file, tb_cache_id = (case new_id of None \<Rightarrow> 0 | Some i \<Rightarrow> i), tb_filter = None,
                       tb_metaindex = ft_metaindex footer, tb_index = Block_new (bc_data contents)\<rparr>)))"

text \<open>
  A block cache: looking a key up, and inserting a block under a key with its
  charge.  Looking up changes the cache too (the order of use).
\<close>

record 'c BlockCache =
  cache_lookup :: "bytes \<Rightarrow> 'c \<Rightarrow> Block option \<times> 'c"
  cache_insert :: "bytes \<Rightarrow> Block \<Rightarrow> nat \<Rightarrow> 'c \<Rightarrow> 'c"

definition block_cache_key :: "Table \<Rightarrow> BlockHandle \<Rightarrow> bytes" where
  "block_cache_key t handle = EncodeFixed64 (tb_cache_id t) @ EncodeFixed64 (bh_offset handle)"

definition fetch_block ::
    "(bytes \<Rightarrow> u32) \<Rightarrow> Codecs \<Rightarrow> Table \<Rightarrow> ReadOptions \<Rightarrow> 'c BlockCache option \<Rightarrow> BlockHandle \<Rightarrow> 'c
      \<Rightarrow> (Status + Block) \<times> 'c"
where
  "fetch_block crc cs t options block_cache handle c =
     (case block_cache of
        Some ops \<Rightarrow>
          (let key = block_cache_key t handle; (found, c) = cache_lookup ops key c
           in case found of
                Some block \<Rightarrow> (Inr block, c)
              | None \<Rightarrow>
                  (case ReadBlock crc cs (tb_file t) options handle of
                     Inl s \<Rightarrow> (Inl s, c)
                   | Inr contents \<Rightarrow>
                       let block = Block_new (bc_data contents)
                       in (Inr block,
                           if bc_cacheable contents \<and> fill_cache options
                           then cache_insert ops key block (blk_size block) c else c)))
      | None \<Rightarrow>
          (case ReadBlock crc cs (tb_file t) options handle of
             Inl s \<Rightarrow> (Inl s, c)
           | Inr contents \<Rightarrow> (Inr (Block_new (bc_data contents)), c)))"

definition BlockReader ::
    "(bytes \<Rightarrow> u32) \<Rightarrow> Codecs \<Rightarrow> Table \<Rightarrow> ReadOptions \<Rightarrow> 'c BlockCache option \<Rightarrow> bytes \<Rightarrow> 'c
      \<Rightarrow> (Status + BlockIter) \<times> 'c"
where
  "BlockReader crc cs t options block_cache index_value c =
     (case BlockHandle_DecodeFrom index_value of
        Inl s \<Rightarrow> (Inl (NewErrorIterator s), c)
      | Inr (handle, rest) \<Rightarrow>
          (case fetch_block crc cs t options block_cache handle c of
             (Inl s, c) \<Rightarrow> (Inl (NewErrorIterator s), c)
           | (Inr block, c) \<Rightarrow> (Block_NewIterator block, c)))"

text \<open>
  The iterator of a table, without a block cache: the block function does not
  depend on a state then.
\<close>

definition plain_reader ::
    "(bytes \<Rightarrow> u32) \<Rightarrow> Codecs \<Rightarrow> Table \<Rightarrow> ReadOptions \<Rightarrow> bytes \<Rightarrow> Status + BlockIter"
where
  "plain_reader crc cs t options index_value = fst (BlockReader crc cs t options (None :: unit BlockCache option) index_value ())"

type_synonym TableIter = "(Status + BlockIter, Status + BlockIter) TwoLevel option"

definition TableIter_ops ::
    "(bytes \<Rightarrow> u32) \<Rightarrow> Codecs \<Rightarrow> TableConfig \<Rightarrow> ReadOptions \<Rightarrow> Table \<Rightarrow> TableIter IterOps"
where
  "TableIter_ops crc cs cfg options t =
     TwoLevel_ops (AnyBlockIter_ops (tc_internal cfg)) (AnyBlockIter_ops (tc_internal cfg)) (plain_reader crc cs t options)"

definition Table_NewIterator :: "TableConfig \<Rightarrow> Table \<Rightarrow> TableIter" where
  "Table_NewIterator cfg t =
     Some (TwoLevel_new (AnyBlockIter_ops (tc_internal cfg)) (AnyBlockIter_ops (tc_internal cfg))
       (Block_NewIterator (tb_index t)))"

text \<open>
  The loop over all entries of a block that \<^verbatim>\<open>InternalGet\<close> runs before it seeks.
\<close>

definition walk_block :: "Status + BlockIter \<Rightarrow> Status + BlockIter" where
  "walk_block it =
     (case it of
        Inl s \<Rightarrow> Inl s
      | Inr it \<Rightarrow>
          let it = BlockIter_SeekToFirst it
          in Inr (if BlockIter_Valid it then parse_while BlockIter_Valid it else it))"

text \<open>The call of \<^verbatim>\<open>handle_result\<close> is the entry it gets, if any.\<close>

definition InternalGet ::
    "(bytes \<Rightarrow> u32) \<Rightarrow> Codecs \<Rightarrow> TableConfig \<Rightarrow> ReadOptions \<Rightarrow> 'c BlockCache option \<Rightarrow> bytes \<Rightarrow> Table \<Rightarrow> 'c
      \<Rightarrow> Status \<times> (bytes \<times> bytes) option \<times> 'c"
where
  "InternalGet crc cs cfg options block_cache k t c =
     (let ops = AnyBlockIter_ops (tc_internal cfg);
          iiter = i_seek ops k (Block_NewIterator (tb_index t))
      in if i_valid ops iiter then
           let handle_value = i_value ops iiter;
               filtered = (case (tb_filter t, tc_policy cfg, BlockHandle_DecodeFrom handle_value) of
                   (Some reader, Some p, Inr (handle, rest)) \<Rightarrow>
                      \<not> FilterBlock_KeyMayMatch (fp_may_match p) reader (bh_offset handle) k
                 | _ \<Rightarrow> False)
           in if filtered then (i_status ops iiter, None, c)
              else
                let (block_iter, c) = BlockReader crc cs t options block_cache handle_value c;
                    block_iter = i_seek ops k (walk_block block_iter);
                    result = shown ops block_iter;
                    status = i_status ops block_iter
                in (if ok status then i_status ops iiter else status, result, c)
         else (i_status ops iiter, None, c))"

definition Table_ApproximateOffsetOf :: "TableConfig \<Rightarrow> bytes \<Rightarrow> Table \<Rightarrow> u64" where
  "Table_ApproximateOffsetOf cfg key t =
     (let ops = AnyBlockIter_ops (tc_compare cfg);
          index_iter = i_seek ops key (Block_NewIterator (tb_index t))
      in if i_valid ops index_iter then
           (case BlockHandle_DecodeFrom (i_value ops index_iter) of
              Inr (handle, rest) \<Rightarrow> bh_offset handle
            | Inl s \<Rightarrow> bh_offset (tb_metaindex t))
         else bh_offset (tb_metaindex t))"

end
