(* ===== verification/Db_State.thy ===== *)
theory Db_State
  imports Compaction Memtable Write_Batch Sst_Table Iter_Merger
begin

text \<open>
  The database object: the fields of \<^verbatim>\<open>DBImpl\<close> (\<^verbatim>\<open>src/db/include/db_impl.h\<close>) and the
  operations of \<^verbatim>\<open>src/db/db_impl.cc\<close> that turn a memory table into a file,
  schedule background work and delete files nobody needs.  The mutex is not
  modelled: between two points where the code releases it an operation runs
  alone.  Logging is left out.
\<close>

section \<open>The environment\<close>

text \<open>
  Beside the environment of the manifest: the compression libraries, the
  allocator of the memory tables, the outcomes of the system calls on a file
  that gets opened (by its name), the directory listing, and the status of an
  iterator the table cache makes for a file (its number and size).
\<close>

record DbEnv = ManifestEnv +
  de_codecs :: Codecs
  de_new_block :: "(nat \<times> nat) list \<Rightarrow> nat \<Rightarrow> nat"
  de_io :: "bytes \<Rightarrow> IoScript"
  de_children :: "FS \<Rightarrow> Status \<times> bytes list"
  de_table_status :: "FS \<Rightarrow> u64 \<Rightarrow> u64 \<Rightarrow> Status"

text \<open>One record of the queue of writers; \<open>None\<close> is the null batch, which only waits.\<close>

record WriteInfo =
  wi_id :: nat
  wi_status :: Status
  wi_batch :: "bytes option"
  wi_sync :: bool
  wi_done :: bool

record ManualCompaction =
  mc_level :: nat
  mc_done :: bool
  mc_begin :: "bytes option"
  mc_end :: "bytes option"

record DBImpl =
  db_name :: bytes
  db_config :: TableConfig
  db_fs :: FS
  db_shutting_down :: bool
  db_mem :: "MemTable option"
  db_imm :: "MemTable option"
  db_has_imm :: bool
  db_wal :: "WritableFile Writer option"
  db_wal_number :: u64
  db_seed :: u32
  db_writers :: "WriteInfo list"
  db_tmp_batch :: bytes
  db_snapshots :: "u64 list"
  db_pending_outputs :: "u64 set"
  db_scheduled :: bool
  db_manual :: "ManualCompaction option"
  db_versions :: VersionSet
  db_bg_error :: Status

text \<open>The environment of the manifest, with the configuration as it is now.\<close>

definition manifest_env :: "DbEnv \<Rightarrow> DBImpl \<Rightarrow> ManifestEnv" where
  "manifest_env env db =
     \<lparr>me_crc = me_crc env, me_ext_crc = me_ext_crc env, me_moved_from = me_moved_from env,
      me_comparator_name = me_comparator_name env, me_config = DBConfig.truncate (db_config db)\<rparr>"

definition DBImpl_new :: "bytes \<Rightarrow> TableConfig \<Rightarrow> FS \<Rightarrow> DBImpl" where
  "DBImpl_new dbname cfg fs =
     \<lparr>db_name = dbname, db_config = cfg, db_fs = fs, db_shutting_down = False, db_mem = None, db_imm = None,
      db_has_imm = False, db_wal = None, db_wal_number = 0, db_seed = 0, db_writers = [],
      db_tmp_batch = WriteBatch_Clear, db_snapshots = [], db_pending_outputs = {}, db_scheduled = False,
      db_manual = None, db_versions = VersionSet_new dbname (num_levels cfg), db_bg_error = Status_OK\<rparr>"

section \<open>The iterator of a memory table\<close>

text \<open>
  The state is a position in the table; the outer \<open>None\<close> is a search in the skip
  list that does not return.
\<close>

type_synonym MemPosition = "nat option option"

definition MemTableIterator_ops :: "MemTable \<Rightarrow> MemPosition IterOps" where
  "MemTableIterator_ops m =
     \<lparr>i_valid = (\<lambda>p. case p of Some (Some n) \<Rightarrow> True | _ \<Rightarrow> False),
      i_seek_first = (\<lambda>p. Some (MemTableIterator_SeekToFirst m)),
      i_seek_last = (\<lambda>p. MemTableIterator_SeekToLast m),
      i_seek = (\<lambda>target p. MemTableIterator_Seek ucmp m target),
      i_next = (\<lambda>p. case p of Some (Some n) \<Rightarrow> Some (MemTableIterator_Next m n) | _ \<Rightarrow> p),
      i_prev = (\<lambda>p. case p of Some (Some n) \<Rightarrow> MemTableIterator_Prev ucmp m n | _ \<Rightarrow> p),
      i_key = (\<lambda>p. case p of Some (Some n) \<Rightarrow> MemTableIterator_key m n | _ \<Rightarrow> []),
      i_value = (\<lambda>p. case p of Some (Some n) \<Rightarrow> MemTableIterator_value m n | _ \<Rightarrow> []),
      i_status = (\<lambda>p. Status_OK)\<rparr>"

section \<open>Writing a table\<close>

text \<open>The loop over the iterator: the builder, the last key and the iterator after it.\<close>

partial_function (option) BuildSST_loop ::
    "'s IterOps \<Rightarrow> (bytes \<Rightarrow> bytes \<Rightarrow> SSTBuilder \<Rightarrow> SSTBuilder) \<Rightarrow> bytes \<Rightarrow> 's \<Rightarrow> SSTBuilder \<Rightarrow>
     (bytes \<times> 's \<times> SSTBuilder) option" where
  "BuildSST_loop ops add key iter b =
     (if i_valid ops iter then
        BuildSST_loop ops add (i_key ops iter) (i_next ops iter) (add (i_key ops iter) (i_value ops iter) b)
      else Some (key, iter, b))"

declare BuildSST_loop.simps [code]

text \<open>\<^verbatim>\<open>close\<close> takes its outcome from the file system.\<close>

definition close_file :: "WritableFile \<Rightarrow> FS \<Rightarrow> Status \<times> WritableFile \<times> FS" where
  "close_file file fs =
     (let (e, fs) = next_call fs; (s, file) = WritableFile_Close e file in (s, file, publish file fs))"

text \<open>
  Building, syncing, closing and checking the file of a valid iterator; the flag
  says that the file could not be created, where the code returns at once.  The
  configuration changes because the builder's constructor sets the restart
  interval.
\<close>

definition build_file ::
    "DbEnv \<Rightarrow> 's IterOps \<Rightarrow> bytes \<Rightarrow> 's \<Rightarrow> SSTMetaData \<Rightarrow> TableConfig \<Rightarrow> FS \<Rightarrow>
     (bool \<times> Status \<times> 's \<times> SSTMetaData \<times> TableConfig \<times> FS) option" where
  "build_file env ops sst_name iter sst cfg fs =
     (case NewWritableFile (me_moved_from env) (de_io env sst_name) sst_name fs of
        (s, None, fs) \<Rightarrow> Some (True, s, iter, sst, cfg, fs)
      | (s, Some file, fs) \<Rightarrow>
          (let (cfg, b) = SSTBuilder_new cfg file;
               add = SSTBuilder_Add (me_crc env) (me_ext_crc env) (de_codecs env) cfg
           in case BuildSST_loop ops add [] iter b of
                None \<Rightarrow> None
              | Some (key, it, b) \<Rightarrow>
                  (let (s, b) = SSTBuilder_Finish (me_crc env) (me_ext_crc env) (de_codecs env) cfg b;
                       sst = sst\<lparr>smallest_key := i_key ops iter,
                                 largest_key := (if key \<noteq> [] then key else largest_key sst),
                                 sst_size := (if ok s then SSTBuilder_FileSize b else sst_size sst)\<rparr>;
                       (s, file) = (if ok s then WritableFile_Sync (sb_file b) else (s, sb_file b));
                       (s, file, fs) = (if ok s then close_file file fs else (s, file, publish file fs));
                       s = (if ok s then de_table_status env fs (sst_number sst) (sst_size sst) else s)
                   in Some (False, s, it, sst, cfg, fs))))"

definition BuildSST ::
    "DbEnv \<Rightarrow> bytes \<Rightarrow> 's IterOps \<Rightarrow> 's \<Rightarrow> SSTMetaData \<Rightarrow> TableConfig \<Rightarrow> FS \<Rightarrow>
     (Status \<times> SSTMetaData \<times> TableConfig \<times> FS) option" where
  "BuildSST env dbname ops iter0 sst0 cfg0 fs0 =
     (let iter = i_seek_first ops iter0;
          sst_name = SSTFileName dbname (sst_number sst0)
      in case (if i_valid ops iter then build_file env ops sst_name iter (sst0\<lparr>sst_size := 0\<rparr>) cfg0 fs0
               else Some (False, Status_OK, iter, sst0\<lparr>sst_size := 0\<rparr>, cfg0, fs0)) of
           None \<Rightarrow> None
         | Some (early, s, it, sst, cfg, fs) \<Rightarrow>
             if early then Some (s, sst, cfg, fs)
             else
               let s = (if \<not> ok (i_status ops it) then i_status ops it else s)
               in if ok s \<and> 0 < sst_size sst then Some (s, sst, cfg, fs)
                  else Some (s, sst, cfg, snd (RemoveFile sst_name fs)))"

section \<open>A memory table becomes a file\<close>

text \<open>\<open>base\<close> is the version whose levels decide where the file goes; without one it goes to level 0.\<close>

definition WriteToLevel0 ::
    "DbEnv \<Rightarrow> MemTable \<Rightarrow> VersionEdit \<Rightarrow> Version option \<Rightarrow> DBImpl \<Rightarrow> (Status \<times> VersionEdit \<times> DBImpl) option" where
  "WriteToLevel0 env mem edit base db =
     (let (number, versions) = NewFileNumber (db_versions db);
          meta = SSTMetaData_new number 0 [] [];
          db = db\<lparr>db_versions := versions, db_pending_outputs := insert number (db_pending_outputs db)\<rparr>
      in case BuildSST env (db_name db) (MemTableIterator_ops mem) (Some None) meta (db_config db) (db_fs db) of
           None \<Rightarrow> None
         | Some (s, meta, cfg, fs) \<Rightarrow>
             (let db = db\<lparr>db_config := cfg, db_fs := fs, db_pending_outputs := db_pending_outputs db - {number}\<rparr>;
                  edit =
                    (if ok s \<and> 0 < sst_size meta then
                       let level = (case base of
                              None \<Rightarrow> 0
                            | Some v \<Rightarrow> PickLevelForMemTableCompactionOutput (max_mem_compact_level cfg) (num_levels cfg)
                                          (max_file_size cfg) v (ExtractUserKey (smallest_key meta))
                                          (ExtractUserKey (largest_key meta)))
                       in AddSST (int level) number (sst_size meta) (smallest_key meta) (largest_key meta) edit
                     else edit)
              in Some (s, edit, db)))"

section \<open>Background errors and obsolete files\<close>

definition RecordBackgroundError :: "Status \<Rightarrow> DBImpl \<Rightarrow> DBImpl" where
  "RecordBackgroundError s db = (if ok (db_bg_error db) then db\<lparr>db_bg_error := s\<rparr> else db)"

definition MaybeIgnoreError :: "DBImpl \<Rightarrow> Status \<Rightarrow> Status" where
  "MaybeIgnoreError db s = (if ok s \<or> paranoid_checks (db_config db) then s else Status_OK)"

definition keep_file :: "DBImpl \<Rightarrow> u64 set \<Rightarrow> u64 \<Rightarrow> FileType \<Rightarrow> bool" where
  "keep_file db live number type =
     (case type of
        kWalFile \<Rightarrow> vs_log_number (db_versions db) \<le> number \<or> number = vs_prev_log_number (db_versions db)
      | kManifestFile \<Rightarrow> vs_manifest_number (db_versions db) \<le> number
      | kSSTFile \<Rightarrow> number \<in> live
      | kTempFile \<Rightarrow> number \<in> live
      | kCurrentFile \<Rightarrow> True
      | kDBLockFile \<Rightarrow> True
      | kInfoLogFile \<Rightarrow> True)"

definition files_to_delete :: "DBImpl \<Rightarrow> u64 set \<Rightarrow> bytes list \<Rightarrow> bytes list" where
  "files_to_delete db live names =
     filter (\<lambda>x. case ParseFileName x of None \<Rightarrow> False | Some (number, type) \<Rightarrow> \<not> keep_file db live number type) names"

definition RemoveObsoleteFiles :: "DbEnv \<Rightarrow> DBImpl \<Rightarrow> DBImpl" where
  "RemoveObsoleteFiles env db =
     (if \<not> ok (db_bg_error db) then db
      else
        let live = AddLiveFiles (db_versions db) (db_pending_outputs db);
            names = snd (de_children env (db_fs db))
        in db\<lparr>db_fs := fold (\<lambda>x fs. snd (RemoveFile (db_name db @ text_bytes ''/'' @ x) fs))
                         (files_to_delete db live names) (db_fs db)\<rparr>)"

section \<open>Compacting the memory table\<close>

text \<open>The base version is held by a reference while the file is written.\<close>

definition CompactMemTable :: "DbEnv \<Rightarrow> DBImpl \<Rightarrow> DBImpl option" where
  "CompactMemTable env db =
     (case db_imm db of
        None \<Rightarrow> None
      | Some imm \<Rightarrow>
          (let base = current (db_versions db);
               held = vs_current (db_versions db);
               db = db\<lparr>db_versions := (case held of None \<Rightarrow> db_versions db | Some i \<Rightarrow> Version_Ref i (db_versions db))\<rparr>
           in case WriteToLevel0 env imm VersionEdit_Clear (Some base) db of
                None \<Rightarrow> None
              | Some (s, edit, db) \<Rightarrow>
                  (let db = db\<lparr>db_versions := (case held of None \<Rightarrow> db_versions db | Some i \<Rightarrow> Version_Unref i (db_versions db))\<rparr>;
                       s = (if ok s \<and> db_shutting_down db then IOError ''Deleting DB during memtable compaction'' else s)
                   in case (if ok s then
                              map_option (\<lambda>(s, edit, vs, fs). (s, db\<lparr>db_versions := vs, db_fs := fs\<rparr>))
                                (LogAndApply (manifest_env env db)
                                  (de_io env (ManifestFileName (db_name db) (vs_manifest_number (db_versions db))))
                                  (SetWalNumber (db_wal_number db) (SetPrevWalNumber 0 edit)) (db_versions db) (db_fs db))
                            else Some (s, db)) of
                        None \<Rightarrow> None
                      | Some (s, db) \<Rightarrow>
                          if ok s then Some (RemoveObsoleteFiles env (db\<lparr>db_imm := None, db_has_imm := False\<rparr>))
                          else Some (RecordBackgroundError s db))))"

definition MaybeScheduleCompaction :: "DBImpl \<Rightarrow> DBImpl" where
  "MaybeScheduleCompaction db =
     (if db_scheduled db then db
      else if db_shutting_down db then db
      else if \<not> ok (db_bg_error db) then db
      else if db_imm db = None \<and> db_manual db = None \<and> \<not> IsNeedCompaction (db_versions db) then db
      else db\<lparr>db_scheduled := True\<rparr>)"

section \<open>A new database\<close>

definition NewDB :: "DbEnv \<Rightarrow> DBImpl \<Rightarrow> Status \<times> DBImpl" where
  "NewDB env db =
     (let new_db = SetLastSequence 0 (SetNextSST 2 (SetWalNumber 0
            (SetComparatorName (me_comparator_name env) VersionEdit_Clear)));
          manifest = ManifestFileName (db_name db) 1
      in case NewWritableFile (me_moved_from env) (de_io env manifest) manifest (db_fs db) of
           (s, None, fs) \<Rightarrow> (s, db\<lparr>db_fs := fs\<rparr>)
         | (s, Some file, fs) \<Rightarrow>
             (let wal = Writer_new (me_crc env) file;
                  (s, wal) = AddRecord WritableFile_Append WritableFile_Flush (me_ext_crc env) wal (VersionEdit_EncodeTo new_db []);
                  (s, file) = (if ok s then WritableFile_Sync (wr_dest wal) else (s, wr_dest wal));
                  (s, file, fs) = (if ok s then close_file file fs else (s, file, publish file fs));
                  (s, fs) = (if ok s then SetCurrentFile (db_name db) 1 fs else (s, snd (RemoveFile manifest fs)))
              in (s, db\<lparr>db_fs := fs\<rparr>)))"

end
