(* ===== verification/Db_Iter.thy ===== *)
theory Db_Iter
  imports Iterators Dbformat Util
begin

text \<open>
  The user's iterator: \<^verbatim>\<open>DBIter\<close> of \<^verbatim>\<open>src/db/db_iter.cc\<close>.  It runs over an iterator
  of internal keys, with every version of every user key, and shows the user keys
  a sequence number sees, each with its newest value, in both directions.  The
  state of the pseudo-random generator and the calls of \<^verbatim>\<open>RecordReadSample\<close> it makes
  are part of its state.  The loops are partial functions; over an internal
  iterator that keeps the contract they all return.
\<close>

section \<open>The iterator\<close>

record 's DBIter =
  di_iter :: 's
  di_sequence :: u64
  di_status :: Status
  di_saved_key :: bytes
  di_saved_value :: bytes
  di_forward :: bool
  di_valid :: bool
  di_rnd :: u32
  di_bytes_until_read_sampling :: nat
  di_samples :: "bytes list"

text \<open>\<open>period\<close> is the argument of \<^verbatim>\<open>Uniform\<close>, twice \<^verbatim>\<open>read_bytes_period\<close>.\<close>

definition RandomCompactionPeriod :: "u32 \<Rightarrow> u32 \<Rightarrow> nat \<times> u32" where
  "RandomCompactionPeriod period rnd = (let (n, rnd) = Random_Uniform period rnd in (unat n, rnd))"

definition DBIter_new :: "u32 \<Rightarrow> 's \<Rightarrow> u64 \<Rightarrow> u32 \<Rightarrow> 's DBIter" where
  "DBIter_new period iter s seed =
     (let (n, rnd) = RandomCompactionPeriod period (Random_new seed)
      in \<lparr>di_iter = iter, di_sequence = s, di_status = Status_OK, di_saved_key = [], di_saved_value = [],
          di_forward = True, di_valid = False, di_rnd = rnd, di_bytes_until_read_sampling = n, di_samples = []\<rparr>)"

definition DBIter_key :: "'s IterOps \<Rightarrow> 's DBIter \<Rightarrow> bytes" where
  "DBIter_key ops d = (if di_forward d then ExtractUserKey (i_key ops (di_iter d)) else di_saved_key d)"

definition DBIter_value :: "'s IterOps \<Rightarrow> 's DBIter \<Rightarrow> bytes" where
  "DBIter_value ops d = (if di_forward d then i_value ops (di_iter d) else di_saved_value d)"

definition DBIter_status :: "'s IterOps \<Rightarrow> 's DBIter \<Rightarrow> Status" where
  "DBIter_status ops d = (if ok (di_status d) then i_status ops (di_iter d) else di_status d)"

text \<open>The loop of \<^verbatim>\<open>ParseKey\<close> that samples reads.\<close>

partial_function (option) read_sampling :: "u32 \<Rightarrow> bytes \<Rightarrow> nat \<Rightarrow> 's DBIter \<Rightarrow> 's DBIter option" where
  "read_sampling period k bytes_read d =
     (if di_bytes_until_read_sampling d < bytes_read then
        let (n, rnd) = RandomCompactionPeriod period (di_rnd d)
        in read_sampling period k bytes_read
             (d\<lparr>di_rnd := rnd, di_bytes_until_read_sampling := di_bytes_until_read_sampling d + n,
                di_samples := di_samples d @ [k]\<rparr>)
      else Some d)"

definition ParseKey :: "'s IterOps \<Rightarrow> u32 \<Rightarrow> 's DBIter \<Rightarrow> (ParsedInternalKey option \<times> 's DBIter) option" where
  "ParseKey ops period d =
     (let k = i_key ops (di_iter d);
          bytes_read = length k + length (i_value ops (di_iter d))
      in case read_sampling period k bytes_read d of
           None \<Rightarrow> None
         | Some d \<Rightarrow>
             (let d = d\<lparr>di_bytes_until_read_sampling := di_bytes_until_read_sampling d - bytes_read\<rparr>
              in case ParseInternalKey k of
                   None \<Rightarrow> Some (None, d\<lparr>di_status := Corruption ''corrupted internal key in DBIter''\<rparr>)
                 | Some ikey \<Rightarrow> Some (Some ikey, d)))"

text \<open>
  \<^verbatim>\<open>FindNextUserEntry\<close>; its argument \<^verbatim>\<open>skip\<close> is always the saved key.  The first
  function is the body of the loop up to \<^verbatim>\<open>iter_->Next()\<close>: whether it returns at the
  entry, and the new value of \<^verbatim>\<open>skipping\<close>.
\<close>

definition next_entry ::
    "(bytes \<Rightarrow> bytes \<Rightarrow> int) \<Rightarrow> ParsedInternalKey option \<Rightarrow> bool \<Rightarrow> 's DBIter \<Rightarrow> bool \<times> bool \<times> 's DBIter" where
  "next_entry user_compare key skipping d =
     (case key of
        None \<Rightarrow> (False, skipping, d)
      | Some ikey \<Rightarrow>
          if pk_sequence ikey \<le> di_sequence d then
            (case pk_type ikey of
               kTypeDeletion \<Rightarrow> (False, True, d\<lparr>di_saved_key := pk_user_key ikey\<rparr>)
             | kTypeValue \<Rightarrow>
                 if skipping \<and> user_compare (pk_user_key ikey) (di_saved_key d) \<le> 0 then (False, skipping, d)
                 else (True, skipping, d\<lparr>di_valid := True, di_saved_key := []\<rparr>))
          else (False, skipping, d))"

partial_function (option) FindNextUserEntry ::
    "(bytes \<Rightarrow> bytes \<Rightarrow> int) \<Rightarrow> 's IterOps \<Rightarrow> u32 \<Rightarrow> bool \<Rightarrow> 's DBIter \<Rightarrow> 's DBIter option" where
  "FindNextUserEntry user_compare ops period skipping d =
     (case ParseKey ops period d of
        None \<Rightarrow> None
      | Some r \<Rightarrow>
          (let s = next_entry user_compare (fst r) skipping (snd r)
           in if fst s then Some (snd (snd s))
              else
                let d = (snd (snd s))\<lparr>di_iter := i_next ops (di_iter (snd (snd s)))\<rparr>
                in if i_valid ops (di_iter d) then FindNextUserEntry user_compare ops period (fst (snd s)) d
                   else Some (d\<lparr>di_saved_key := [], di_valid := False\<rparr>)))"

definition DBIter_Next ::
    "(bytes \<Rightarrow> bytes \<Rightarrow> int) \<Rightarrow> 's IterOps \<Rightarrow> u32 \<Rightarrow> 's DBIter \<Rightarrow> 's DBIter option" where
  "DBIter_Next user_compare ops period d =
     (let d = (if \<not> di_forward d then
                 d\<lparr>di_forward := True,
                   di_iter := (if \<not> i_valid ops (di_iter d) then i_seek_first ops (di_iter d)
                               else i_next ops (di_iter d))\<rparr>
               else d\<lparr>di_saved_key := ExtractUserKey (i_key ops (di_iter d)), di_iter := i_next ops (di_iter d)\<rparr>)
      in if \<not> i_valid ops (di_iter d) then Some (d\<lparr>di_valid := False, di_saved_key := []\<rparr>)
         else FindNextUserEntry user_compare ops period True d)"

text \<open>
  \<^verbatim>\<open>FindPrevUserEntry\<close>: the body of its loop tells whether it breaks, and the new
  \<^verbatim>\<open>value_type\<close>.  The capacity of \<^verbatim>\<open>saved_value_\<close>, which the code keeps small, is not
  part of the state.
\<close>

definition prev_entry ::
    "(bytes \<Rightarrow> bytes \<Rightarrow> int) \<Rightarrow> 's IterOps \<Rightarrow> ParsedInternalKey option \<Rightarrow> ValueType \<Rightarrow> 's DBIter \<Rightarrow>
     bool \<times> ValueType \<times> 's DBIter" where
  "prev_entry user_compare ops key value_type d =
     (case key of
        None \<Rightarrow> (False, value_type, d)
      | Some ikey \<Rightarrow>
          if pk_sequence ikey \<le> di_sequence d then
            if value_type \<noteq> kTypeDeletion \<and> user_compare (pk_user_key ikey) (di_saved_key d) < 0
            then (True, value_type, d)
            else (False, pk_type ikey,
              (case pk_type ikey of
                 kTypeDeletion \<Rightarrow> d\<lparr>di_saved_key := [], di_saved_value := []\<rparr>
               | kTypeValue \<Rightarrow> d\<lparr>di_saved_key := ExtractUserKey (i_key ops (di_iter d)),
                                  di_saved_value := i_value ops (di_iter d)\<rparr>))
          else (False, value_type, d))"

partial_function (option) FindPrev_loop ::
    "(bytes \<Rightarrow> bytes \<Rightarrow> int) \<Rightarrow> 's IterOps \<Rightarrow> u32 \<Rightarrow> ValueType \<Rightarrow> 's DBIter \<Rightarrow> (ValueType \<times> 's DBIter) option" where
  "FindPrev_loop user_compare ops period value_type d =
     (case ParseKey ops period d of
        None \<Rightarrow> None
      | Some r \<Rightarrow>
          (let s = prev_entry user_compare ops (fst r) value_type (snd r)
           in if fst s then Some (snd s)
              else
                let d = (snd (snd s))\<lparr>di_iter := i_prev ops (di_iter (snd (snd s)))\<rparr>
                in if i_valid ops (di_iter d) then FindPrev_loop user_compare ops period (fst (snd s)) d
                   else Some (fst (snd s), d)))"

definition FindPrevUserEntry ::
    "(bytes \<Rightarrow> bytes \<Rightarrow> int) \<Rightarrow> 's IterOps \<Rightarrow> u32 \<Rightarrow> 's DBIter \<Rightarrow> 's DBIter option" where
  "FindPrevUserEntry user_compare ops period d =
     (case (if i_valid ops (di_iter d) then FindPrev_loop user_compare ops period kTypeDeletion d
            else Some (kTypeDeletion, d)) of
        None \<Rightarrow> None
      | Some (value_type, d) \<Rightarrow>
          Some (if value_type = kTypeDeletion
                then d\<lparr>di_valid := False, di_saved_key := [], di_saved_value := [], di_forward := True\<rparr>
                else d\<lparr>di_valid := True\<rparr>))"

text \<open>The loop of \<^verbatim>\<open>Prev\<close>: back to an entry with a smaller user key, if there is one.\<close>

partial_function (option) before_saved_key ::
    "(bytes \<Rightarrow> bytes \<Rightarrow> int) \<Rightarrow> 's IterOps \<Rightarrow> bytes \<Rightarrow> 's \<Rightarrow> 's option" where
  "before_saved_key user_compare ops saved_key it =
     (let it = i_prev ops it
      in if \<not> i_valid ops it then Some it
         else if user_compare (ExtractUserKey (i_key ops it)) saved_key < 0 then Some it
         else before_saved_key user_compare ops saved_key it)"

declare read_sampling.simps [code] FindNextUserEntry.simps [code] FindPrev_loop.simps [code]
  before_saved_key.simps [code]

definition DBIter_Prev ::
    "(bytes \<Rightarrow> bytes \<Rightarrow> int) \<Rightarrow> 's IterOps \<Rightarrow> u32 \<Rightarrow> 's DBIter \<Rightarrow> 's DBIter option" where
  "DBIter_Prev user_compare ops period d =
     (if di_forward d then
        let d = d\<lparr>di_saved_key := ExtractUserKey (i_key ops (di_iter d))\<rparr>
        in case before_saved_key user_compare ops (di_saved_key d) (di_iter d) of
             None \<Rightarrow> None
           | Some it \<Rightarrow>
               if \<not> i_valid ops it
               then Some (d\<lparr>di_iter := it, di_valid := False, di_saved_key := [], di_saved_value := []\<rparr>)
               else FindPrevUserEntry user_compare ops period (d\<lparr>di_iter := it, di_forward := False\<rparr>)
      else FindPrevUserEntry user_compare ops period d)"

definition DBIter_Seek ::
    "(bytes \<Rightarrow> bytes \<Rightarrow> int) \<Rightarrow> 's IterOps \<Rightarrow> u32 \<Rightarrow> bytes \<Rightarrow> 's DBIter \<Rightarrow> 's DBIter option" where
  "DBIter_Seek user_compare ops period target d =
     (let d = d\<lparr>di_forward := True, di_saved_value := [],
                di_saved_key := AppendInternalKey []
                  \<lparr>pk_user_key = target, pk_sequence = di_sequence d, pk_type = kValueTypeForSeek\<rparr>\<rparr>;
          d = d\<lparr>di_iter := i_seek ops (di_saved_key d) (di_iter d)\<rparr>
      in if i_valid ops (di_iter d) then FindNextUserEntry user_compare ops period False d
         else Some (d\<lparr>di_valid := False\<rparr>))"

definition DBIter_SeekToFirst ::
    "(bytes \<Rightarrow> bytes \<Rightarrow> int) \<Rightarrow> 's IterOps \<Rightarrow> u32 \<Rightarrow> 's DBIter \<Rightarrow> 's DBIter option" where
  "DBIter_SeekToFirst user_compare ops period d =
     (let d = d\<lparr>di_forward := True, di_saved_value := [], di_iter := i_seek_first ops (di_iter d)\<rparr>
      in if i_valid ops (di_iter d) then FindNextUserEntry user_compare ops period False d
         else Some (d\<lparr>di_valid := False\<rparr>))"

definition DBIter_SeekToLast ::
    "(bytes \<Rightarrow> bytes \<Rightarrow> int) \<Rightarrow> 's IterOps \<Rightarrow> u32 \<Rightarrow> 's DBIter \<Rightarrow> 's DBIter option" where
  "DBIter_SeekToLast user_compare ops period d =
     FindPrevUserEntry user_compare ops period
       (d\<lparr>di_forward := False, di_saved_value := [], di_iter := i_seek_last ops (di_iter d)\<rparr>)"

text \<open>The operations as an iterator; a state that a loop never left is \<^verbatim>\<open>None\<close>.\<close>

definition DBIter_ops ::
    "(bytes \<Rightarrow> bytes \<Rightarrow> int) \<Rightarrow> 's IterOps \<Rightarrow> u32 \<Rightarrow> 's DBIter option IterOps" where
  "DBIter_ops user_compare ops period =
     \<lparr>i_valid = (\<lambda>d. case d of None \<Rightarrow> False | Some d \<Rightarrow> di_valid d),
      i_seek_first = (\<lambda>d. Option.bind d (DBIter_SeekToFirst user_compare ops period)),
      i_seek_last = (\<lambda>d. Option.bind d (DBIter_SeekToLast user_compare ops period)),
      i_seek = (\<lambda>target d. Option.bind d (DBIter_Seek user_compare ops period target)),
      i_next = (\<lambda>d. Option.bind d (DBIter_Next user_compare ops period)),
      i_prev = (\<lambda>d. Option.bind d (DBIter_Prev user_compare ops period)),
      i_key = (\<lambda>d. case d of None \<Rightarrow> [] | Some d \<Rightarrow> DBIter_key ops d),
      i_value = (\<lambda>d. case d of None \<Rightarrow> [] | Some d \<Rightarrow> DBIter_value ops d),
      i_status = (\<lambda>d. case d of None \<Rightarrow> Status_OK | Some d \<Rightarrow> DBIter_status ops d)\<rparr>"

section \<open>Sampling ends\<close>

text \<open>
  A sample moves the limit by a random number that may be 0.  The powers of 16807
  reach -1 modulo 2147483647, so the generator gets from a seed to its negative;
  both cannot be multiples of an even number.  Every limit is therefore moved
  eventually, and the loop returns.
\<close>

definition reaches :: "nat \<Rightarrow> bool" where
  "reaches a \<longleftrightarrow> (\<exists>n. 16807 ^ n mod 2147483647 = a)"

lemma reaches_double:
  assumes "reaches a" "a * a * 16807 mod 2147483647 = b"
  shows "reaches b"
proof -
  obtain n where n: "16807 ^ n mod 2147483647 = a" using assms(1) by (auto simp: reaches_def)
  define x where "x = (16807 ^ n :: nat)"
  have "16807 ^ (n + n + 1) mod 2147483647 = x * x * 16807 mod 2147483647"
    by (simp add: power_add x_def mult.commute)
  also have "\<dots> = (x * x mod 2147483647) * 16807 mod 2147483647" by (simp only: mod_mult_left_eq)
  also have "x * x mod 2147483647 = a * a mod 2147483647"
    using n unfolding x_def [symmetric] by (metis mod_mult_eq)
  also have "a * a mod 2147483647 * 16807 mod 2147483647 = b" using assms(2) by (simp only: mod_mult_left_eq)
  finally have "16807 ^ (n + n + 1) mod 2147483647 = b" .
  then show ?thesis unfolding reaches_def by (rule exI)
qed

lemma reaches_negative: "reaches 2147483646"
proof -
  have "reaches 16807" unfolding reaches_def by (rule exI [of _ 1]) simp
  from reaches_double [OF this] have "reaches 1622650073" by simp
  from reaches_double [OF this] have "reaches 101027544" by simp
  from reaches_double [OF this] have "reaches 114807987" by simp
  from reaches_double [OF this] have "reaches 1954899097" by simp
  from reaches_double [OF this] have "reaches 1108728549" by simp
  from reaches_double [OF this] have "reaches 2014119113" by simp
  from reaches_double [OF this] have "reaches 685428651" by simp
  from reaches_double [OF this] have "reaches 268317158" by simp
  from reaches_double [OF this] have "reaches 754609818" by simp
  from reaches_double [OF this] have "reaches 994734886" by simp
  from reaches_double [OF this] have "reaches 1083014291" by simp
  from reaches_double [OF this] have "reaches 1655627552" by simp
  from reaches_double [OF this] have "reaches 1181132756" by simp
  from reaches_double [OF this] have "reaches 1079224412" by simp
  from reaches_double [OF this] have "reaches 816826219" by simp
  from reaches_double [OF this] have "reaches 817222503" by simp
  from reaches_double [OF this] have "reaches 103492285" by simp
  from reaches_double [OF this] have "reaches 596864917" by simp
  from reaches_double [OF this] have "reaches 1872592842" by simp
  from reaches_double [OF this] have "reaches 2031328313" by simp
  from reaches_double [OF this] have "reaches 1799481238" by simp
  from reaches_double [OF this] have "reaches 1043219357" by simp
  from reaches_double [OF this] have "reaches 566127400" by simp
  from reaches_double [OF this] have "reaches 1470714790" by simp
  from reaches_double [OF this] have "reaches 797756594" by simp
  from reaches_double [OF this] have "reaches 1098008483" by simp
  from reaches_double [OF this] have "reaches 706645637" by simp
  from reaches_double [OF this] have "reaches 1877990613" by simp
  from reaches_double [OF this] show ?thesis by simp
qed

abbreviation good_seed :: "u32 \<Rightarrow> bool" where
  "good_seed s \<equiv> 0 < s \<and> s < 2147483647"

lemma good_seed_new: "good_seed (Random_new s)"
proof -
  let ?r = "s AND 0x7fffffff"
  have "?r = take_bit 31 s" by (simp add: take_bit_eq_mask mask_eq_exp_minus_1)
  then have "unat ?r < 2 ^ 31" by (simp only: unsigned_take_bit_eq take_bit_nat_less_exp)
  then have "?r \<noteq> 2147483647 \<Longrightarrow> ?r < 2147483647"
    unfolding word_less_nat_alt word_unat_eq_iff by simp
  then show ?thesis by (simp add: Random_new_def Let_def word_gt_0)
qed

lemma good_seed_Next: "good_seed s \<Longrightarrow> good_seed (Random_Next s)"
  using Random_Next_mod [of s] mult_16807_mod [of "unat s"]
  by (simp add: word_less_nat_alt word_gt_0_no)

lemma Random_iterate:
  "good_seed s \<Longrightarrow> good_seed ((Random_Next ^^ n) s) \<and> unat ((Random_Next ^^ n) s) = (16807 ^ n * unat s) mod 2147483647"
proof (induction n)
  case (Suc n)
  let ?r = "(Random_Next ^^ n) s"
  have g: "good_seed ?r" and r: "unat ?r = (16807 ^ n * unat s) mod 2147483647" using Suc by auto
  have "unat (Random_Next ?r) = (16807 * unat ?r) mod 2147483647" using g by (intro Random_Next_mod) auto
  also have "\<dots> = (16807 ^ Suc n * unat s) mod 2147483647" unfolding r by (simp add: mod_mult_right_eq mult.assoc)
  finally show ?case using good_seed_Next [OF g] by simp
qed (simp add: word_less_nat_alt)

lemma Random_leaves_multiples:
  assumes "good_seed s" "even (unat period)" "period \<noteq> 0"
  shows "\<exists>n. (Random_Next ^^ n) (Random_Next s) mod period \<noteq> 0"
proof (rule ccontr)
  assume "\<nexists>n. (Random_Next ^^ n) (Random_Next s) mod period \<noteq> 0"
  then have all: "unat period dvd unat ((Random_Next ^^ n) (Random_Next s))" for n
    by (metis mod_eq_0_iff_dvd unat_0 unat_mod)
  let ?s = "unat (Random_Next s)"
  note g = good_seed_Next [OF assms(1)]
  obtain n where n: "16807 ^ n mod 2147483647 = (2147483646::nat)" using reaches_negative by (auto simp: reaches_def)
  have lt: "?s < 2147483647" "0 < ?s" using g by (simp_all add: word_less_nat_alt)
  have "unat ((Random_Next ^^ n) (Random_Next s)) = (2147483646 * ?s) mod 2147483647"
    using Random_iterate [OF g, of n] n by (metis mod_mult_left_eq)
  also have "\<dots> = 2147483647 - ?s"
  proof -
    have "2147483646 * ?s = (2147483647 - ?s) + 2147483647 * (?s - 1)" using lt by (cases ?s) simp_all
    then have "(2147483646 * ?s) mod 2147483647 = (2147483647 - ?s) mod 2147483647" by (simp only: mod_mult_self2)
    then show ?thesis using lt by simp
  qed
  finally have "unat period dvd 2147483647 - ?s" using all [of n] by simp
  moreover have "unat period dvd ?s" using all [of 0] by simp
  ultimately have "unat period dvd 2147483647" using lt by (metis dvd_diffD1 less_imp_le dvd_diffD)
  then have "even (2147483647::nat)" using assms(2) dvd_trans by blast
  then show False by simp
qed

end
