(* ===== verification/Sst_Roundtrip.thy ===== *)
theory Sst_Roundtrip
  imports Sst_Table Wal_Log
begin

text \<open>
  A table file that the builder wrote is read back exactly: \<open>on_disk\<close> says that
  a block is in the file, \<open>sst_file\<close> what the builder has written so far, and
  \<open>building\<close> which blocks and which index entries that is.
\<close>

section \<open>Blocks on disk\<close>

definition block_bytes :: "(bytes \<Rightarrow> u32) \<Rightarrow> bytes \<Rightarrow> CompressionType \<Rightarrow> bytes" where
  "block_bytes crc c t = c @ CompressionType_code t # EncodeFixed32 (crc (c @ [CompressionType_code t]))"

text \<open>
  What the compression libraries document: the announced length and the
  uncompressed data are those of the input; inputs of 4 GB or more are refused.
\<close>

definition sound_codecs :: "Codecs \<Rightarrow> bool" where
  "sound_codecs cs \<longleftrightarrow>
     (\<forall>raw c. snappy_compress cs raw = Some c \<longrightarrow>
        snappy_length cs c = Some (length raw) \<and> snappy_uncompress cs c = Some raw \<and> length raw < 2 ^ 32)
     \<and> (\<forall>raw c. zstd_compress cs raw = Some c \<longrightarrow>
        zstd_length cs c = Some (length raw) \<and> zstd_uncompress cs c = Some raw \<and> length raw < 2 ^ 32)"

definition content_ok :: "Codecs \<Rightarrow> bytes \<Rightarrow> CompressionType \<Rightarrow> bytes \<Rightarrow> bool" where
  "content_ok cs c t raw \<longleftrightarrow>
     (case t of
        kNoCompression \<Rightarrow> c = raw
      | kSnappyCompression \<Rightarrow> snappy_length cs c = Some (length raw) \<and> snappy_uncompress cs c = Some raw
      | kZstdCompression \<Rightarrow> zstd_length cs c = Some (length raw) \<and> zstd_uncompress cs c = Some raw)
     \<and> (length raw = length c \<or> length raw < 2 ^ 32)"

definition on_disk :: "(bytes \<Rightarrow> u32) \<Rightarrow> Codecs \<Rightarrow> bytes \<Rightarrow> bytes \<Rightarrow> nat \<Rightarrow> nat \<Rightarrow> bool" where
  "on_disk crc cs raw contents pos n \<longleftrightarrow>
     (\<exists>c t x y. content_ok cs c t raw \<and> length c = n \<and> length x = pos \<and> contents = x @ block_bytes crc c t @ y)"

definition raf_ok :: "RandomAccessFile \<Rightarrow> bool" where
  "raf_ok f \<longleftrightarrow> (raf_permanent f \<or> raf_reopen f = None) \<and> (\<forall>p n. raf_pread f p n = None)"

definition handle_at :: "nat \<Rightarrow> nat \<Rightarrow> BlockHandle" where
  "handle_at pos n = \<lparr>bh_offset = of_nat pos, bh_size = of_nat n\<rparr>"

lemma choose_content_ok:
  "sound_codecs cs \<Longrightarrow> choose_content cs type raw = (c, t) \<Longrightarrow> content_ok cs c t raw"
  by (auto simp: choose_content_def content_ok_def sound_codecs_def split: CompressionType.splits option.splits if_splits)

lemma on_disk_append: "on_disk crc cs raw w pos n \<Longrightarrow> on_disk crc cs raw (w @ z) pos n"
  unfolding on_disk_def by (metis append.assoc)

lemma on_disk_bound: "on_disk crc cs raw w pos n \<Longrightarrow> length w < 2 ^ 32 \<Longrightarrow> length raw < 2 ^ 32"
  by (auto simp: on_disk_def content_ok_def block_bytes_def)

lemma RandomAccessFile_Read_ok:
  "raf_ok f \<Longrightarrow> RandomAccessFile_Read p n f = (Status_OK, take n (drop p (raf_contents f)))"
  by (auto simp: RandomAccessFile_Read_def raf_ok_def split: option.split)

lemma ReadBlock_on_disk:
  assumes f: "raf_ok f" and disk: "on_disk crc cs raw (raf_contents f) pos n" and bound: "length (raf_contents f) < 2 ^ 32"
  shows "ReadBlock crc cs f options (handle_at pos n)
    = Inr \<lparr>bc_data = raw, bc_cacheable = True, bc_heap_allocated = True\<rparr>"
proof -
  obtain c t x y where ok: "content_ok cs c t raw" "length c = n" "length x = pos"
    and w: "raf_contents f = x @ block_bytes crc c t @ y" using disk by (auto simp: on_disk_def)
  let ?d = "block_bytes crc c t"
  have len: "length ?d = n + 5" using ok by (simp add: block_bytes_def)
  then have small: "pos < 2 ^ 32" "n + 5 < 2 ^ 32" using w bound ok by auto
  then have h: "unat (bh_offset (handle_at pos n)) = pos" "unat (bh_size (handle_at pos n)) = n"
    by (simp_all add: handle_at_def unat_of_nat)
  have "bh_size (handle_at pos n) + of_nat kBlockTrailerSize = of_nat (n + 5)"
    by (simp add: handle_at_def kBlockTrailerSize_def)
  then have amount: "unat (bh_size (handle_at pos n) + of_nat kBlockTrailerSize) = n + 5"
    using small(2) by (simp only: unat_of_nat) simp
  have read: "RandomAccessFile_Read pos (n + 5) f = (Status_OK, ?d)"
    using RandomAccessFile_Read_ok [OF f, of pos "n + 5"] w ok(3) len by simp
  have parts: "take n ?d = c" "take (n + 1) ?d = c @ [CompressionType_code t]" "type_byte n ?d = CompressionType_code t"
    "DecodeFixed32 (drop (n + 1) ?d) = crc (c @ [CompressionType_code t])"
    using ok(2) by (auto simp: block_bytes_def type_byte_def)
  show ?thesis
    unfolding ReadBlock_def Let_def h amount read prod.case parts
    using ok(1) len by (cases t) (simp_all add: content_ok_def)
qed

section \<open>What the builder has written\<close>

definition sst_file :: "SSTBuilder \<Rightarrow> bytes \<Rightarrow> bool" where
  "sst_file b w \<longleftrightarrow> ok (sb_status b) \<and> wf_healthy (sb_file b) \<and> wf_written (sb_file b) = w
     \<and> sb_offset b = of_nat (length w)"

text \<open>All that \<^verbatim>\<open>WriteRawBlock\<close> may change.\<close>

definition rest_same :: "SSTBuilder \<Rightarrow> SSTBuilder \<Rightarrow> bool" where
  "rest_same b b' \<longleftrightarrow> (\<exists>f s p. b' = b\<lparr>sb_file := f, sb_status := s, sb_offset := p\<rparr>)"

lemma WriteRawBlock_ok:
  assumes crc: "crc_extends crc ext_crc" and b: "sst_file b w"
    and wr: "WriteRawBlock crc ext_crc c t b = (h, b')"
  shows "h = handle_at (length w) (length c) \<and> sst_file b' (w @ block_bytes crc c t) \<and> rest_same b b'"
proof -
  have f: "wf_healthy (sb_file b)" "wf_written (sb_file b) = w" "sb_offset b = of_nat (length w)"
    using b by (simp_all add: sst_file_def)
  obtain s1 f1 where a1: "WritableFile_Append (sb_file b) c = (s1, f1)" by (cases "WritableFile_Append (sb_file b) c")
  have r1: "ok s1" "wf_healthy f1" "wf_written f1 = w @ c" using posix.append_healthy_written [OF f(1) a1] f(2) by simp_all
  let ?t = "CompressionType_code t # EncodeFixed32 (ext_crc (crc c) [CompressionType_code t])"
  obtain s2 f2 where a2: "WritableFile_Append f1 ?t = (s2, f2)" by (cases "WritableFile_Append f1 ?t")
  have r2: "ok s2" "wf_healthy f2" "wf_written f2 = (w @ c) @ ?t" using posix.append_healthy_written [OF r1(2) a2] r1(3) by simp_all
  have "c @ ?t = block_bytes crc c t" using crc by (simp add: block_bytes_def crc_extends_def)
  then have w': "wf_written f2 = w @ block_bytes crc c t" using r2(3) by simp
  have "h = handle_at (length w) (length c)"
    and b': "b' = b\<lparr>sb_file := f2, sb_status := s2, sb_offset := sb_offset b + of_nat (length c + kBlockTrailerSize)\<rparr>"
    using wr a1 a2 r1(1) r2(1) f(3) by (auto simp: WriteRawBlock_def Let_def handle_at_def)
  moreover have "length (w @ block_bytes crc c t) = length w + (length c + kBlockTrailerSize)"
    by (simp add: block_bytes_def kBlockTrailerSize_def)
  then have "sst_file b' (w @ block_bytes crc c t)"
    using r2(1,2) w' f(3) unfolding b' sst_file_def by (simp del: length_append)
  ultimately show ?thesis by (auto simp: rest_same_def)
qed

lemma BlockBuilder_Reset_new [simp]: "BlockBuilder_Reset b = BlockBuilder_new"
  by (simp add: BlockBuilder_Reset_def BlockBuilder_new_def)

lemma WriteBlock_ok:
  assumes crc: "crc_extends crc ext_crc" and cs: "sound_codecs cs" and b: "sst_file b w"
    and wr: "WriteBlock crc ext_crc cs cfg block b = (h, block', b')"
  shows "block' = BlockBuilder_new \<and> rest_same b b' \<and> (\<exists>x n. h = handle_at (length w) n \<and> sst_file b' (w @ x)
    \<and> on_disk crc cs (fst (BlockBuilder_Finish block)) (w @ x) (length w) n)"
proof -
  obtain raw block1 where fin: "BlockBuilder_Finish block = (raw, block1)" by (cases "BlockBuilder_Finish block")
  obtain c t where ch: "choose_content cs (compression cfg) raw = (c, t)" by (cases "choose_content cs (compression cfg) raw")
  obtain h1 b1 where raw: "WriteRawBlock crc ext_crc c t b = (h1, b1)" by (cases "WriteRawBlock crc ext_crc c t b")
  have res: "h = h1" "block' = BlockBuilder_new" "b' = b1" using wr fin ch raw by (simp_all add: WriteBlock_def)
  note r = WriteRawBlock_ok [OF crc b raw]
  have "on_disk crc cs raw (w @ block_bytes crc c t) (length w) (length c)"
    unfolding on_disk_def using choose_content_ok [OF cs ch] by (metis append_Nil2)
  then show ?thesis using r res fin by auto
qed

text \<open>Without compression the file grows by the block and its trailer.\<close>

lemma WriteBlock_length:
  assumes crc: "crc_extends crc ext_crc" and b: "sst_file b w" and none: "compression cfg = kNoCompression"
    and wr: "WriteBlock crc ext_crc cs cfg block b = (h, block', b')"
  shows "length (wf_written (sb_file b')) = length w + length (fst (BlockBuilder_Finish block)) + 5"
proof -
  obtain raw block1 where fin: "BlockBuilder_Finish block = (raw, block1)" by (cases "BlockBuilder_Finish block")
  obtain h1 b1 where raw: "WriteRawBlock crc ext_crc raw kNoCompression b = (h1, b1)"
    by (cases "WriteRawBlock crc ext_crc raw kNoCompression b")
  have "b' = b1" using wr fin raw none by (simp add: WriteBlock_def choose_content_def)
  then show ?thesis using WriteRawBlock_ok [OF crc b raw] fin by (simp add: sst_file_def block_bytes_def)
qed

section \<open>The blocks and the index\<close>

text \<open>A written block with its index key: the key, the entries, the place and the length.\<close>

type_synonym written_block = "bytes \<times> entries \<times> nat \<times> nat"

definition idx_entry :: "written_block \<Rightarrow> bytes \<times> bytes" where
  "idx_entry x = (case x of (k, es, pos, n) \<Rightarrow> (k, BlockHandle_EncodeTo [] (handle_at pos n)))"

definition blocks_entries :: "written_block list \<Rightarrow> entries" where
  "blocks_entries bl = concat (map (\<lambda>(k, es, pos, n). es) bl)"

definition blocks_ok :: "(bytes \<Rightarrow> u32) \<Rightarrow> Codecs \<Rightarrow> bytes \<Rightarrow> written_block list \<Rightarrow> bool" where
  "blocks_ok crc cs w bl \<longleftrightarrow> (\<forall>(k, es, pos, n)\<in>set bl. es \<noteq> [] \<and> on_disk crc cs (BuildBlock 1 es) w pos n)"

text \<open>The index keys route: the entries of a block are not above its key, what follows is.\<close>

fun routed :: "(bytes \<Rightarrow> bytes \<Rightarrow> int) \<Rightarrow> written_block list \<Rightarrow> entries \<Rightarrow> bool" where
  "routed cmp [] rest = True"
| "routed cmp ((k, es, pos, n) # bl) rest \<longleftrightarrow> (\<forall>e\<in>set es. cmp (fst e) k \<le> 0)
     \<and> (\<forall>e\<in>set (blocks_entries bl @ rest). cmp k (fst e) < 0) \<and> routed cmp bl rest"

definition block_adds :: "entries \<Rightarrow> BlockBuilder" where
  "block_adds es = foldl (\<lambda>b (k, v). BlockBuilder_Add 1 k v b) BlockBuilder_new es"

lemma block_adds_snoc: "block_adds (es @ [(k, v)]) = BlockBuilder_Add 1 k v (block_adds es)"
  by (simp add: block_adds_def)

lemma block_adds_Finish: "fst (BlockBuilder_Finish (block_adds es)) = BuildBlock 1 es"
  by (simp add: block_adds_def BuildBlock_def)

lemma block_adds_Nil [simp]: "block_adds [] = BlockBuilder_new"
  by (simp add: block_adds_def)

lemma block_adds_empty: "BlockBuilder_empty (block_adds es) \<longleftrightarrow> es = []"
proof -
  obtain ses ris where b: "map snd ses = es" "built (block_adds es) ses ris"
    using built_all [of 1 es] unfolding block_adds_def by auto
  have "bb_buffer (block_adds es) = [] \<longleftrightarrow> ses = []"
    using b(2) off_less_iff [of 0 ses "length ses"] by (auto simp: built_def body_def)
  then show ?thesis using b(1) by (auto simp: BlockBuilder_empty_def)
qed

lemma blocks_entries_snoc [simp]: "blocks_entries (bl @ [(k, es, pos, n)]) = blocks_entries bl @ es"
  by (simp add: blocks_entries_def)

lemma blocks_entries_simps [simp]: "blocks_entries [] = []" "blocks_entries ((k, es, pos, n) # bl) = es @ blocks_entries bl"
  by (simp_all add: blocks_entries_def)

lemma routed_snoc:
  "routed cmp (bl @ [(k, es, pos, n)]) rest \<longleftrightarrow> routed cmp bl (es @ rest) \<and> (\<forall>e\<in>set es. cmp (fst e) k \<le> 0)
     \<and> (\<forall>e\<in>set rest. cmp k (fst e) < 0)"
  by (induction cmp bl "es @ rest" rule: routed.induct) auto

lemma routed_extend:
  "routed cmp bl (rest @ [x]) \<longleftrightarrow> routed cmp bl rest \<and> (\<forall>y\<in>set bl. cmp (fst y) (fst x) < 0)"
proof (induction cmp bl rest rule: routed.induct)
  case (2 cmp k es pos n bl rest)
  have "(\<forall>e\<in>set (blocks_entries bl @ rest @ [x]). cmp k (fst e) < 0) \<longleftrightarrow>
      (\<forall>e\<in>set (blocks_entries bl @ rest). cmp k (fst e) < 0) \<and> cmp k (fst x) < 0"
    by (simp only: set_append ball_Un list.set ball_simps simp_thms conj_assoc)
  then show ?case
    by (simp only: routed.simps "2.IH" list.set ball_simps fst_conv) (rule iffI; elim conjE; intro conjI; assumption)
qed simp

lemma blocks_ok_append: "blocks_ok crc cs w bl \<Longrightarrow> blocks_ok crc cs (w @ z) bl"
  unfolding blocks_ok_def by (fastforce intro: on_disk_append)

lemma blocks_ok_snoc [simp]:
  "blocks_ok crc cs w (bl @ [(k, es, pos, n)]) \<longleftrightarrow> blocks_ok crc cs w bl \<and> es \<noteq> [] \<and> on_disk crc cs (BuildBlock 1 es) w pos n"
  by (auto simp: blocks_ok_def)

lemma blocks_ok_entries: "blocks_ok crc cs w bl \<Longrightarrow> bl \<noteq> [] \<Longrightarrow> blocks_entries bl \<noteq> []"
  by (cases bl) (auto simp: blocks_ok_def)

section \<open>The state while entries are added\<close>

text \<open>
  \<open>bl\<close> are the blocks that have their index entry, \<open>pend\<close> the block that waits for
  one, \<open>cur\<close> the entries of the block under construction.
\<close>

definition pend_entries :: "(entries \<times> nat \<times> nat) option \<Rightarrow> entries" where
  "pend_entries p = (case p of None \<Rightarrow> [] | Some (es, pos, n) \<Rightarrow> es)"

definition pend_ok :: "(bytes \<Rightarrow> u32) \<Rightarrow> Codecs \<Rightarrow> bytes \<Rightarrow> SSTBuilder \<Rightarrow> (entries \<times> nat \<times> nat) option \<Rightarrow> bool" where
  "pend_ok crc cs w b p \<longleftrightarrow>
     (case p of
        None \<Rightarrow> \<not> sb_pending_index_entry b
      | Some (es, pos, n) \<Rightarrow> sb_pending_index_entry b \<and> sb_pending_handle b = handle_at pos n \<and> es \<noteq> []
          \<and> on_disk crc cs (BuildBlock 1 es) w pos n)"

definition building ::
    "(bytes \<Rightarrow> bytes \<Rightarrow> int) \<Rightarrow> (bytes \<Rightarrow> u32) \<Rightarrow> Codecs \<Rightarrow> SSTBuilder \<Rightarrow> bytes \<Rightarrow> written_block list
      \<Rightarrow> (entries \<times> nat \<times> nat) option \<Rightarrow> entries \<Rightarrow> bool"
where
  "building cmp crc cs b w bl pend cur \<longleftrightarrow>
     sst_file b w \<and> sb_index b = block_adds (map idx_entry bl) \<and> sb_data b = block_adds cur
     \<and> blocks_ok crc cs w bl \<and> pend_ok crc cs w b pend \<and> (pend = None \<or> cur = [])
     \<and> routed cmp bl (pend_entries pend @ cur)
     \<and> (blocks_entries bl @ pend_entries pend @ cur \<noteq> [] \<longrightarrow>
          pend_entries pend @ cur \<noteq> [] \<and> sb_last_key b = fst (last (pend_entries pend @ cur)))"

lemma sst_file_cong:
  "sb_status b' = sb_status b \<Longrightarrow> sb_file b' = sb_file b \<Longrightarrow> sb_offset b' = sb_offset b \<Longrightarrow> sst_file b' w = sst_file b w"
  by (simp add: sst_file_def)

lemma Flush_step:
  assumes crc: "crc_extends crc ext_crc" and cs: "sound_codecs cs"
    and f: "sst_file b w" and ne: "\<not> BlockBuilder_empty (sb_data b)"
    and wb: "WriteBlock crc ext_crc cs cfg (sb_data b) b = (h, d, b1)"
  shows "\<exists>fb ff s. SSTBuilder_Flush crc ext_crc cs cfg b
      = b1\<lparr>sb_data := d, sb_pending_handle := h, sb_pending_index_entry := True, sb_file := ff, sb_status := s, sb_filter := fb\<rparr>
    \<and> ok s \<and> wf_healthy ff \<and> wf_written ff = wf_written (sb_file b1)"
proof -
  have okb: "ok (sb_status b)" using f by (simp add: sst_file_def)
  have f1: "ok (sb_status b1)" "wf_healthy (sb_file b1)"
    using WriteBlock_ok [OF crc cs f wb] by (auto simp: sst_file_def)
  obtain s ff where fl: "WritableFile_Flush (sb_file b1) = (s, ff)" by (cases "WritableFile_Flush (sb_file b1)")
  have ff: "ok s" "wf_healthy ff" "wf_written ff = wf_written (sb_file b1)"
    using posix.flush_healthy_written [OF f1(2) fl] by simp_all
  define b2 where "b2 = b1\<lparr>sb_data := d, sb_pending_handle := h, sb_pending_index_entry := True, sb_file := ff, sb_status := s\<rparr>"
  have "SSTBuilder_Flush crc ext_crc cs cfg b = (case (sb_filter b2, tc_policy cfg) of
      (Some fb, Some p) \<Rightarrow> b2\<lparr>sb_filter := Some (StartBlock (fp_create p) (sb_offset b2) fb)\<rparr> | _ \<Rightarrow> b2)"
    using okb f1(1) fl ne unfolding SSTBuilder_Flush_def Let_def wb prod.case
    by (cases "sb_filter b1"; cases "tc_policy cfg"; simp add: b2_def)
  moreover have "b2 = b2\<lparr>sb_filter := sb_filter b2\<rparr>" by simp
  ultimately obtain fb where "SSTBuilder_Flush crc ext_crc cs cfg b = b2\<lparr>sb_filter := fb\<rparr>"
    by (cases "sb_filter b2"; cases "tc_policy cfg"; simp only: prod.case option.case; blast)
  then show ?thesis using ff unfolding b2_def by blast
qed

lemma Flush_building:
  assumes crc: "crc_extends crc ext_crc" and cs: "sound_codecs cs"
    and b: "building cmp crc cs b w bl None cur" and cur: "cur \<noteq> []"
  shows "\<exists>x pos n. building cmp crc cs (SSTBuilder_Flush crc ext_crc cs cfg b) (w @ x) bl (Some (cur, pos, n)) []"
proof -
  have f: "sst_file b w" and data: "sb_data b = block_adds cur" using b by (simp_all add: building_def)
  obtain h d b1 where wb: "WriteBlock crc ext_crc cs cfg (sb_data b) b = (h, d, b1)"
    by (cases "WriteBlock crc ext_crc cs cfg (sb_data b) b")
  obtain x n where r: "d = BlockBuilder_new" "rest_same b b1" "h = handle_at (length w) n" "sst_file b1 (w @ x)"
    "on_disk crc cs (BuildBlock 1 cur) (w @ x) (length w) n"
    using WriteBlock_ok [OF crc cs f wb] by (auto simp: data block_adds_Finish)
  have "\<not> BlockBuilder_empty (sb_data b)" using data cur block_adds_empty by simp
  from Flush_step [OF crc cs f this wb] obtain fb ff s where fb: "SSTBuilder_Flush crc ext_crc cs cfg b
      = b1\<lparr>sb_data := d, sb_pending_handle := h, sb_pending_index_entry := True, sb_file := ff, sb_status := s, sb_filter := fb\<rparr>"
    "ok s" "wf_healthy ff" "wf_written ff = wf_written (sb_file b1)" by blast
  obtain f1 s1 p1 where b1: "b1 = b\<lparr>sb_file := f1, sb_status := s1, sb_offset := p1\<rparr>" using r(2) by (auto simp: rest_same_def)
  have "building cmp crc cs (SSTBuilder_Flush crc ext_crc cs cfg b) (w @ x) bl (Some (cur, length w, n)) []"
    using b r cur blocks_ok_append fb(2-4)
    by (simp add: fb(1) building_def b1 pend_ok_def pend_entries_def sst_file_def)
  then show ?thesis by auto
qed

text \<open>The index entry of the waiting block, under a key that is not below its entries.\<close>

lemma add_index_building:
  assumes b: "building cmp crc cs b w bl (Some (es, pos, n)) []" and one: "block_restart_interval cfg = 1"
  shows "sst_file (add_index_entry cfg k b) w
    \<and> sb_index (add_index_entry cfg k b) = block_adds (map idx_entry (bl @ [(k, es, pos, n)]))
    \<and> sb_data (add_index_entry cfg k b) = BlockBuilder_new \<and> \<not> sb_pending_index_entry (add_index_entry cfg k b)
    \<and> blocks_ok crc cs w (bl @ [(k, es, pos, n)])"
  using b one by (simp add: building_def add_index_entry_def pend_ok_def sst_file_def idx_entry_def block_adds_snoc)

lemma routed_keys: "routed cmp bl rest \<Longrightarrow> y \<in> set bl \<Longrightarrow> e \<in> set rest \<Longrightarrow> cmp (fst y) (fst e) < 0"
  by (induction cmp bl rest rule: routed.induct) auto

lemma sorted_append_less: "entries_sorted cmp (xs @ ys) \<Longrightarrow> x \<in> set xs \<Longrightarrow> y \<in> set ys \<Longrightarrow> cmp (fst x) (fst y) < 0"
  by (auto simp: entries_sorted_def sorted_wrt_append)

definition table_config :: "(bytes \<Rightarrow> bytes \<Rightarrow> bytes) \<Rightarrow> (bytes \<Rightarrow> bytes) \<Rightarrow> TableConfig \<Rightarrow> bool" where
  "table_config sep succ cfg \<longleftrightarrow>
     block_restart_interval cfg = 1 \<and> tc_separator cfg = sep \<and> tc_successor cfg = succ"

context short_comparator
begin

lemma last_above:
  assumes "entries_sorted cmp es" "e \<in> set es"
  shows "cmp (fst e) (fst (last es)) \<le> 0"
proof -
  have ne: "es \<noteq> []" using assms(2) by auto
  then have es: "butlast es @ [last es] = es" by simp
  then have "e \<in> set (butlast es) \<or> e = last es" using assms(2) by (metis Un_iff empty_iff insert_iff list.set set_append)
  then show ?thesis
  proof
    assume "e \<in> set (butlast es)"
    then have "cmp (fst e) (fst (last es)) < 0"
      using sorted_append_less [of cmp "butlast es" "[last es]" e "last es"] assms(1) es by simp
    then show ?thesis by simp
  qed (simp add: cmp_refl)
qed

lemma Add_collect:
  assumes b: "building cmp crc cs b w bl pend cur" and cfg: "table_config sep succ cfg"
    and srt: "entries_sorted cmp (blocks_entries bl @ pend_entries pend @ cur @ [(key, value)])"
  shows "\<exists>b2 bl2 cur2. building cmp crc cs b2 w bl2 None cur2 \<and> cur2 \<noteq> []
    \<and> blocks_entries bl2 @ cur2 = blocks_entries bl @ pend_entries pend @ cur @ [(key, value)]
    \<and> SSTBuilder_Add crc ext_crc cs cfg key value b =
        (if block_size cfg \<le> BlockBuilder_CurrentSizeEstimate (sb_data b2)
         then SSTBuilder_Flush crc ext_crc cs cfg b2 else b2)"
proof -
  have okb: "ok (sb_status b)" using b by (simp add: building_def sst_file_def)
  have less: "cmp (fst e) key < 0" if "e \<in> set (blocks_entries bl @ pend_entries pend @ cur)" for e
    using sorted_append_less [of cmp "blocks_entries bl @ pend_entries pend @ cur" "[(key, value)]" e "(key, value)"] srt that by simp
  have cfgs: "block_restart_interval cfg = 1" "tc_separator cfg = sep" using cfg by (simp_all add: table_config_def)
  define up where "up c = c\<lparr>sb_filter := map_option (FilterBlock_AddKey key) (sb_filter c), sb_last_key := key,
      sb_entries_num := sb_entries_num c + 1, sb_data := BlockBuilder_Add 1 key value (sb_data c)\<rparr>" for c :: SSTBuilder
  show ?thesis
  proof (cases pend)
    case None
    have keys: "\<forall>y\<in>set bl. cmp (fst y) key < 0"
    proof
      fix y assume y: "y \<in> set bl"
      have "blocks_ok crc cs w bl" "bl \<noteq> []" using b y by (auto simp: building_def)
      then have "blocks_entries bl \<noteq> []" by (rule blocks_ok_entries)
      then have "cur \<noteq> []" using b None by (simp add: building_def pend_entries_def)
      then obtain e where e: "e \<in> set cur" by (cases cur) auto
      then have "cmp (fst y) (fst e) < 0" using b None y routed_keys [of cmp bl cur] by (simp add: building_def pend_entries_def)
      then show "cmp (fst y) key < 0" using less [of e] e cmp_less_trans by auto
    qed
    have "building cmp crc cs (up b) w bl None (cur @ [(key, value)])"
      using b None keys routed_extend [of cmp bl cur "(key, value)"]
      by (simp add: building_def up_def sst_file_def pend_entries_def pend_ok_def block_adds_snoc)
    moreover have "\<not> sb_pending_index_entry b" using b None by (simp add: building_def pend_ok_def)
    then have "SSTBuilder_Add crc ext_crc cs cfg key value b =
        (if block_size cfg \<le> BlockBuilder_CurrentSizeEstimate (sb_data (up b))
         then SSTBuilder_Flush crc ext_crc cs cfg (up b) else up b)"
      using okb cfgs by (simp add: SSTBuilder_Add_def Let_def up_def)
    ultimately show ?thesis using None by (intro exI [of _ "up b"] exI [of _ bl] exI [of _ "cur @ [(key, value)]"]) (simp add: pend_entries_def)
  next
    case (Some p)
    obtain es pos n where p: "p = (es, pos, n)" by (rule prod_cases3)
    have cur: "cur = []" using b Some by (simp add: building_def)
    have b': "building cmp crc cs b w bl (Some (es, pos, n)) []" using b by (simp add: Some p cur)
    have es: "es \<noteq> []" "cur = []" "sb_last_key b = fst (last es)" "sb_pending_index_entry b" "routed cmp bl es"
      using b' cur by (simp_all add: building_def pend_ok_def pend_entries_def)
    let ?k = "sep (fst (last es)) key" and ?b = "add_index_entry cfg (sep (fst (last es)) key) b"
    have "last es \<in> set es" using es(1) by simp
    then have last: "cmp (fst (last es)) key < 0" using less Some p by (simp add: pend_entries_def)
    have "entries_sorted cmp es" using srt Some p by (simp add: entries_sorted_def sorted_wrt_append pend_entries_def)
    then have above: "\<forall>e\<in>set es. cmp (fst e) ?k \<le> 0" using last_above sep_routes_left [OF last] by blast
    have below: "cmp ?k key < 0" using sep_less [OF last] .
    have keys: "\<forall>y\<in>set bl. cmp (fst y) key < 0"
    proof
      fix y assume y: "y \<in> set bl"
      have "cmp (fst y) (fst (last es)) < 0" using routed_keys [OF es(5) y, of "last es"] es(1) by simp
      then show "cmp (fst y) key < 0" using last cmp_less_trans by blast
    qed
    have "routed cmp (bl @ [(?k, es, pos, n)]) [(key, value)]"
      using routed_extend [of cmp bl es "(key, value)"] es(5) keys above below by (simp add: routed_snoc)
    then have "building cmp crc cs (up ?b) w (bl @ [(?k, es, pos, n)]) None [(key, value)]"
      using add_index_building [OF b' cfgs(1), of ?k]
      by (simp add: building_def up_def sst_file_def pend_entries_def pend_ok_def block_adds_snoc [of "[]", simplified])
    moreover have "SSTBuilder_Add crc ext_crc cs cfg key value b =
        (if block_size cfg \<le> BlockBuilder_CurrentSizeEstimate (sb_data (up ?b))
         then SSTBuilder_Flush crc ext_crc cs cfg (up ?b) else up ?b)"
      using okb cfgs es(3,4) by (simp add: SSTBuilder_Add_def Let_def up_def)
    ultimately show ?thesis using Some p es(2)
      by (intro exI [of _ "up ?b"] exI [of _ "bl @ [(?k, es, pos, n)]"] exI [of _ "[(key, value)]"]) (simp add: pend_entries_def)
  qed
qed

lemma Add_building:
  assumes crc: "crc_extends crc ext_crc" and cs: "sound_codecs cs"
    and b: "building cmp crc cs b w bl pend cur" and cfg: "table_config sep succ cfg"
    and srt: "entries_sorted cmp (blocks_entries bl @ pend_entries pend @ cur @ [(key, value)])"
  shows "\<exists>x bl2 pend2 cur2. building cmp crc cs (SSTBuilder_Add crc ext_crc cs cfg key value b) (w @ x) bl2 pend2 cur2
    \<and> blocks_entries bl2 @ pend_entries pend2 @ cur2 = blocks_entries bl @ pend_entries pend @ cur @ [(key, value)]"
proof -
  obtain b2 bl2 cur2 where b2: "building cmp crc cs b2 w bl2 None cur2" "cur2 \<noteq> []"
    and all: "blocks_entries bl2 @ cur2 = blocks_entries bl @ pend_entries pend @ cur @ [(key, value)]"
    and add: "SSTBuilder_Add crc ext_crc cs cfg key value b =
        (if block_size cfg \<le> BlockBuilder_CurrentSizeEstimate (sb_data b2)
         then SSTBuilder_Flush crc ext_crc cs cfg b2 else b2)"
    using Add_collect [OF b cfg srt] by blast
  show ?thesis
  proof (cases "block_size cfg \<le> BlockBuilder_CurrentSizeEstimate (sb_data b2)")
    case True
    obtain x pos n where "building cmp crc cs (SSTBuilder_Flush crc ext_crc cs cfg b2) (w @ x) bl2 (Some (cur2, pos, n)) []"
      using Flush_building [OF crc cs b2] by blast
    then show ?thesis using True add all
      by (intro exI [of _ x] exI [of _ bl2] exI [of _ "Some (cur2, pos, n)"] exI [of _ "[]"]) (simp add: pend_entries_def)
  next
    case False
    then show ?thesis using b2(1) add all
      by (intro exI [of _ "[]"] exI [of _ bl2] exI [of _ None] exI [of _ cur2]) (simp add: pend_entries_def)
  qed
qed

lemma Adds_building:
  assumes crc: "crc_extends crc ext_crc" and cs: "sound_codecs cs" and cfg: "table_config sep succ cfg"
    and b: "building cmp crc cs b [] [] None []" and srt: "entries_sorted cmp es"
  shows "\<exists>w bl pend cur. building cmp crc cs (foldl (\<lambda>b (k, v). SSTBuilder_Add crc ext_crc cs cfg k v b) b es) w bl pend cur
    \<and> blocks_entries bl @ pend_entries pend @ cur = es"
  using srt
proof (induction es rule: rev_induct)
  case Nil
  then show ?case using b by (intro exI [of _ "[]"] exI [of _ None]) (simp add: pend_entries_def)
next
  case (snoc e es)
  obtain k v where e: "e = (k, v)" by (cases e)
  have "entries_sorted cmp es" using snoc.prems by (simp add: entries_sorted_def sorted_wrt_append)
  then obtain w bl pend cur where ih: "building cmp crc cs (foldl (\<lambda>b (k, v). SSTBuilder_Add crc ext_crc cs cfg k v b) b es) w bl pend cur"
    "blocks_entries bl @ pend_entries pend @ cur = es" using snoc.IH by blast
  have all: "blocks_entries bl @ pend_entries pend @ cur @ [(k, v)] = es @ [e]" using ih(2) [symmetric] e by simp
  have "entries_sorted cmp (blocks_entries bl @ pend_entries pend @ cur @ [(k, v)])" unfolding all by (rule snoc.prems)
  from Add_building [OF crc cs ih(1) cfg this]
  obtain x bl2 pend2 cur2 where "building cmp crc cs (SSTBuilder_Add crc ext_crc cs cfg k v
      (foldl (\<lambda>b (k, v). SSTBuilder_Add crc ext_crc cs cfg k v b) b es)) (w @ x) bl2 pend2 cur2"
    "blocks_entries bl2 @ pend_entries pend2 @ cur2 = blocks_entries bl @ pend_entries pend @ cur @ [(k, v)]" by blast
  then show ?case using ih(2) e by (intro exI [of _ "w @ x"] exI [of _ bl2] exI [of _ pend2] exI [of _ cur2]) simp
qed

end

lemma building_grow:
  assumes "building cmp crc cs b w bl pend cur" "rest_same b b'" "sst_file b' (w @ x)"
  shows "building cmp crc cs b' (w @ x) bl pend cur"
  using assms blocks_ok_append [of crc cs w bl x] on_disk_append [of crc cs _ w _ _ x]
  by (auto simp: building_def rest_same_def pend_ok_def split: option.splits)

lemma pend_ok_closed: "pend_ok crc cs w (b\<lparr>sb_closed := c\<rparr>) p = pend_ok crc cs w b p"
  by (cases p) (simp_all add: pend_ok_def case_prod_beta)

lemma building_file: "building cmp crc cs b w bl pend cur \<Longrightarrow> sst_file b w"
  by (simp add: building_def)

lemma finish_filter_ok:
  assumes "crc_extends crc ext_crc" "sst_file b w" "finish_filter crc ext_crc cfg b = (h, b')"
  shows "\<exists>x. sst_file b' (w @ x) \<and> rest_same b b'"
proof (cases "\<exists>fb p. sb_filter b = Some fb \<and> tc_policy cfg = Some p")
  case True
  then obtain fb p where fp: "sb_filter b = Some fb" "tc_policy cfg = Some p" by blast
  have "WriteRawBlock crc ext_crc (FilterBlock_Finish (fp_create p) fb) kNoCompression b = (h, b')"
    using assms(2,3) fp by (simp add: finish_filter_def sst_file_def)
  from WriteRawBlock_ok [OF assms(1,2) this] show ?thesis by blast
next
  case False
  then have "b' = b" using assms(3) by (auto simp: finish_filter_def split: option.splits)
  moreover have "b = b\<lparr>sb_file := sb_file b, sb_status := sb_status b, sb_offset := sb_offset b\<rparr>" by simp
  ultimately show ?thesis using assms(2) unfolding rest_same_def by (metis append_Nil2)
qed

lemma finish_footer_ok:
  assumes "sst_file b w"
  shows "sst_file (finish_footer m i b) (w @ Footer_EncodeTo [] \<lparr>ft_metaindex = m, ft_index = i\<rparr>)"
proof -
  let ?e = "Footer_EncodeTo [] \<lparr>ft_metaindex = m, ft_index = i\<rparr>"
  obtain s f where a: "WritableFile_Append (sb_file b) ?e = (s, f)" by (cases "WritableFile_Append (sb_file b) ?e")
  have f: "wf_healthy (sb_file b)" "wf_written (sb_file b) = w" "ok (sb_status b)" "sb_offset b = of_nat (length w)"
    using assms by (simp_all add: sst_file_def)
  from posix.append_healthy_written [OF f(1) a] show ?thesis
    using a f by (simp add: finish_footer_def Let_def sst_file_def)
qed

text \<open>A finished table file: its blocks, its index block and its footer.\<close>

definition table_file ::
    "(bytes \<Rightarrow> bytes \<Rightarrow> int) \<Rightarrow> (bytes \<Rightarrow> u32) \<Rightarrow> Codecs \<Rightarrow> bytes \<Rightarrow> entries \<Rightarrow> bool" where
  "table_file cmp crc cs contents es \<longleftrightarrow>
     (\<exists>w bl pos n m. contents = w @ Footer_EncodeTo [] \<lparr>ft_metaindex = m, ft_index = handle_at pos n\<rparr>
       \<and> on_disk crc cs (BuildBlock 1 (map idx_entry bl)) w pos n \<and> blocks_ok crc cs w bl
       \<and> blocks_entries bl = es \<and> routed cmp bl [])"

context short_comparator
begin

lemma finish_index_ok:
  assumes crc: "crc_extends crc ext_crc" and cs: "sound_codecs cs" and cfg: "table_config sep succ cfg"
    and b: "building cmp crc cs b w bl pend []" and srt: "entries_sorted cmp (pend_entries pend)"
    and fin: "finish_index crc ext_crc cs cfg b = (h, b')"
  shows "\<exists>x bl' pos n. h = handle_at pos n \<and> sst_file b' (w @ x) \<and> on_disk crc cs (BuildBlock 1 (map idx_entry bl')) (w @ x) pos n
    \<and> blocks_ok crc cs (w @ x) bl' \<and> blocks_entries bl' = blocks_entries bl @ pend_entries pend \<and> routed cmp bl' []"
proof -
  have one: "block_restart_interval cfg = 1" and sc: "tc_successor cfg = succ" using cfg by (simp_all add: table_config_def)
  define b1 where "b1 = (if sb_pending_index_entry b then add_index_entry cfg (tc_successor cfg (sb_last_key b)) b else b)"
  have "\<exists>bl'. sst_file b1 w \<and> sb_index b1 = block_adds (map idx_entry bl') \<and> blocks_ok crc cs w bl'
    \<and> blocks_entries bl' = blocks_entries bl @ pend_entries pend \<and> routed cmp bl' []"
  proof (cases pend)
    case None
    then show ?thesis using b by (intro exI [of _ bl]) (simp add: building_def b1_def pend_ok_def pend_entries_def)
  next
    case (Some p)
    obtain es pos n where p: "p = (es, pos, n)" by (rule prod_cases3)
    have es: "es \<noteq> []" "sb_last_key b = fst (last es)" "sb_pending_index_entry b" "routed cmp bl es"
      using b Some p by (simp_all add: building_def pend_ok_def pend_entries_def)
    have "\<forall>e\<in>set es. cmp (fst e) (succ (fst (last es))) \<le> 0"
      using last_above [of es] srt Some p succ_ge cmp_le_trans by (simp add: pend_entries_def) blast
    then have "routed cmp (bl @ [(succ (fst (last es)), es, pos, n)]) []" using es(4) by (simp add: routed_snoc)
    moreover have "b1 = add_index_entry cfg (succ (fst (last es))) b" using es sc by (simp add: b1_def)
    ultimately show ?thesis using add_index_building [of cmp crc cs b w bl es pos n cfg "succ (fst (last es))"] b Some p one
      by (intro exI [of _ "bl @ [(succ (fst (last es)), es, pos, n)]"]) (simp add: pend_entries_def)
  qed
  then obtain bl' where bl': "sst_file b1 w" "sb_index b1 = block_adds (map idx_entry bl')" "blocks_ok crc cs w bl'"
    "blocks_entries bl' = blocks_entries bl @ pend_entries pend" "routed cmp bl' []" by blast
  obtain h2 index b2 where wb: "WriteBlock crc ext_crc cs cfg (sb_index b1) b1 = (h2, index, b2)"
    by (cases "WriteBlock crc ext_crc cs cfg (sb_index b1) b1")
  have okb: "ok (sb_status b)" using b by (simp add: building_def sst_file_def)
  have "h = h2" "b' = b2\<lparr>sb_index := index\<rparr>"
    using fin wb okb unfolding finish_index_def b1_def [symmetric] by (simp_all add: Let_def)
  then show ?thesis
    using WriteBlock_ok [OF crc cs bl'(1) wb] bl' blocks_ok_append
    by (fastforce simp: block_adds_Finish sst_file_def)
qed

lemma Finish_table_file:
  assumes crc: "crc_extends crc ext_crc" and cs: "sound_codecs cs" and cfg: "table_config sep succ cfg"
    and b: "building cmp crc cs b w bl pend cur"
    and srt: "entries_sorted cmp (blocks_entries bl @ pend_entries pend @ cur)"
    and fin: "SSTBuilder_Finish crc ext_crc cs cfg b = (s, b')"
  shows "\<exists>contents. ok s \<and> sst_file b' contents \<and> table_file cmp crc cs contents (blocks_entries bl @ pend_entries pend @ cur)"
proof -
  define b1 where "b1 = SSTBuilder_Flush crc ext_crc cs cfg b"
  have "\<exists>x p. building cmp crc cs b1 (w @ x) bl p [] \<and> pend_entries p = pend_entries pend @ cur"
  proof (cases "cur = []")
    case True
    then have "b1 = b" using b by (simp add: b1_def SSTBuilder_Flush_def building_def block_adds_empty [of "[]", simplified])
    then show ?thesis using b True by (intro exI [of _ "[]"] exI [of _ pend]) simp
  next
    case False
    then have "pend = None" using b by (simp add: building_def)
    moreover from this obtain x pos n where "building cmp crc cs b1 (w @ x) bl (Some (cur, pos, n)) []"
      using Flush_building [OF crc cs _ False, of cmp b w bl cfg] b by (auto simp: b1_def)
    ultimately show ?thesis by (intro exI [of _ x] exI [of _ "Some (cur, pos, n)"]) (simp add: pend_entries_def)
  qed
  then obtain x1 p where b1: "building cmp crc cs b1 (w @ x1) bl p []" "pend_entries p = pend_entries pend @ cur" by blast
  define b2 where "b2 = b1\<lparr>sb_closed := True\<rparr>"
  have b2: "building cmp crc cs b2 (w @ x1) bl p []"
    using b1(1) pend_ok_closed [of crc cs "w @ x1" True b1 p] by (simp add: b2_def building_def sst_file_def) blast
  obtain h3 b3 where f3: "finish_filter crc ext_crc cfg b2 = (h3, b3)" by (cases "finish_filter crc ext_crc cfg b2")
  obtain x2 where x2: "sst_file b3 ((w @ x1) @ x2)" "rest_same b2 b3"
    using finish_filter_ok [OF crc building_file [OF b2] f3] by blast
  note b3 = building_grow [OF b2 x2(2,1)]
  obtain h4 d4 b4 where f4: "WriteBlock crc ext_crc cs cfg (metaindex_builder cfg h3 b3) b3 = (h4, d4, b4)"
    by (cases "WriteBlock crc ext_crc cs cfg (metaindex_builder cfg h3 b3) b3")
  obtain x3 where x3: "sst_file b4 (((w @ x1) @ x2) @ x3)" "rest_same b3 b4"
    using WriteBlock_ok [OF crc cs x2(1) f4] by blast
  note b4 = building_grow [OF b3 x3(2,1)]
  obtain h5 b5 where f5: "finish_index crc ext_crc cs cfg b4 = (h5, b5)" by (cases "finish_index crc ext_crc cs cfg b4")
  have "entries_sorted cmp (pend_entries p)" using srt b1(2) by (simp add: entries_sorted_def sorted_wrt_append)
  from finish_index_ok [OF crc cs cfg b4 this f5]
  obtain w' bl' pos n where i: "h5 = handle_at pos n" "sst_file b5 w'" "on_disk crc cs (BuildBlock 1 (map idx_entry bl')) w' pos n"
    "blocks_ok crc cs w' bl'" "blocks_entries bl' = blocks_entries bl @ pend_entries p" "routed cmp bl' []" by blast
  have ok3: "ok (sb_status b3)" using x2(1) by (simp add: sst_file_def)
  have "b' = finish_footer h4 h5 b5" "s = sb_status b'"
    using fin ok3 unfolding SSTBuilder_Finish_def Let_def b1_def [symmetric] b2_def [symmetric] f3 f4 f5 prod.case
    by (auto simp add: f5)
  with finish_footer_ok [OF i(2), of h4 h5]
  have "sst_file b' (w' @ Footer_EncodeTo [] \<lparr>ft_metaindex = h4, ft_index = h5\<rparr>)" "ok s" by (simp_all add: sst_file_def)
  then show ?thesis using i b1(2) unfolding table_file_def by metis
qed

lemma new_building:
  assumes "SSTBuilder_new cfg f = (cfg', b)" "wf_healthy f" "wf_written f = []"
  shows "building cmp crc cs b [] [] None []"
  using assms by (auto simp: SSTBuilder_new_def building_def sst_file_def blocks_ok_def pend_ok_def pend_entries_def)

text \<open>What the builder writes for sorted entries.\<close>

lemma built_table_file:
  assumes "crc_extends crc ext_crc" "sound_codecs cs" "tc_separator cfg = sep" "tc_successor cfg = succ"
    and "wf_healthy f" "wf_written f = []" "entries_sorted cmp es" "SSTBuilder_new cfg f = (cfg', b0)"
    and "SSTBuilder_Finish crc ext_crc cs cfg' (foldl (\<lambda>b (k, v). SSTBuilder_Add crc ext_crc cs cfg' k v b) b0 es) = (s, b)"
  shows "ok s \<and> sst_file b (wf_written (sb_file b)) \<and> table_file cmp crc cs (wf_written (sb_file b)) es"
proof -
  have cfg: "table_config sep succ cfg'" using assms(3,4,8) by (auto simp: table_config_def SSTBuilder_new_def)
  obtain w bl pend cur where b: "building cmp crc cs (foldl (\<lambda>b (k, v). SSTBuilder_Add crc ext_crc cs cfg' k v b) b0 es) w bl pend cur"
    "blocks_entries bl @ pend_entries pend @ cur = es"
    using Adds_building [OF assms(1,2) cfg new_building [OF assms(8,5,6)] assms(7)] by blast
  then obtain contents where "ok s" "sst_file b contents" "table_file cmp crc cs contents es"
    using Finish_table_file [OF assms(1,2) cfg b(1) _ assms(9)] assms(7) by auto
  then show ?thesis by (auto simp: sst_file_def)
qed

end

section \<open>Reading the table\<close>

context sorted_iterator
begin

text \<open>An iterator determines its entries.\<close>

lemma rep_nth: "rep s es i \<Longrightarrow> k \<le> length es \<Longrightarrow> rep ((i_next ops ^^ k) (i_seek_first ops s)) es k"
  by (induction k) (auto intro: rep_first dest: rep_next)

lemma rep_unique:
  assumes "rep s es i" "rep s es' i'"
  shows "es = es'"
proof -
  have le: "length b \<le> length a" if r: "rep s a p" "rep s b q" for a b p q
  proof (rule ccontr)
    assume "\<not> length b \<le> length a"
    then have "rep ((i_next ops ^^ length a) (i_seek_first ops s)) a (length a)"
      "rep ((i_next ops ^^ length a) (i_seek_first ops s)) b (length a)" using r by (simp_all add: rep_nth)
    from this [THEN rep_valid] \<open>\<not> length b \<le> length a\<close> show False by simp
  qed
  then have len: "length es = length es'" using assms by (meson le_antisym)
  show ?thesis
  proof (rule nth_equalityI [OF len])
    fix k assume k: "k < length es"
    then have "rep ((i_next ops ^^ k) (i_seek_first ops s)) es k" "rep ((i_next ops ^^ k) (i_seek_first ops s)) es' k"
      using assms len by (simp_all add: rep_nth)
    from this [THEN rep_key] this [THEN rep_value] show "es ! k = es' ! k" using k len by (simp add: prod_eqI)
  qed
qed

end

lemma routed_nth:
  assumes "routed cmp bl rest" "j < length bl" "bl ! j = (k, es, p, n)"
  shows "\<forall>e\<in>set es. cmp (fst e) k \<le> 0"
    "\<And>i k' es' p' n' e. j < i \<Longrightarrow> i < length bl \<Longrightarrow> bl ! i = (k', es', p', n') \<Longrightarrow> e \<in> set es' \<Longrightarrow> cmp k (fst e) < 0"
proof -
  have mem: "e \<in> set (blocks_entries xs)" if "(k', es', p', n') \<in> set xs" "e \<in> set es'" for k' es' p' n' e xs
    using that by (force simp: blocks_entries_def)
  have "(\<forall>e\<in>set es. cmp (fst e) k \<le> 0) \<and> (\<forall>e\<in>set (blocks_entries (drop (Suc j) bl)). cmp k (fst e) < 0)"
    using assms
  proof (induction cmp bl rest arbitrary: j rule: routed.induct)
    case (2 cmp k' es' p' n' bl rest)
    then show ?case by (cases j) (auto simp: ball_Un)
  qed simp
  then show "\<forall>e\<in>set es. cmp (fst e) k \<le> 0"
    "\<And>i k' es' p' n' e. j < i \<Longrightarrow> i < length bl \<Longrightarrow> bl ! i = (k', es', p', n') \<Longrightarrow> e \<in> set es' \<Longrightarrow> cmp k (fst e) < 0"
  proof -
    fix i k' es' p' n' e
    assume i: "j < i" "i < length bl" "bl ! i = (k', es', p', n')" "e \<in> set es'"
      and all: "(\<forall>e\<in>set es. cmp (fst e) k \<le> 0) \<and> (\<forall>e\<in>set (blocks_entries (drop (Suc j) bl)). cmp k (fst e) < 0)"
    have "drop (Suc j) bl ! (i - Suc j) = bl ! i" "i - Suc j < length (drop (Suc j) bl)" using i by simp_all
    then have "(k', es', p', n') \<in> set (drop (Suc j) bl)" using i(3) by (metis nth_mem)
    then show "cmp k (fst e) < 0" using all mem i(4) by blast
  qed simp
qed

interpretation icmp_order: entry_order icmp ..

definition any_rep :: "(bytes \<Rightarrow> bytes \<Rightarrow> int) \<Rightarrow> Status + BlockIter \<Rightarrow> entries \<Rightarrow> nat \<Rightarrow> bool" where
  "any_rep cmp = case_sum empty_rep (block_rep cmp)"

interpretation icmp_block: sorted_iterator icmp "AnyBlockIter_ops icmp" "any_rep icmp"
  unfolding any_rep_def by (rule icmp_order.any_block_iterator)

text \<open>The handles a reader can open, and the entries behind them.\<close>

definition reader_handles :: "(bytes \<Rightarrow> Status + BlockIter) \<Rightarrow> bytes set" where
  "reader_handles rd = {h. \<exists>es p. any_rep icmp (rd h) es p}"

definition reader_entries :: "(bytes \<Rightarrow> Status + BlockIter) \<Rightarrow> bytes \<Rightarrow> entries" where
  "reader_entries rd h = (SOME es. \<exists>p. any_rep icmp (rd h) es p)"

lemma reader_entries_eq: "any_rep icmp (rd h) es p \<Longrightarrow> reader_entries rd h = es"
  unfolding reader_entries_def by (rule some1_equality [OF ex_ex1I]) (blast intro: icmp_block.rep_unique)+

interpretation table: two_level icmp "AnyBlockIter_ops icmp" "any_rep icmp" "AnyBlockIter_ops icmp" "any_rep icmp"
    "plain_reader crc cs t options" "reader_entries (plain_reader crc cs t options)" "reader_handles (plain_reader crc cs t options)"
    for crc cs t options
proof
  fix h assume "h \<in> reader_handles (plain_reader crc cs t options)"
  then obtain es p where "any_rep icmp (plain_reader crc cs t options h) es p" by (auto simp: reader_handles_def)
  then show "\<exists>p. any_rep icmp (plain_reader crc cs t options h) (reader_entries (plain_reader crc cs t options) h) p"
    using reader_entries_eq by blast
qed

interpretation table_iterator: sorted_iterator icmp
    "TwoLevel_ops (AnyBlockIter_ops icmp) (AnyBlockIter_ops icmp) (plain_reader crc cs t options)"
    "table.tl_rep crc cs t options" for crc cs t options
  by (rule table.two_level_iterator)

lemma plain_reader_block:
  assumes f: "raf_ok (tb_file t)" "length (raf_contents (tb_file t)) < 2 ^ 32"
    and disk: "on_disk crc cs (BuildBlock 1 es) (raf_contents (tb_file t)) pos n" and srt: "entries_sorted icmp es"
  shows "any_rep icmp (plain_reader crc cs t options (BlockHandle_EncodeTo [] (handle_at pos n))) es (length es)"
proof -
  have "length (BuildBlock 1 es) < 2 ^ 32" using on_disk_bound [OF disk f(2)] .
  then obtain it where it: "Block_NewIterator (Block_new (BuildBlock 1 es)) = Inr it" "block_rep icmp it es (length es)"
    using icmp_order.BuildBlock_reads [of 1 es] srt by auto
  have "plain_reader crc cs t options (BlockHandle_EncodeTo [] (handle_at pos n)) = Block_NewIterator (Block_new (BuildBlock 1 es))"
    unfolding plain_reader_def BlockReader_def fetch_block_def
    by (simp add: ReadBlock_on_disk [OF f(1) disk f(2)])
  then show ?thesis using it by (simp add: any_rep_def)
qed

text \<open>The blocks of a written file, as the two-level iterator sees them.\<close>

lemma routed_index_sorted:
  assumes "routed icmp bl rest" "\<forall>(k, es, p, n)\<in>set bl. es \<noteq> []"
  shows "entries_sorted icmp (map idx_entry bl)"
  unfolding entries_sorted_def sorted_wrt_iff_nth_less
proof (intro allI impI)
  fix j i assume ji: "j < i" "i < length (map idx_entry bl)"
  obtain k es p n where bj: "bl ! j = (k, es, p, n)" by (rule prod_cases4)
  obtain k' es' p' n' where bi: "bl ! i = (k', es', p', n')" by (rule prod_cases4)
  have "bl ! i \<in> set bl" using ji by simp
  then have "es' \<noteq> []" using assms(2) bi by auto
  then obtain e where e: "e \<in> set es'" by (cases es') auto
  have "icmp k (fst e) < 0" using routed_nth(2) [OF assms(1) _ bj ji(1) _ bi e] ji by simp
  moreover have "icmp (fst e) k' \<le> 0" using routed_nth(1) [OF assms(1) _ bi] ji e by simp
  ultimately have "icmp k k' < 0" by (rule internal.cmp_less_le_trans)
  then show "icmp (fst (map idx_entry bl ! j)) (fst (map idx_entry bl ! i)) < 0"
    using ji bj bi by (simp add: idx_entry_def)
qed

lemma table_blocks:
  fixes options :: ReadOptions
  assumes f: "raf_ok (tb_file t)" "length (raf_contents (tb_file t)) < 2 ^ 32"
    and bl: "blocks_ok crc cs (raf_contents (tb_file t)) bl" "routed icmp bl []"
    and srt: "entries_sorted icmp (blocks_entries bl)"
  defines "rd \<equiv> plain_reader crc cs t options" and "idx \<equiv> map idx_entry bl"
  shows "\<And>j k es p n. j < length bl \<Longrightarrow> bl ! j = (k, es, p, n) \<Longrightarrow> any_rep icmp (rd (snd (idx ! j))) es (length es)"
    and "\<And>j k es p n. j < length bl \<Longrightarrow> bl ! j = (k, es, p, n) \<Longrightarrow> reader_entries rd (snd (idx ! j)) = es"
    and "snd ` set idx \<subseteq> reader_handles rd" "flat (reader_entries rd) idx = blocks_entries bl"
    and "separated icmp (reader_entries rd) idx" "entries_sorted icmp idx"
proof -
  have sub: "entries_sorted icmp es" if "(k, es, p, n) \<in> set bl" for k es p n
    using srt that
  proof (induction bl)
    case (Cons x xs)
    obtain k' es' p' n' where "x = (k', es', p', n')" by (rule prod_cases4)
    then show ?case using Cons by (auto simp: entries_sorted_def sorted_wrt_append)
  qed simp
  show rep: "any_rep icmp (rd (snd (idx ! j))) es (length es)" if "j < length bl" "bl ! j = (k, es, p, n)" for j k es p n
  proof -
    have mem: "(k, es, p, n) \<in> set bl" using that by (metis nth_mem)
    then have "on_disk crc cs (BuildBlock 1 es) (raf_contents (tb_file t)) p n" using bl(1) by (auto simp: blocks_ok_def)
    from plain_reader_block [OF f this sub [OF mem], of options] show ?thesis
      using that by (simp add: rd_def idx_def idx_entry_def)
  qed
  show ent: "reader_entries rd (snd (idx ! j)) = es" if "j < length bl" "bl ! j = (k, es, p, n)" for j k es p n
    using rep [OF that] by (rule reader_entries_eq)
  show "snd ` set idx \<subseteq> reader_handles rd"
  proof
    fix h assume "h \<in> snd ` set idx"
    then obtain j where j: "j < length bl" "h = snd (idx ! j)" by (auto simp: idx_def in_set_conv_nth)
    obtain k es p n where "bl ! j = (k, es, p, n)" by (rule prod_cases4)
    from rep [OF j(1) this] show "h \<in> reader_handles rd" using j(2) by (auto simp: reader_handles_def)
  qed
  have "map (\<lambda>e. reader_entries rd (snd e)) idx = map (\<lambda>(k, es, pos, n). es) bl"
  proof (rule nth_equalityI)
    fix j assume "j < length (map (\<lambda>e. reader_entries rd (snd e)) idx)"
    then have j: "j < length bl" by (simp add: idx_def)
    obtain k es p n where b: "bl ! j = (k, es, p, n)" by (rule prod_cases4)
    show "map (\<lambda>e. reader_entries rd (snd e)) idx ! j = map (\<lambda>(k, es, pos, n). es) bl ! j"
      using ent [OF j b] j b by (simp add: idx_def)
  qed (simp add: idx_def)
  then show fl: "flat (reader_entries rd) idx = blocks_entries bl" by (simp add: flat_def blocks_entries_def)
  have "\<forall>(k, es, p, n)\<in>set bl. es \<noteq> []" using bl(1) by (auto simp: blocks_ok_def)
  then show "entries_sorted icmp idx" unfolding idx_def by (rule routed_index_sorted [OF bl(2)])
  show "separated icmp (reader_entries rd) idx"
    unfolding separated_def fl
  proof (intro conjI allI impI ballI srt)
    fix j e assume j: "j < length idx" "e \<in> set (reader_entries rd (snd (idx ! j)))"
    obtain k es p n where b: "bl ! j = (k, es, p, n)" by (rule prod_cases4)
    have j': "j < length bl" using j by (simp add: idx_def)
    show "icmp (fst e) (fst (idx ! j)) \<le> 0"
      using routed_nth(1) [OF bl(2) j' b] j(2) ent [OF j' b] j' b by (simp add: idx_def idx_entry_def)
  next
    fix j i e assume j: "j < length idx" "i < length idx" "j < i" "e \<in> set (reader_entries rd (snd (idx ! i)))"
    obtain k es p n where b: "bl ! j = (k, es, p, n)" by (rule prod_cases4)
    obtain k' es' p' n' where bi: "bl ! i = (k', es', p', n')" by (rule prod_cases4)
    have j': "j < length bl" "i < length bl" using j by (simp_all add: idx_def)
    have "e \<in> set es'" using j(4) ent [OF j'(2) bi] by simp
    then have "icmp k (fst e) < 0" using routed_nth(2) [OF bl(2) j'(1) b j(3) j'(2) bi] by simp
    then show "icmp (fst (idx ! j)) (fst e) < 0" using j' b by (simp add: idx_def idx_entry_def)
  qed
qed

text \<open>Opening it.\<close>

lemma ReadFilter_same:
  "tb_file (Table_ReadFilter crc cs cfg v t) = tb_file t" "tb_index (Table_ReadFilter crc cs cfg v t) = tb_index t"
  by (simp_all add: Table_ReadFilter_def split: sum.splits prod.splits)

lemma ReadMeta_same:
  "tb_file (Table_ReadMeta crc cs cfg ft t) = tb_file t" "tb_index (Table_ReadMeta crc cs cfg ft t) = tb_index t"
  "tc_policy cfg = None \<Longrightarrow> tb_filter (Table_ReadMeta crc cs cfg ft t) = tb_filter t"
  by (auto simp: Table_ReadMeta_def Let_def ReadFilter_same split: option.splits sum.splits)

lemma OpenSST_table_file:
  assumes tf: "table_file icmp crc cs (raf_contents f) es" and f: "raf_ok f" "length (raf_contents f) < 2 ^ 32"
  shows "\<exists>t bl. OpenSST crc cs cfg new_id f (length (raf_contents f)) = Inr t \<and> tb_file t = f
    \<and> tb_index t = Block_new (BuildBlock 1 (map idx_entry bl)) \<and> length (BuildBlock 1 (map idx_entry bl)) < 2 ^ 32
    \<and> blocks_ok crc cs (raf_contents f) bl \<and> blocks_entries bl = es \<and> routed icmp bl []
    \<and> (tc_policy cfg = None \<longrightarrow> tb_filter t = None)"
proof -
  obtain w bl pos n m where w: "raf_contents f = w @ Footer_EncodeTo [] \<lparr>ft_metaindex = m, ft_index = handle_at pos n\<rparr>"
    and i: "on_disk crc cs (BuildBlock 1 (map idx_entry bl)) w pos n" "blocks_ok crc cs w bl" "blocks_entries bl = es" "routed icmp bl []"
    using tf by (auto simp: table_file_def)
  let ?ft = "\<lparr>ft_metaindex = m, ft_index = handle_at pos n\<rparr>" and ?n = "length (raf_contents f)"
  have n: "\<not> ?n < kEncodedLength" "?n - kEncodedLength = length w" using w by simp_all
  have read: "RandomAccessFile_Read (?n - kEncodedLength) kEncodedLength f = (Status_OK, Footer_EncodeTo [] ?ft)"
    unfolding n(2) RandomAccessFile_Read_ok [OF f(1)] using w by simp
  have footer: "Footer_DecodeFrom (Footer_EncodeTo [] ?ft) = Inr (?ft, [])" using Footer_Decode_Encode [of ?ft "[]"] by simp
  have disk: "on_disk crc cs (BuildBlock 1 (map idx_entry bl)) (raf_contents f) pos n"
    unfolding w using i(1) by (rule on_disk_append)
  have "OpenSST crc cs cfg new_id f ?n = Inr (Table_ReadMeta crc cs cfg ?ft
      \<lparr>tb_file = f, tb_cache_id = (case new_id of None \<Rightarrow> 0 | Some i \<Rightarrow> i), tb_filter = None, tb_metaindex = m,
       tb_index = Block_new (BuildBlock 1 (map idx_entry bl))\<rparr>)"
    unfolding OpenSST_def if_not_P [OF n(1)] read Let_def prod.case footer sum.case
    by (simp add: ReadBlock_on_disk [OF f(1) disk f(2)])
  moreover have "blocks_ok crc cs (raf_contents f) bl" unfolding w using i(2) by (rule blocks_ok_append)
  ultimately show ?thesis using i(3,4) on_disk_bound [OF disk f(2)]
    by (intro exI [of _ "Table_ReadMeta crc cs cfg ?ft \<lparr>tb_file = f, tb_cache_id = (case new_id of None \<Rightarrow> 0 | Some i \<Rightarrow> i),
       tb_filter = None, tb_metaindex = m, tb_index = Block_new (BuildBlock 1 (map idx_entry bl))\<rparr>"] exI [of _ bl])
      (simp add: ReadMeta_same)
qed

lemma table_shows:
  assumes tf: "table_file icmp crc cs (raf_contents f) es" and f: "raf_ok f" "length (raf_contents f) < 2 ^ 32"
    and srt: "entries_sorted icmp es" and cfg: "tc_internal cfg = icmp"
  shows "\<exists>t. OpenSST crc cs cfg new_id f (length (raf_contents f)) = Inr t
    \<and> (\<forall>ms. showing (TableIter_ops crc cs cfg options t) ms (Table_NewIterator cfg t) = cursor_showing icmp es ms (length es))"
proof -
  obtain t bl where t: "OpenSST crc cs cfg new_id f (length (raf_contents f)) = Inr t" "tb_file t = f"
    "tb_index t = Block_new (BuildBlock 1 (map idx_entry bl))" "length (BuildBlock 1 (map idx_entry bl)) < 2 ^ 32"
    and bl: "blocks_ok crc cs (raf_contents f) bl" "blocks_entries bl = es" "routed icmp bl []"
    using OpenSST_table_file [OF tf f] by blast
  have pre: "raf_ok (tb_file t)" "length (raf_contents (tb_file t)) < 2 ^ 32" "blocks_ok crc cs (raf_contents (tb_file t)) bl"
    "routed icmp bl []" "entries_sorted icmp (blocks_entries bl)" using f bl srt t(2) by simp_all
  note blocks = table_blocks(3-5) [OF pre, of options] and sorted_idx = table_blocks(6) [OF pre]
  obtain it where it: "Block_NewIterator (tb_index t) = Inr it"
    "block_rep icmp it (map idx_entry bl) (length (map idx_entry bl))"
    using icmp_order.BuildBlock_reads [OF _ sorted_idx, of 1] t(3,4) by auto
  have "any_rep icmp (Block_NewIterator (tb_index t)) (map idx_entry bl) (length (map idx_entry bl))"
    using it by (simp add: any_rep_def)
  note new = table.two_level_new [OF this blocks(1,3)]
  have "table.tl_rep crc cs t options (Table_NewIterator cfg t) es (length es)"
    using new blocks(2) bl(2) cfg by (simp add: Table_NewIterator_def)
  then have "showing (TableIter_ops crc cs cfg options t) ms (Table_NewIterator cfg t) = cursor_showing icmp es ms (length es)" for ms
    unfolding TableIter_ops_def cfg by (rule table_iterator.showing_rep)
  then show ?thesis using t(1) by blast
qed

text \<open>
  With the bytewise comparator, which the configuration keeps because nothing
  calls \<^verbatim>\<open>SanitizeConfig\<close>, the index key of the last block is a single byte: no
  internal key, though the tables compare it as one.
\<close>

lemma bytewise_index_key_short:
  assumes "u \<noteq> []" "hd u \<noteq> 255"
  shows "length (BytewiseComparatorImpl_FindShortSuccessor (InternalKey u s t)) = 1"
  using assms by (cases u) (simp_all add: InternalKey_eq)

text \<open>A small configuration and a table of one entry.\<close>

definition demo_table_config :: TableConfig where
  "demo_table_config =
     \<lparr>num_levels = 7, l0_compaction_trigger = 4, l0_slowdown_writes_trigger = 8, l0_stop_writes_trigger = 12,
      max_mem_compact_level = 2, compression = kNoCompression, create_if_missing = True, error_if_exists = False,
      paranoid_checks = True, write_buffer_size = 65536, block_size = 1024, block_restart_interval = 16,
      max_file_size = 1048576, reuse_logs = False, tc_compare = icmp, tc_separator = isep, tc_successor = isucc,
      tc_internal = icmp, tc_policy = None\<rparr>"

definition no_codecs :: Codecs where
  "no_codecs = \<lparr>snappy_compress = (\<lambda>_. None), snappy_length = (\<lambda>_. None), snappy_uncompress = (\<lambda>_. None),
     zstd_compress = (\<lambda>_. None), zstd_length = (\<lambda>_. None), zstd_uncompress = (\<lambda>_. None)\<rparr>"

abbreviation "demo_key \<equiv> InternalKey [1] 5 kTypeValue"

lemma demo_blocks:
  "BlockBuilder_CurrentSizeEstimate (BlockBuilder_Add 1 demo_key [7] BlockBuilder_new) = 21"
  "\<not> BlockBuilder_empty (BlockBuilder_Add 1 demo_key [7] BlockBuilder_new)"
  "length (fst (BlockBuilder_Finish (BlockBuilder_Add 1 demo_key [7] BlockBuilder_new))) = 21"
  "length (fst (BlockBuilder_Finish BlockBuilder_new)) = 8"
  "length (fst (BlockBuilder_Finish
     (BlockBuilder_Add 1 (isucc demo_key) (BlockHandle_EncodeTo [] (handle_at 0 21)) BlockBuilder_new))) = 22"
  by code_simp+

lemma demo_table_length:
  fixes f0 :: WritableFile
  assumes f0: "wf_healthy f0" "wf_written f0 = []" and new: "SSTBuilder_new demo_table_config f0 = (cfg, b0)"
    and fin: "SSTBuilder_Finish (sum_crc 7) sum_crc no_codecs cfg
      (SSTBuilder_Add (sum_crc 7) sum_crc no_codecs cfg demo_key [7] b0) = (s, b)"
  shows "length (wf_written (sb_file b)) = 114"
proof -
  note crc = sum_crc_extends
  have cs: "sound_codecs no_codecs" by (simp add: sound_codecs_def no_codecs_def)
  have cfg: "cfg = demo_table_config\<lparr>block_restart_interval := 1\<rparr>" and b0: "b0 = \<lparr>sb_file = f0, sb_offset = 0, sb_status = Status_OK,
      sb_data = BlockBuilder_new, sb_index = BlockBuilder_new, sb_last_key = [], sb_entries_num = 0, sb_closed = False,
      sb_filter = None, sb_pending_index_entry = False, sb_pending_handle = BlockHandle_new\<rparr>"
    using new by (simp_all add: SSTBuilder_new_def demo_table_config_def)
  have c: "block_restart_interval cfg = 1" "block_size cfg = 1024" "compression cfg = kNoCompression" "tc_policy cfg = None"
    "tc_successor cfg = isucc" by (simp_all add: cfg demo_table_config_def)
  let ?d = "BlockBuilder_Add 1 demo_key [7] BlockBuilder_new"
  define b1 where "b1 = b0\<lparr>sb_last_key := demo_key, sb_entries_num := 1, sb_data := ?d\<rparr>"
  have add: "SSTBuilder_Add (sum_crc 7) sum_crc no_codecs cfg demo_key [7] b0 = b1"
    by (simp add: SSTBuilder_Add_def Let_def c demo_blocks(1) b0 b1_def del: One_nat_def)
  have f1: "sst_file b1 []" using f0 by (simp add: b1_def b0 sst_file_def)
  obtain h2 d2 b2 where w2: "WriteBlock (sum_crc 7) sum_crc no_codecs cfg (sb_data b1) b1 = (h2, d2, b2)"
    by (cases "WriteBlock (sum_crc 7) sum_crc no_codecs cfg (sb_data b1) b1")
  have ne: "\<not> BlockBuilder_empty (sb_data b1)" using demo_blocks(2) by (simp add: b1_def)
  obtain x n where r2: "rest_same b1 b2" "h2 = handle_at 0 n" "sst_file b2 x"
    "on_disk (sum_crc 7) no_codecs (fst (BlockBuilder_Finish ?d)) x 0 n"
    using WriteBlock_ok [OF crc cs f1 w2] by (auto simp: b1_def)
  obtain c t where "content_ok no_codecs c t (fst (BlockBuilder_Finish ?d))" "length c = n" using r2(4) by (auto simp: on_disk_def)
  then have n: "n = 21" using demo_blocks(3) by (cases t) (auto simp: content_ok_def no_codecs_def)
  have len2: "length (wf_written (sb_file b2)) = 26"
    using WriteBlock_length [OF crc f1 c(3) w2] demo_blocks(3) by (simp add: b1_def)
  obtain fb ff sf where fl: "SSTBuilder_Flush (sum_crc 7) sum_crc no_codecs cfg b1
      = b2\<lparr>sb_data := d2, sb_pending_handle := h2, sb_pending_index_entry := True, sb_file := ff, sb_status := sf, sb_filter := fb\<rparr>"
    "ok sf" "wf_healthy ff" "wf_written ff = wf_written (sb_file b2)"
    using Flush_step [OF crc cs f1 ne w2] by blast
  define b3 where "b3 = (SSTBuilder_Flush (sum_crc 7) sum_crc no_codecs cfg b1)\<lparr>sb_closed := True\<rparr>"
  have f3: "sst_file b3 x" using fl r2(3) by (simp add: b3_def sst_file_def)
  obtain f' s' p' where b2: "b2 = b1\<lparr>sb_file := f', sb_status := s', sb_offset := p'\<rparr>" using r2(1) by (auto simp: rest_same_def)
  have b2f: "sb_index b2 = BlockBuilder_new" "sb_last_key b2 = demo_key" by (simp_all add: b2 b1_def b0)
  have b3: "sb_index b3 = BlockBuilder_new" "sb_pending_index_entry b3" "sb_last_key b3 = demo_key" "sb_pending_handle b3 = handle_at 0 21"
    using r2(2) n b2f by (simp_all add: b3_def fl(1))
  have filt: "finish_filter (sum_crc 7) sum_crc cfg b3 = (BlockHandle_new, b3)"
    using c(4) by (simp add: finish_filter_def split: option.split)
  have meta: "metaindex_builder cfg BlockHandle_new b3 = BlockBuilder_new"
    using c(4) by (simp add: metaindex_builder_def split: option.split)
  obtain h4 d4 b4 where w4: "WriteBlock (sum_crc 7) sum_crc no_codecs cfg BlockBuilder_new b3 = (h4, d4, b4)"
    by (cases "WriteBlock (sum_crc 7) sum_crc no_codecs cfg BlockBuilder_new b3")
  obtain y where r4: "rest_same b3 b4" "sst_file b4 y" using WriteBlock_ok [OF crc cs f3 w4] by blast
  have len4: "length y = 39"
    using WriteBlock_length [OF crc f3 c(3) w4] demo_blocks(4) len2 r2(3) r4(2) by (simp add: sst_file_def)
  define b5 where "b5 = add_index_entry cfg (isucc demo_key) b4"
  have f5: "sst_file b5 y" using r4(2) by (simp add: b5_def add_index_entry_def sst_file_def)
  have idx: "sb_index b5 = BlockBuilder_Add 1 (isucc demo_key) (BlockHandle_EncodeTo [] (handle_at 0 21)) BlockBuilder_new"
    using r4(1) b3 c(1) by (auto simp: b5_def add_index_entry_def rest_same_def)
  have pend: "sb_pending_index_entry b4" "sb_last_key b4 = demo_key" using r4(1) b3 by (auto simp: rest_same_def)
  obtain h6 d6 b6 where w6: "WriteBlock (sum_crc 7) sum_crc no_codecs cfg (sb_index b5) b5 = (h6, d6, b6)"
    by (cases "WriteBlock (sum_crc 7) sum_crc no_codecs cfg (sb_index b5) b5")
  obtain z where f6: "sst_file b6 z" using WriteBlock_ok [OF crc cs f5 w6] by blast
  have len6: "length z = 66"
    using WriteBlock_length [OF crc f5 c(3) w6] demo_blocks(5) len4 f6 by (simp add: idx sst_file_def)
  have ok3: "ok (sb_status b3)" "ok (sb_status b4)" using f3 r4(2) by (simp_all add: sst_file_def)
  have index: "finish_index (sum_crc 7) sum_crc no_codecs cfg b4 = (h6, b6\<lparr>sb_index := d6\<rparr>)"
    using w6 pend ok3 c(5) unfolding finish_index_def Let_def b5_def by simp
  have f7: "sst_file (b6\<lparr>sb_index := d6\<rparr>) z" using f6 by (simp add: sst_file_def)
  have "b = finish_footer h4 h6 (b6\<lparr>sb_index := d6\<rparr>)"
    using fin ok3 unfolding add SSTBuilder_Finish_def Let_def b3_def [symmetric] filt meta prod.case
    by (simp add: meta w4 index)
  with finish_footer_ok [OF f7, of h4 h6] show ?thesis
    using len6 by (simp add: sst_file_def kEncodedLength_def kMaxEncodedLength_def)
qed



end
