(* ===== verification/Db_View.thy ===== *)
theory Db_View
  imports Db_Iter Sst_Roundtrip
begin

text \<open>
  What the user's iterator shows: \<open>user_view s es\<close> are the user keys and values a
  reader at sequence number \<open>s\<close> sees among the internal entries \<open>es\<close>, and
  \<^verbatim>\<open>DBIter\<close> over an iterator of \<open>es\<close> is a cursor in it, under every sequence of seeks
  and steps in both directions.  Its loops return: the internal iterator has
  finitely many entries, and the sampling of reads moves its limit eventually.
\<close>

section \<open>What a sequence number sees\<close>

definition internal_key :: "bytes \<Rightarrow> bool" where
  "internal_key k \<longleftrightarrow> (\<exists>u s t. s \<le> kMaxSequenceNumber \<and> k = InternalKey u s t)"

lemma internal_key_InternalKey: "s \<le> kMaxSequenceNumber \<Longrightarrow> internal_key (InternalKey u s t)"
  unfolding internal_key_def by blast

abbreviation user_key :: "bytes \<times> bytes \<Rightarrow> bytes" where
  "user_key e \<equiv> ExtractUserKey (fst e)"

definition seen_by :: "u64 \<Rightarrow> bytes \<times> bytes \<Rightarrow> bool" where
  "seen_by s e \<longleftrightarrow> drop_bit 8 (ExtractTag (fst e)) \<le> s"

definition is_value :: "bytes \<times> bytes \<Rightarrow> bool" where
  "is_value e \<longleftrightarrow> ExtractTag (fst e) AND 0xff \<noteq> 0"

text \<open>
  The entry a reader at \<open>s\<close> is shown for its user key: it is seen, no earlier
  entry of the user key is, and it is not a deletion.
\<close>

definition shows_entry :: "u64 \<Rightarrow> entries \<Rightarrow> nat \<Rightarrow> bool" where
  "shows_entry s es i \<longleftrightarrow> i < length es \<and> seen_by s (es ! i) \<and> is_value (es ! i)
     \<and> (\<forall>j<i. user_key (es ! j) = user_key (es ! i) \<longrightarrow> \<not> seen_by s (es ! j))"

definition user_view :: "u64 \<Rightarrow> entries \<Rightarrow> entries" where
  "user_view s es = map (\<lambda>i. (user_key (es ! i), snd (es ! i))) (filter (shows_entry s es) [0..<length es])"

definition rank :: "u64 \<Rightarrow> entries \<Rightarrow> nat \<Rightarrow> nat" where
  "rank s es t = length (filter (shows_entry s es) [0..<t])"

lemma shows_less: "shows_entry s es i \<Longrightarrow> i < length es"
  by (simp add: shows_entry_def)

lemma rank_card: "rank s es t = card {i. shows_entry s es i \<and> i < t}"
  unfolding rank_def by (subst distinct_card [symmetric]) (auto intro: arg_cong [of _ _ card])

lemma rank_cong:
  assumes "\<And>i. shows_entry s es i \<Longrightarrow> i < t \<longleftrightarrow> i < t'"
  shows "rank s es t = rank s es t'"
  unfolding rank_card using assms by (intro arg_cong [of _ _ card]) auto

lemma length_user_view: "length (user_view s es) = rank s es (length es)"
  by (simp add: user_view_def rank_def)

lemma rank_all: "(\<And>i. shows_entry s es i \<Longrightarrow> i < t) \<Longrightarrow> rank s es t = length (user_view s es)"
  unfolding length_user_view by (rule rank_cong) (auto dest: shows_less)

lemma rank_0 [simp]: "rank s es 0 = 0"
  by (simp add: rank_def)

lemma rank_Suc: "rank s es (Suc t) = rank s es t + (if shows_entry s es t then 1 else 0)"
  by (simp add: rank_def)

lemma rank_nth:
  assumes "shows_entry s es v"
  shows "rank s es v < length (user_view s es)"
    "user_view s es ! rank s es v = (user_key (es ! v), snd (es ! v))"
proof -
  let ?P = "shows_entry s es"
  have n: "[0..<length es] = [0..<v] @ v # [v + 1..<length es]"
    using upt_add_eq_append [of 0 v "length es - v"] upt_conv_Cons [of v "length es"] shows_less [OF assms] by simp
  have "filter ?P [0..<length es] = filter ?P [0..<v] @ v # filter ?P [v + 1..<length es]"
    unfolding n using assms by simp
  then show "rank s es v < length (user_view s es)"
    "user_view s es ! rank s es v = (user_key (es ! v), snd (es ! v))"
    by (simp_all add: user_view_def rank_def nth_append)
qed

lemma rank_mono: "t \<le> t' \<Longrightarrow> rank s es t \<le> rank s es t'"
  unfolding rank_card by (intro card_mono) auto

lemma rank_less:
  assumes "shows_entry s es v"
  shows "rank s es v < rank s es t \<longleftrightarrow> v < t"
  using rank_mono [of "v + 1" t s es] rank_mono [of t v s es] rank_Suc [of s es v] assms by fastforce

lemma user_view_nth:
  assumes "a < length (user_view s es)"
  obtains v where "shows_entry s es v" "rank s es v = a"
proof -
  let ?vs = "filter (shows_entry s es) [0..<length es]"
  have a: "a < length ?vs" using assms by (simp add: user_view_def)
  have v: "?vs ! a \<in> set ?vs" using a by (rule nth_mem)
  then have s: "shows_entry s es (?vs ! a)" by simp
  have "distinct ?vs" by simp
  moreover have "?vs ! rank s es (?vs ! a) = ?vs ! a"
  proof -
    have n: "[0..<length es] = [0..<?vs ! a] @ ?vs ! a # [?vs ! a + 1..<length es]"
      using upt_add_eq_append [of 0 "?vs ! a" "length es - ?vs ! a"] upt_conv_Cons [of "?vs ! a" "length es"]
        shows_less [OF s] by simp
    have "?vs = filter (shows_entry s es) [0..<?vs ! a] @ ?vs ! a # filter (shows_entry s es) [?vs ! a + 1..<length es]"
      using arg_cong [OF n, of "filter (shows_entry s es)"] s by simp
    then show ?thesis unfolding rank_def by (metis nth_append_length)
  qed
  moreover have "rank s es (?vs ! a) < length ?vs" using rank_nth(1) [OF s] by (simp add: user_view_def)
  ultimately have "rank s es (?vs ! a) = a" using a by (simp add: nth_eq_iff_index_eq)
  then show thesis using that s by blast
qed

text \<open>Entries sorted by internal key are sorted by user key, and the newer ones come first.\<close>

lemma user_key_mono:
  assumes "entries_sorted icmp es" "i \<le> j" "j < length es"
  shows "ucmp (user_key (es ! i)) (user_key (es ! j)) \<le> 0"
proof (cases "i = j")
  case False
  then have "icmp (fst (es ! i)) (fst (es ! j)) < 0"
    using assms by (simp add: entries_sorted_def sorted_wrt_iff_nth_less)
  then show ?thesis by (intro icmp_user_le) simp
qed (simp add: bytewise.cmp_refl)

lemma shows_user_less:
  assumes "entries_sorted icmp es" "shows_entry s es i" "shows_entry s es j"
  shows "ucmp (user_key (es ! i)) (user_key (es ! j)) < 0 \<longleftrightarrow> i < j"
proof (cases i j rule: linorder_cases)
  case less
  have "user_key (es ! i) \<noteq> user_key (es ! j)" using assms(2,3) less by (auto simp: shows_entry_def)
  moreover have "ucmp (user_key (es ! i)) (user_key (es ! j)) \<le> 0"
    using user_key_mono [OF assms(1), of i j] less shows_less [OF assms(3)] by simp
  ultimately show ?thesis using less Bytewise_eq_0 by (metis less_le)
next
  case greater
  have "ucmp (user_key (es ! j)) (user_key (es ! i)) \<le> 0"
    using user_key_mono [OF assms(1), of j i] greater shows_less [OF assms(2)] by simp
  then show ?thesis using greater bytewise.cmp_le_iff by auto
qed (simp add: bytewise.cmp_refl)

lemma user_view_sorted:
  assumes "entries_sorted icmp es"
  shows "entries_sorted ucmp (user_view s es)"
  unfolding entries_sorted_def sorted_wrt_iff_nth_less
proof (intro allI impI)
  fix a b assume ab: "a < b" "b < length (user_view s es)"
  obtain v where v: "shows_entry s es v" "rank s es v = a" using user_view_nth [of a s es] ab by auto
  obtain w where w: "shows_entry s es w" "rank s es w = b" using user_view_nth [of b s es] ab by auto
  have "v < w" using rank_less [OF v(1), of w] v(2) w(2) ab(1) by simp
  then show "ucmp (fst (user_view s es ! a)) (fst (user_view s es ! b)) < 0"
    using shows_user_less [OF assms v(1) w(1)] rank_nth(2) [OF v(1)] rank_nth(2) [OF w(1)] v(2) w(2) by simp
qed

section \<open>Single steps\<close>

text \<open>A state after sampling differs from the one before in the generator and the samples only.\<close>

definition sampled :: "'s DBIter \<Rightarrow> 's DBIter \<Rightarrow> bool" where
  "sampled d d' \<longleftrightarrow> (\<exists>r n sm. good_seed r
     \<and> d' = d\<lparr>di_rnd := r, di_bytes_until_read_sampling := n, di_samples := sm\<rparr>)"

lemma sampled_fields:
  assumes "sampled d d'"
  shows "di_iter d' = di_iter d" "di_sequence d' = di_sequence d" "di_status d' = di_status d"
    "di_saved_key d' = di_saved_key d" "di_saved_value d' = di_saved_value d" "di_forward d' = di_forward d"
    "di_valid d' = di_valid d" "good_seed (di_rnd d')"
  using assms by (auto simp: sampled_def)

lemma sampled_trans:
  assumes "sampled d d1" "sampled d1 d2"
  shows "sampled d d2"
proof -
  obtain r m sm where "d1 = d\<lparr>di_rnd := r, di_bytes_until_read_sampling := m, di_samples := sm\<rparr>"
    using assms(1) by (auto simp: sampled_def)
  moreover obtain r' m' sm' where r': "good_seed r'"
    "d2 = d1\<lparr>di_rnd := r', di_bytes_until_read_sampling := m', di_samples := sm'\<rparr>"
    using assms(2) by (auto simp: sampled_def)
  ultimately have "d2 = d\<lparr>di_rnd := r', di_bytes_until_read_sampling := m', di_samples := sm'\<rparr>"
    by (cases d) simp
  then show ?thesis using r'(1) unfolding sampled_def by blast
qed

lemma sampled_limit:
  assumes "sampled d d'"
  shows "sampled d (d'\<lparr>di_bytes_until_read_sampling := n\<rparr>)"
proof -
  obtain r m sm where r: "good_seed r"
    "d' = d\<lparr>di_rnd := r, di_bytes_until_read_sampling := m, di_samples := sm\<rparr>"
    using assms by (auto simp: sampled_def)
  then have "d'\<lparr>di_bytes_until_read_sampling := n\<rparr> = d\<lparr>di_rnd := r, di_bytes_until_read_sampling := n, di_samples := sm\<rparr>"
    by (cases d) simp
  then show ?thesis using r(1) unfolding sampled_def by blast
qed

locale sampling =
  fixes period :: u32
  assumes period: "even (unat period)" "period \<noteq> 0"
begin

text \<open>Some sample moves the limit, however many do not.\<close>

lemma read_sampling_move:
  assumes "(Random_Next ^^ n) (Random_Next r) mod period \<noteq> 0" "good_seed r" "di_rnd d = r"
    and "di_bytes_until_read_sampling d < b"
  shows "\<exists>d'. sampled d d' \<and> di_bytes_until_read_sampling d < di_bytes_until_read_sampling d'
    \<and> read_sampling period k b d = read_sampling period k b d'"
  using assms
proof (induction n arbitrary: r d)
  case 0
  let ?d = "d\<lparr>di_rnd := Random_Next r,
      di_bytes_until_read_sampling := di_bytes_until_read_sampling d + unat (Random_Next r mod period),
      di_samples := di_samples d @ [k]\<rparr>"
  have "read_sampling period k b d = read_sampling period k b ?d"
    using 0(3,4) by (subst read_sampling.simps) (simp add: RandomCompactionPeriod_def Random_Uniform_def Let_def)
  moreover have "0 < unat (Random_Next r mod period)" using 0(1) by (simp add: unat_gt_0)
  moreover have "sampled d ?d" using good_seed_Next [OF 0(2)] unfolding sampled_def by blast
  ultimately show ?case by (intro exI [of _ ?d]) simp
next
  case (Suc n)
  let ?r = "Random_Next r"
  let ?d = "d\<lparr>di_rnd := ?r,
      di_bytes_until_read_sampling := di_bytes_until_read_sampling d + unat (?r mod period),
      di_samples := di_samples d @ [k]\<rparr>"
  have eq: "read_sampling period k b d = read_sampling period k b ?d"
    using Suc(4,5) by (subst read_sampling.simps) (simp add: RandomCompactionPeriod_def Random_Uniform_def Let_def)
  have s: "sampled d ?d" using good_seed_Next [OF Suc(3)] unfolding sampled_def by blast
  show ?case
  proof (cases "unat (?r mod period) = 0")
    case False
    then show ?thesis using eq s by (intro exI [of _ ?d]) simp
  next
    case True
    have "(Random_Next ^^ n) (Random_Next ?r) mod period \<noteq> 0" using Suc(2) by (simp add: funpow_swap1)
    from Suc.IH [OF this good_seed_Next [OF Suc(3)], of ?d] True Suc(5) obtain d' where
      d': "sampled ?d d'" "di_bytes_until_read_sampling d < di_bytes_until_read_sampling d'"
        "read_sampling period k b ?d = read_sampling period k b d'" by auto
    from sampled_trans [OF s d'(1)] show ?thesis using d' eq by auto
  qed
qed

lemma read_sampling_returns:
  "good_seed (di_rnd d) \<Longrightarrow> \<exists>d'. read_sampling period k b d = Some d' \<and> sampled d d'"
proof (induction "b - di_bytes_until_read_sampling d" arbitrary: d rule: less_induct)
  case less
  show ?case
  proof (cases "di_bytes_until_read_sampling d < b")
    case False
    moreover have "sampled d d" using less.prems unfolding sampled_def
      by (intro exI [of _ "di_rnd d"] exI [of _ "di_bytes_until_read_sampling d"] exI [of _ "di_samples d"]) simp
    ultimately show ?thesis by (subst read_sampling.simps) auto
  next
    case True
    obtain n where n: "(Random_Next ^^ n) (Random_Next (di_rnd d)) mod period \<noteq> 0"
      using Random_leaves_multiples [OF less.prems period] by blast
    obtain d1 where d1: "sampled d d1" "di_bytes_until_read_sampling d < di_bytes_until_read_sampling d1"
      "read_sampling period k b d = read_sampling period k b d1"
      using read_sampling_move [OF n less.prems refl True] by blast
    obtain d' where d': "read_sampling period k b d1 = Some d'" "sampled d1 d'"
      using less.hyps [OF diff_less_mono2 [OF d1(2) True] sampled_fields(8) [OF d1(1)]] by blast
    from sampled_trans [OF d1(1) d'(2)] show ?thesis using d1(3) d'(1) by auto
  qed
qed

lemma ParseKey_internal:
  assumes "good_seed (di_rnd d)" "internal_key (i_key ops (di_iter d))"
  shows "\<exists>d'. ParseKey ops period d = Some (Some \<lparr>pk_user_key = ExtractUserKey (i_key ops (di_iter d)),
      pk_sequence = drop_bit 8 (ExtractTag (i_key ops (di_iter d))),
      pk_type = (if ExtractTag (i_key ops (di_iter d)) AND 0xff \<noteq> 0 then kTypeValue else kTypeDeletion)\<rparr>, d') \<and> sampled d d'"
proof -
  let ?k = "i_key ops (di_iter d)"
  let ?b = "length ?k + length (i_value ops (di_iter d))"
  obtain u s t where k: "s \<le> kMaxSequenceNumber" "?k = InternalKey u s t" using assms(2) by (auto simp: internal_key_def)
  obtain d1 where d1: "read_sampling period ?k ?b d = Some d1" "sampled d d1"
    using read_sampling_returns [OF assms(1)] by blast
  have p: "ParseInternalKey ?k = Some \<lparr>pk_user_key = ExtractUserKey ?k, pk_sequence = drop_bit 8 (ExtractTag ?k),
      pk_type = (if ExtractTag ?k AND 0xff \<noteq> 0 then kTypeValue else kTypeDeletion)\<rparr>"
    using k by (cases t) (simp_all add: Pack_drop Pack_type)
  have "sampled d (d1\<lparr>di_bytes_until_read_sampling := di_bytes_until_read_sampling d1 - ?b\<rparr>)"
    using sampled_limit [OF d1(2)] .
  then show ?thesis unfolding ParseKey_def Let_def d1(1) option.case p by blast
qed

end

locale internal_iterator = sorted_iterator icmp ops rep + sampling period
  for ops :: "'s IterOps" and rep :: "'s \<Rightarrow> entries \<Rightarrow> nat \<Rightarrow> bool" and period :: u32
begin

text \<open>What a step of either loop finds at entry \<open>i\<close>.\<close>

definition parsed :: "bytes \<times> bytes \<Rightarrow> ParsedInternalKey" where
  "parsed e = \<lparr>pk_user_key = user_key e, pk_sequence = drop_bit 8 (ExtractTag (fst e)),
     pk_type = (if is_value e then kTypeValue else kTypeDeletion)\<rparr>"

lemma ParseKey_at:
  assumes "rep (di_iter d) es i" "i < length es" "internal_key (fst (es ! i))" "good_seed (di_rnd d)"
  shows "\<exists>d'. ParseKey ops period d = Some (Some (parsed (es ! i)), d') \<and> sampled d d'"
  using ParseKey_internal [OF assms(4), of ops] assms(3) rep_key [OF assms(1,2)]
  by (simp add: parsed_def is_value_def)

section \<open>Forwards\<close>

text \<open>
  The states of the iterator: where the internal iterator is while the user's one
  is at entry \<open>v\<close>.  Backwards it is before all entries of the user key, past entries
  the reader does not see.
\<close>

definition before_user :: "u64 \<Rightarrow> entries \<Rightarrow> nat \<Rightarrow> nat \<Rightarrow> bool" where
  "before_user s es v q \<longleftrightarrow> q \<le> v \<and> (\<forall>j<q. ucmp (user_key (es ! j)) (user_key (es ! v)) < 0)
     \<and> (\<forall>j\<ge>q. j < v \<longrightarrow> \<not> seen_by s (es ! j))"

definition at_entry :: "entries \<Rightarrow> nat \<Rightarrow> 's DBIter \<Rightarrow> bool" where
  "at_entry es v d \<longleftrightarrow> di_valid d \<and> shows_entry (di_sequence d) es v
     \<and> (if di_forward d then rep (di_iter d) es v
        else di_saved_key d = user_key (es ! v) \<and> di_saved_value d = snd (es ! v)
          \<and> (\<exists>p. rep (di_iter d) es p \<and> before_user (di_sequence d) es v (if p = length es then 0 else p + 1)))"

definition healthy :: "entries \<Rightarrow> 's DBIter \<Rightarrow> bool" where
  "healthy es d \<longleftrightarrow> di_status d = Status_OK \<and> good_seed (di_rnd d) \<and> entries_sorted icmp es
     \<and> (\<forall>e\<in>set es. internal_key (fst e)) \<and> (\<exists>p. rep (di_iter d) es p)"

definition user_at :: "entries \<Rightarrow> nat \<Rightarrow> 's DBIter \<Rightarrow> bool" where
  "user_at es a d \<longleftrightarrow> healthy es d \<and> a \<le> length (user_view (di_sequence d) es)
     \<and> (if a = length (user_view (di_sequence d) es) then \<not> di_valid d
        else \<exists>v. at_entry es v d \<and> rank (di_sequence d) es v = a)"

lemma user_at_entry: "healthy es d \<Longrightarrow> at_entry es v d \<Longrightarrow> user_at es (rank (di_sequence d) es v) d"
  using rank_nth(1) [of "di_sequence d" es v] unfolding user_at_def at_entry_def [of es v]
  by (metis at_entry_def less_imp_le nat_neq_iff)

lemma user_at_end: "healthy es d \<Longrightarrow> \<not> di_valid d \<Longrightarrow> user_at es (length (user_view (di_sequence d) es)) d"
  unfolding user_at_def by simp

text \<open>
  \<open>t\<close> is where the entries to be found start.  Entries before \<open>i\<close> that the reader
  sees hide the older ones of their user keys, which the saved key covers.
\<close>

lemma FindNextUserEntry_finds:
  assumes "healthy es d" "rep (di_iter d) es i" "i < length es" "di_forward d"
    and "\<And>j j'. i \<le> j \<Longrightarrow> j < length es \<Longrightarrow> j' < i \<Longrightarrow> user_key (es ! j') = user_key (es ! j) \<Longrightarrow>
        seen_by (di_sequence d) (es ! j') \<Longrightarrow> skipping \<and> ucmp (user_key (es ! j)) (di_saved_key d) \<le> 0"
    and "\<And>j. i \<le> j \<Longrightarrow> j < length es \<Longrightarrow> skipping \<Longrightarrow> seen_by (di_sequence d) (es ! j) \<Longrightarrow>
        ucmp (di_saved_key d) (user_key (es ! j)) \<le> 0"
    and "\<And>j. shows_entry (di_sequence d) es j \<Longrightarrow>
        t \<le> j \<longleftrightarrow> i \<le> j \<and> (skipping \<longrightarrow> 0 < ucmp (user_key (es ! j)) (di_saved_key d))"
  shows "\<exists>d'. FindNextUserEntry ucmp ops period skipping d = Some d' \<and> di_sequence d' = di_sequence d
    \<and> user_at es (rank (di_sequence d) es t) d'"
  using assms
proof (induction "length es - i" arbitrary: i d skipping rule: less_induct)
  case less
  note h = less.prems(1) and rep = less.prems(2) and i = less.prems(3) and fw = less.prems(4)
    and hidden = less.prems(5) and skip = less.prems(6) and t = less.prems(7)
  let ?s = "di_sequence d" and ?e = "es ! i"
  have srt: "entries_sorted icmp es" and seed: "good_seed (di_rnd d)" and ik: "internal_key (fst ?e)"
    using h i by (simp_all add: healthy_def)
  obtain d1 where d1: "ParseKey ops period d = Some (Some (parsed ?e), d1)" "sampled d d1"
    using ParseKey_at [OF rep i ik seed] by blast
  note f1 = sampled_fields [OF d1(2)]
  define s where "s = next_entry ucmp (Some (parsed ?e)) skipping d1"
  define d2 where "d2 = (snd (snd s))\<lparr>di_iter := i_next ops (di_iter (snd (snd s)))\<rparr>"
  have step: "FindNextUserEntry ucmp ops period skipping d =
    (if fst s then Some (snd (snd s))
     else if i_valid ops (di_iter d2) then FindNextUserEntry ucmp ops period (fst (snd s)) d2
     else Some (d2\<lparr>di_saved_key := [], di_valid := False\<rparr>))"
    by (subst FindNextUserEntry.simps) (simp add: d1(1) s_def d2_def Let_def)
  have go: ?case
    if nf: "\<not> fst s" and same: "di_iter (snd (snd s)) = di_iter d" "di_sequence (snd (snd s)) = ?s"
        "di_status (snd (snd s)) = di_status d" "di_forward (snd (snd s))" "good_seed (di_rnd (snd (snd s)))"
      and ns: "\<not> (t \<le> i \<and> shows_entry ?s es i)"
      and hidden': "\<And>j j'. i + 1 \<le> j \<Longrightarrow> j < length es \<Longrightarrow> j' < i + 1 \<Longrightarrow> user_key (es ! j') = user_key (es ! j) \<Longrightarrow>
        seen_by ?s (es ! j') \<Longrightarrow> fst (snd s) \<and> ucmp (user_key (es ! j)) (di_saved_key (snd (snd s))) \<le> 0"
      and skip': "\<And>j. i + 1 \<le> j \<Longrightarrow> j < length es \<Longrightarrow> fst (snd s) \<Longrightarrow> seen_by ?s (es ! j) \<Longrightarrow>
        ucmp (di_saved_key (snd (snd s))) (user_key (es ! j)) \<le> 0"
      and t': "\<And>j. shows_entry ?s es j \<Longrightarrow>
        t \<le> j \<longleftrightarrow> i + 1 \<le> j \<and> (fst (snd s) \<longrightarrow> 0 < ucmp (user_key (es ! j)) (di_saved_key (snd (snd s))))"
  proof -
    have rep2: "rep (di_iter d2) es (i + 1)" using rep_next [OF rep i] same(1) by (simp add: d2_def)
    have h2: "healthy es d2" using h same rep2 by (auto simp: healthy_def d2_def)
    have f2: "di_sequence d2 = ?s" "di_forward d2" "di_saved_key d2 = di_saved_key (snd (snd s))"
      using same by (simp_all add: d2_def)
    show ?thesis
    proof (cases "i + 1 < length es")
      case True
      then have "i_valid ops (di_iter d2)" using rep_valid [OF rep2] by simp
      moreover have lt: "length es - (i + 1) < length es - i" using i by simp
      note ih = less.hyps [OF lt h2 rep2 True f2(2), unfolded f2(1,3)]
      have "\<exists>d'. FindNextUserEntry ucmp ops period (fst (snd s)) d2 = Some d' \<and> di_sequence d' = ?s
          \<and> user_at es (rank ?s es t) d'"
        by (rule ih) (rule hidden' skip' t'; assumption)+
      ultimately show ?thesis using step nf by simp
    next
      case False
      then have "\<not> i_valid ops (di_iter d2)" using rep_valid [OF rep2] by simp
      moreover have "rank ?s es t = length (user_view ?s es)"
      proof (rule rank_all)
        fix j assume sj: "shows_entry ?s es j"
        then have "\<not> i + 1 \<le> j" using shows_less [OF sj] False by simp
        then show "j < t" using t' [OF sj] by simp
      qed
      moreover have "healthy es (d2\<lparr>di_saved_key := [], di_valid := False\<rparr>)" using h2 by (simp add: healthy_def)
      ultimately show ?thesis using step nf user_at_end f2(1) by fastforce
    qed
  qed
  consider (unseen) "\<not> seen_by ?s ?e" | (deletion) "seen_by ?s ?e" "\<not> is_value ?e"
    | (skipped) "seen_by ?s ?e" "is_value ?e" "skipping" "ucmp (user_key ?e) (di_saved_key d) \<le> 0"
    | (found) "seen_by ?s ?e" "is_value ?e" "\<not> (skipping \<and> ucmp (user_key ?e) (di_saved_key d) \<le> 0)"
    by blast
  then show ?case
  proof cases
    case unseen
    then have s: "s = (False, skipping, d1)"
      using f1 by (simp add: s_def next_entry_def parsed_def seen_by_def)
    have ns: "\<not> shows_entry ?s es i" using unseen by (simp add: shows_entry_def)
    show ?thesis
    proof (rule go)
      fix j j' assume j: "i + 1 \<le> j" "j < length es" "j' < i + 1" "user_key (es ! j') = user_key (es ! j)" "seen_by ?s (es ! j')"
      have "j' \<noteq> i" using j(5) unseen by blast
      then show "fst (snd s) \<and> ucmp (user_key (es ! j)) (di_saved_key (snd (snd s))) \<le> 0"
        using hidden [of j j'] j s f1 by simp
    next
      fix j assume "shows_entry ?s es j"
      then show "t \<le> j \<longleftrightarrow> i + 1 \<le> j \<and> (fst (snd s) \<longrightarrow> 0 < ucmp (user_key (es ! j)) (di_saved_key (snd (snd s))))"
        using t [of j] ns s f1 by (cases "j = i") auto
    qed (use s f1 fw ns skip in simp_all)
  next
    case deletion
    then have s: "s = (False, True, d1\<lparr>di_saved_key := user_key ?e\<rparr>)"
      using f1 by (simp add: s_def next_entry_def parsed_def seen_by_def)
    have ns: "\<not> shows_entry ?s es i" using deletion by (simp add: shows_entry_def)
    have le: "ucmp (user_key ?e) (user_key (es ! j)) \<le> 0" if "i \<le> j" "j < length es" for j
      using user_key_mono [OF srt that] .
    show ?thesis
    proof (rule go)
      fix j j' assume j: "i + 1 \<le> j" "j < length es" "j' < i + 1" "user_key (es ! j') = user_key (es ! j)"
      have "ucmp (user_key (es ! j')) (user_key ?e) \<le> 0" using user_key_mono [OF srt, of j' i] i j(3) by simp
      then show "fst (snd s) \<and> ucmp (user_key (es ! j)) (di_saved_key (snd (snd s))) \<le> 0"
        using s j(4) by simp
    next
      fix j assume sj: "shows_entry ?s es j"
      have ne: "i < j \<Longrightarrow> ucmp (user_key ?e) (user_key (es ! j)) < 0"
        using le [of j] shows_less [OF sj] sj deletion(1) by (auto simp: shows_entry_def order.order_iff_strict)
      show "t \<le> j \<longleftrightarrow> i + 1 \<le> j \<and> (fst (snd s) \<longrightarrow> 0 < ucmp (user_key (es ! j)) (di_saved_key (snd (snd s))))"
      proof (cases "i < j")
        case True
        have "skipping \<Longrightarrow> ucmp (di_saved_key d) (user_key ?e) \<le> 0" using skip [of i] i deletion(1) by simp
        then have "skipping \<Longrightarrow> ucmp (di_saved_key d) (user_key (es ! j)) < 0"
          using ne [OF True] bytewise.cmp_le_less_trans by blast
        then show ?thesis using t [OF sj] True s ne [OF True] by (simp add: bytewise.cmp_swap)
      next
        case False
        then have "j \<noteq> i" using sj ns by blast
        then show ?thesis using False t [OF sj] by simp
      qed
    qed (use s f1 fw ns le in simp_all)
  next
    case skipped
    then have s: "s = (False, skipping, d1)"
      using f1 by (simp add: s_def next_entry_def parsed_def seen_by_def)
    have ns: "\<not> (t \<le> i \<and> shows_entry ?s es i)" using t [of i] skipped(3,4) by fastforce
    show ?thesis
    proof (rule go)
      fix j j' assume j: "i + 1 \<le> j" "j < length es" "j' < i + 1" "user_key (es ! j') = user_key (es ! j)" "seen_by ?s (es ! j')"
      show "fst (snd s) \<and> ucmp (user_key (es ! j)) (di_saved_key (snd (snd s))) \<le> 0"
      proof (cases "j' = i")
        case True
        then show ?thesis using skipped(3,4) s f1 j(4) by simp
      next
        case False
        then show ?thesis using hidden [of j j'] j s f1 by simp
      qed
    next
      fix j assume sj: "shows_entry ?s es j"
      show "t \<le> j \<longleftrightarrow> i + 1 \<le> j \<and> (fst (snd s) \<longrightarrow> 0 < ucmp (user_key (es ! j)) (di_saved_key (snd (snd s))))"
        using t [OF sj] ns sj s f1 skipped(3,4) by (cases "j = i") auto
    qed (use s f1 fw ns skip in simp_all)
  next
    case found
    then have s: "s = (True, skipping, d1\<lparr>di_valid := True, di_saved_key := []\<rparr>)"
      using f1 by (simp add: s_def next_entry_def parsed_def seen_by_def)
    let ?d = "d1\<lparr>di_valid := True, di_saved_key := []\<rparr>"
    have sh: "shows_entry ?s es i"
      unfolding shows_entry_def using found i hidden [of i] by (metis order_refl)
    have "rank ?s es t = rank ?s es i"
    proof (rule rank_cong)
      fix j assume sj: "shows_entry ?s es j"
      have "i \<le> j \<Longrightarrow> skipping \<Longrightarrow> 0 < ucmp (user_key (es ! j)) (di_saved_key d)"
        using user_key_mono [OF srt, of i j] shows_less [OF sj] found(3) bytewise.cmp_le_trans bytewise.cmp_le_iff
          bytewise.cmp_swap by (metis not_le)
      then show "j < t \<longleftrightarrow> j < i" using t [OF sj] by (cases "i \<le> j") (auto simp: not_le)
    qed
    moreover have "user_at es (rank ?s es i) ?d"
      using user_at_entry [of es ?d i] h rep sh f1 fw by (simp add: healthy_def at_entry_def)
    ultimately show ?thesis using step s f1(2) by simp
  qed
qed

section \<open>Backwards\<close>

text \<open>
  What the loop knows while the entries from \<open>p\<close> on and below \<open>q\<close> are done: the
  saved entry is the first one seen of its user key so far, and nothing else
  there is to be shown.
\<close>

definition prev_inv :: "entries \<Rightarrow> nat \<Rightarrow> nat \<Rightarrow> ValueType \<Rightarrow> 's DBIter \<Rightarrow> bool" where
  "prev_inv es p q value_type d \<longleftrightarrow>
     (if value_type = kTypeDeletion then \<forall>j. shows_entry (di_sequence d) es j \<and> p \<le> j \<longrightarrow> q \<le> j
      else \<exists>m. p \<le> m \<and> m < q \<and> m < length es \<and> seen_by (di_sequence d) (es ! m) \<and> is_value (es ! m)
         \<and> di_saved_key d = user_key (es ! m) \<and> di_saved_value d = snd (es ! m)
         \<and> (\<forall>j. p \<le> j \<and> j < m \<longrightarrow> \<not> seen_by (di_sequence d) (es ! j))
         \<and> (\<forall>j. shows_entry (di_sequence d) es j \<and> p \<le> j \<and> j < q \<longrightarrow> j = m))"

text \<open>What it has found when it ends.\<close>

definition prev_found :: "entries \<Rightarrow> nat \<Rightarrow> ValueType \<Rightarrow> 's DBIter \<Rightarrow> bool" where
  "prev_found es q value_type d \<longleftrightarrow>
     (if value_type = kTypeDeletion then \<forall>j. shows_entry (di_sequence d) es j \<longrightarrow> q \<le> j
      else \<exists>m. m < q \<and> shows_entry (di_sequence d) es m \<and> (\<forall>j. shows_entry (di_sequence d) es j \<and> j < q \<longrightarrow> j \<le> m)
         \<and> di_saved_key d = user_key (es ! m) \<and> di_saved_value d = snd (es ! m)
         \<and> (\<exists>p. rep (di_iter d) es p \<and> before_user (di_sequence d) es m (if p = length es then 0 else p + 1)))"

lemma prev_inv_step:
  assumes srt: "entries_sorted icmp es" and p: "p < length es" "p < q" and f: "di_sequence d' = di_sequence d"
    and inv: "prev_inv es (p + 1) q value_type d"
    and d': "if seen_by (di_sequence d) (es ! p)
      then value_type' = (if is_value (es ! p) then kTypeValue else kTypeDeletion)
        \<and> (value_type \<noteq> kTypeDeletion \<longrightarrow> 0 \<le> ucmp (user_key (es ! p)) (di_saved_key d))
        \<and> (is_value (es ! p) \<longrightarrow> di_saved_key d' = user_key (es ! p) \<and> di_saved_value d' = snd (es ! p))
      else value_type' = value_type \<and> di_saved_key d' = di_saved_key d \<and> di_saved_value d' = di_saved_value d"
  shows "prev_inv es p q value_type' d'"
proof (cases "seen_by (di_sequence d) (es ! p)")
  case False
  then have ns: "\<not> shows_entry (di_sequence d) es p" by (simp add: shows_entry_def)
  have at: "p \<le> j \<Longrightarrow> j = p \<or> p + 1 \<le> j" for j by linarith
  have v: "value_type' = value_type" "di_saved_key d' = di_saved_key d" "di_saved_value d' = di_saved_value d"
    using d' False by auto
  show ?thesis
  proof (cases "value_type = kTypeDeletion")
    case True
    then show ?thesis using inv v f at ns unfolding prev_inv_def by auto
  next
    case val: False
    then obtain m where m: "p + 1 \<le> m" "m < q" "m < length es" "seen_by (di_sequence d) (es ! m)" "is_value (es ! m)"
      "di_saved_key d = user_key (es ! m)" "di_saved_value d = snd (es ! m)"
      "\<And>j. p + 1 \<le> j \<Longrightarrow> j < m \<Longrightarrow> \<not> seen_by (di_sequence d) (es ! j)"
      "\<And>j. shows_entry (di_sequence d) es j \<Longrightarrow> p + 1 \<le> j \<Longrightarrow> j < q \<Longrightarrow> j = m"
      using inv unfolding prev_inv_def by auto
    have "\<not> seen_by (di_sequence d) (es ! j)" if "p \<le> j" "j < m" for j using at [OF that(1)] m(8) that(2) False by blast
    moreover have "j = m" if "shows_entry (di_sequence d) es j" "p \<le> j" "j < q" for j
      using at [OF that(2)] m(9) that ns by blast
    ultimately show ?thesis using v f val m(1-7) unfolding prev_inv_def by (auto intro!: exI [of _ m])
  qed
next
  case True
  have sh: "j = p" if j: "shows_entry (di_sequence d) es j" "p \<le> j" "j < q" for j
  proof (rule ccontr)
    assume "j \<noteq> p"
    then have j1: "p + 1 \<le> j" using j(2) by simp
    have vt: "value_type \<noteq> kTypeDeletion"
    proof
      assume "value_type = kTypeDeletion"
      then have "q \<le> j" using inv j(1) j1 unfolding prev_inv_def by simp
      then show False using j(3) by simp
    qed
    then obtain m where m: "di_saved_key d = user_key (es ! m)" "j = m"
      using inv j(1,3) j1 unfolding prev_inv_def by auto
    then have "0 \<le> ucmp (user_key (es ! p)) (user_key (es ! j))" using d' True vt by simp
    moreover have "ucmp (user_key (es ! p)) (user_key (es ! j)) \<le> 0"
      using user_key_mono [OF srt j(2) shows_less [OF j(1)]] .
    ultimately have "user_key (es ! p) = user_key (es ! j)" using Bytewise_eq_0 by (metis order_antisym)
    then show False using j(1) j1 True by (auto simp: shows_entry_def)
  qed
  show ?thesis
  proof (cases "is_value (es ! p)")
    case val: True
    then show ?thesis using d' True p sh f unfolding prev_inv_def by (auto intro!: exI [of _ p])
  next
    case False
    then have "\<not> shows_entry (di_sequence d) es p" by (simp add: shows_entry_def)
    then have "q \<le> j" if "shows_entry (di_sequence d) es j" "p \<le> j" for j using sh [OF that] that by (metis not_le)
    then show ?thesis using d' True False f unfolding prev_inv_def by simp
  qed
qed

lemma prev_inv_value:
  assumes srt: "entries_sorted icmp es" and inv: "prev_inv es p q kTypeValue d"
    and before: "\<And>j. j < p \<Longrightarrow> ucmp (user_key (es ! j)) (di_saved_key d) < 0"
    and rep: "rep (di_iter d) es i" "p = (if i = length es then 0 else i + 1)"
  shows "prev_found es q kTypeValue d"
proof -
  obtain m where m: "p \<le> m" "m < q" "m < length es" "seen_by (di_sequence d) (es ! m)" "is_value (es ! m)"
    "di_saved_key d = user_key (es ! m)" "di_saved_value d = snd (es ! m)"
    "\<And>j. p \<le> j \<Longrightarrow> j < m \<Longrightarrow> \<not> seen_by (di_sequence d) (es ! j)"
    "\<And>j. shows_entry (di_sequence d) es j \<Longrightarrow> p \<le> j \<Longrightarrow> j < q \<Longrightarrow> j = m"
    using inv unfolding prev_inv_def by auto
  have lt: "ucmp (user_key (es ! j)) (user_key (es ! m)) < 0" if "j < p" for j using before [OF that] m(6) by simp
  have "shows_entry (di_sequence d) es m"
    unfolding shows_entry_def
  proof (intro conjI allI impI)
    fix j assume j: "j < m" "user_key (es ! j) = user_key (es ! m)"
    then have "\<not> j < p" using lt [of j] bytewise.cmp_refl by (metis less_irrefl)
    then show "\<not> seen_by (di_sequence d) (es ! j)" using m(8) j(1) by simp
  qed (use m in auto)
  moreover have "j \<le> m" if "shows_entry (di_sequence d) es j" "j < q" for j
    using m(1,9) that by (cases "p \<le> j") auto
  moreover have "before_user (di_sequence d) es m p" using m(1,8) lt unfolding before_user_def by blast
  ultimately have "m < q \<and> shows_entry (di_sequence d) es m
      \<and> (\<forall>j. shows_entry (di_sequence d) es j \<and> j < q \<longrightarrow> j \<le> m)
      \<and> di_saved_key d = user_key (es ! m) \<and> di_saved_value d = snd (es ! m)
      \<and> (\<exists>p. rep (di_iter d) es p \<and> before_user (di_sequence d) es m (if p = length es then 0 else p + 1))"
    using m(2,6,7) rep by blast
  then show ?thesis unfolding prev_found_def by (subst if_not_P) (simp, rule exI)
qed

lemma FindPrev_loop_finds:
  assumes "healthy es d" "rep (di_iter d) es p" "p < length es" "p < q" "\<not> di_forward d"
    and "prev_inv es (p + 1) q value_type d"
  shows "\<exists>vt d'. FindPrev_loop ucmp ops period value_type d = Some (vt, d') \<and> di_sequence d' = di_sequence d
    \<and> healthy es d' \<and> \<not> di_forward d' \<and> prev_found es q vt d'"
  using assms
proof (induction p arbitrary: d value_type rule: less_induct)
  case (less p)
  note h = less.prems(1) and rep = less.prems(2) and p = less.prems(3,4) and fw = less.prems(5) and inv = less.prems(6)
  let ?s = "di_sequence d" and ?e = "es ! p"
  have srt: "entries_sorted icmp es" and seed: "good_seed (di_rnd d)" and ik: "internal_key (fst ?e)"
    using h p by (simp_all add: healthy_def)
  obtain d1 where d1: "ParseKey ops period d = Some (Some (parsed ?e), d1)" "sampled d d1"
    using ParseKey_at [OF rep p(1) ik seed] by blast
  note f1 = sampled_fields [OF d1(2)]
  have ki: "i_key ops (di_iter d) = fst ?e" "i_value ops (di_iter d) = snd ?e"
    using rep_key [OF rep p(1)] rep_value [OF rep p(1)] by simp_all
  define s where "s = prev_entry ucmp ops (Some (parsed ?e)) value_type d1"
  define d2 where "d2 = (snd (snd s))\<lparr>di_iter := i_prev ops (di_iter (snd (snd s)))\<rparr>"
  have step: "FindPrev_loop ucmp ops period value_type d =
    (if fst s then Some (snd s)
     else if i_valid ops (di_iter d2) then FindPrev_loop ucmp ops period (fst (snd s)) d2
     else Some (fst (snd s), d2))"
    by (subst FindPrev_loop.simps) (simp add: d1(1) s_def d2_def Let_def)
  show ?case
  proof (cases "seen_by ?s ?e \<and> value_type \<noteq> kTypeDeletion \<and> ucmp (user_key ?e) (di_saved_key d) < 0")
    case True
    then have s: "s = (True, value_type, d1)"
      using f1 by (simp add: s_def prev_entry_def parsed_def seen_by_def)
    have vt: "value_type = kTypeValue" using True by (cases value_type) simp_all
    have inv1: "prev_inv es (p + 1) q kTypeValue d1" using inv f1 vt unfolding prev_inv_def by simp
    have "prev_found es q kTypeValue d1"
    proof (rule prev_inv_value [OF srt inv1, of p])
      fix j assume "j < p + 1"
      then have "ucmp (user_key (es ! j)) (user_key ?e) \<le> 0" using user_key_mono [OF srt, of j p] p(1) by simp
      then show "ucmp (user_key (es ! j)) (di_saved_key d1) < 0"
        using True f1 bytewise.cmp_le_less_trans by metis
    qed (use rep f1 p(1) in simp_all)
    moreover have "healthy es d1" using h f1 by (simp add: healthy_def)
    ultimately show ?thesis using step s f1 fw vt by simp
  next
    case False
    have s: "\<not> fst s" "di_iter (snd (snd s)) = di_iter d" "di_sequence (snd (snd s)) = ?s"
      "di_status (snd (snd s)) = di_status d" "\<not> di_forward (snd (snd s))" "good_seed (di_rnd (snd (snd s)))"
      using False f1 fw by (auto simp: s_def prev_entry_def parsed_def seen_by_def split: ValueType.split)
    have rep2: "rep (di_iter d2) es (step_back (length es) p)" using rep_prev [OF rep p(1)] s(2) by (simp add: d2_def)
    have h2: "healthy es d2" using h s rep2 by (auto simp: healthy_def d2_def)
    have f2: "di_sequence d2 = ?s" "\<not> di_forward d2" using s by (simp_all add: d2_def)
    have inv2: "prev_inv es p q (fst (snd s)) d2"
    proof (rule prev_inv_step [OF srt p f2(1) inv])
      show "if seen_by ?s ?e
        then fst (snd s) = (if is_value ?e then kTypeValue else kTypeDeletion)
          \<and> (value_type \<noteq> kTypeDeletion \<longrightarrow> 0 \<le> ucmp (user_key ?e) (di_saved_key d))
          \<and> (is_value ?e \<longrightarrow> di_saved_key d2 = user_key ?e \<and> di_saved_value d2 = snd ?e)
        else fst (snd s) = value_type \<and> di_saved_key d2 = di_saved_key d \<and> di_saved_value d2 = di_saved_value d"
        using False f1 ki by (auto simp: s_def d2_def prev_entry_def parsed_def seen_by_def)
    qed
    show ?thesis
    proof (cases p)
      case 0
      have rep3: "rep (di_iter d2) es (length es)" using rep2 0 by (simp add: step_back_def)
      then have nv: "\<not> i_valid ops (di_iter d2)" using rep_valid by simp
      have "prev_found es q (fst (snd s)) d2"
      proof (cases "fst (snd s)")
        case kTypeDeletion
        then show ?thesis using inv2 0 unfolding prev_inv_def prev_found_def by simp
      next
        case kTypeValue
        have "prev_inv es 0 q kTypeValue d2" using inv2 0 kTypeValue by simp
        from prev_inv_value [OF srt this _ rep3] show ?thesis using kTypeValue by simp
      qed
      then show ?thesis using step s(1) nv h2 f2 by simp
    next
      case (Suc r)
      have rep3: "rep (di_iter d2) es r" using rep2 Suc by (simp add: step_back_def)
      then have nv: "i_valid ops (di_iter d2)" using rep_valid [OF rep3] p(1) Suc by simp
      have "prev_inv es (r + 1) q (fst (snd s)) d2" using inv2 Suc by simp
      from less.IH [OF _ h2 rep3 _ _ f2(2) this] show ?thesis using step s(1) nv f2(1) p Suc by simp
    qed
  qed
qed

lemma FindPrevUserEntry_finds:
  assumes "healthy es d" "\<not> di_forward d" "rep (di_iter d) es p" "q = (if p = length es then 0 else p + 1)"
  shows "\<exists>d'. FindPrevUserEntry ucmp ops period d = Some d' \<and> di_sequence d' = di_sequence d
    \<and> user_at es (step_back (length (user_view (di_sequence d) es)) (rank (di_sequence d) es q)) d'"
proof -
  let ?s = "di_sequence d"
  obtain vt d1 where d1: "(if i_valid ops (di_iter d) then FindPrev_loop ucmp ops period kTypeDeletion d
      else Some (kTypeDeletion, d)) = Some (vt, d1)" "di_sequence d1 = ?s" "healthy es d1" "\<not> di_forward d1"
    "prev_found es q vt d1"
  proof (cases "p < length es")
    case True
    have "prev_inv es (p + 1) (p + 1) kTypeDeletion d" by (simp add: prev_inv_def)
    from FindPrev_loop_finds [OF assms(1,3) True _ assms(2) this] show thesis
      using that rep_valid [OF assms(3)] True assms(4) by auto
  next
    case False
    then have "p = length es" using rep_bound [OF assms(3)] by simp
    moreover have "prev_found es 0 kTypeDeletion d" by (simp add: prev_found_def)
    ultimately show thesis using that [of kTypeDeletion d] rep_valid [OF assms(3)] assms by simp
  qed
  show ?thesis
  proof (cases vt)
    case kTypeDeletion
    let ?d = "d1\<lparr>di_valid := False, di_saved_key := [], di_saved_value := [], di_forward := True\<rparr>"
    have "rank ?s es q = rank ?s es 0"
      using d1(2,5) kTypeDeletion unfolding prev_found_def by (intro rank_cong) auto
    moreover have "healthy es ?d" using d1(3) by (simp add: healthy_def)
    ultimately show ?thesis using d1(1,2) kTypeDeletion user_at_end [of es ?d]
      by (simp add: FindPrevUserEntry_def step_back_def)
  next
    case kTypeValue
    let ?d = "d1\<lparr>di_valid := True\<rparr>"
    obtain m where m: "m < q" "shows_entry ?s es m" "\<And>j. shows_entry ?s es j \<Longrightarrow> j < q \<Longrightarrow> j \<le> m"
      "di_saved_key d1 = user_key (es ! m)" "di_saved_value d1 = snd (es ! m)"
      "\<exists>p. rep (di_iter d1) es p \<and> before_user ?s es m (if p = length es then 0 else p + 1)"
      using d1(2,5) kTypeValue unfolding prev_found_def by auto
    have "rank ?s es q = rank ?s es (m + 1)" using m(1,3) by (intro rank_cong) fastforce
    then have "step_back (length (user_view ?s es)) (rank ?s es q) = rank ?s es m"
      using m(2) rank_Suc [of ?s es m] by (simp add: step_back_def)
    moreover have "healthy es ?d" using d1(3) by (simp add: healthy_def)
    moreover have "at_entry es m ?d" using m(2,4,5,6) d1(2,4) unfolding at_entry_def by simp
    ultimately show ?thesis using d1(1,2) kTypeValue user_at_entry [of es ?d m]
      by (simp add: FindPrevUserEntry_def)
  qed
qed

section \<open>The contract\<close>

text \<open>
  The iterator is a cursor in the user's view.
\<close>

definition dbiter_rep :: "'s DBIter option \<Rightarrow> entries \<Rightarrow> nat \<Rightarrow> bool" where
  "dbiter_rep x view a \<longleftrightarrow> (\<exists>d es. x = Some d \<and> di_sequence d \<le> kMaxSequenceNumber
     \<and> view = user_view (di_sequence d) es \<and> user_at es a d)"

lemma dbiter_rep_moved:
  assumes "\<exists>d'. f d = Some d' \<and> di_sequence d' = di_sequence d \<and> user_at es b d'" "di_sequence d \<le> kMaxSequenceNumber"
  shows "dbiter_rep (Option.bind (Some d) f) (user_view (di_sequence d) es) b"
  using assms unfolding dbiter_rep_def by auto

lemma forward_key_value:
  assumes "healthy es d" "at_entry es v d"
  shows "DBIter_key ops d = user_key (es ! v)" "DBIter_value ops d = snd (es ! v)"
  using assms(2) shows_less [of "di_sequence d" es v] rep_key [of "di_iter d" es v] rep_value [of "di_iter d" es v]
  unfolding at_entry_def DBIter_key_def DBIter_value_def by (simp_all split: if_splits)

lemma DBIter_SeekToFirst_at:
  assumes "healthy es d"
  shows "\<exists>d'. DBIter_SeekToFirst ucmp ops period d = Some d' \<and> di_sequence d' = di_sequence d \<and> user_at es 0 d'"
proof -
  obtain p where p: "rep (di_iter d) es p" using assms by (auto simp: healthy_def)
  let ?d = "d\<lparr>di_forward := True, di_saved_value := [], di_iter := i_seek_first ops (di_iter d)\<rparr>"
  note r = rep_first [OF p]
  have h: "healthy es ?d" using assms r by (auto simp: healthy_def)
  show ?thesis
  proof (cases "es = []")
    case True
    have "user_view (di_sequence d) es = []" by (simp add: user_view_def True)
    then have "user_at es 0 (?d\<lparr>di_valid := False\<rparr>)"
      using user_at_end [of es "?d\<lparr>di_valid := False\<rparr>"] h by (simp add: healthy_def)
    then show ?thesis using rep_valid [OF r] True by (simp add: DBIter_SeekToFirst_def Let_def)
  next
    case False
    have "\<exists>d'. FindNextUserEntry ucmp ops period False ?d = Some d' \<and> di_sequence d' = di_sequence ?d
        \<and> user_at es (rank (di_sequence ?d) es 0) d'"
      by (rule FindNextUserEntry_finds [OF h, of 0]) (use r False in auto)
    then show ?thesis using rep_valid [OF r] False by (simp add: DBIter_SeekToFirst_def Let_def)
  qed
qed

lemma DBIter_SeekToLast_at:
  assumes "healthy es d"
  shows "\<exists>d'. DBIter_SeekToLast ucmp ops period d = Some d' \<and> di_sequence d' = di_sequence d
    \<and> user_at es (step_back (length (user_view (di_sequence d) es)) (length (user_view (di_sequence d) es))) d'"
proof -
  obtain p where p: "rep (di_iter d) es p" using assms by (auto simp: healthy_def)
  let ?d = "d\<lparr>di_forward := False, di_saved_value := [], di_iter := i_seek_last ops (di_iter d)\<rparr>"
  note r = rep_last [OF p]
  have h: "healthy es ?d" using assms r by (auto simp: healthy_def)
  have q: "length es = (if step_back (length es) (length es) = length es then 0 else step_back (length es) (length es) + 1)"
    by (cases es) (auto simp: step_back_def)
  have "\<exists>d'. FindPrevUserEntry ucmp ops period ?d = Some d' \<and> di_sequence d' = di_sequence ?d
      \<and> user_at es (step_back (length (user_view (di_sequence ?d) es)) (rank (di_sequence ?d) es (length es))) d'"
    by (rule FindPrevUserEntry_finds [OF h _ _ q]) (use r in simp_all)
  then show ?thesis by (simp add: DBIter_SeekToLast_def length_user_view)
qed

lemma DBIter_Next_at:
  assumes h: "healthy es d" and v: "at_entry es v d"
  shows "\<exists>d'. DBIter_Next ucmp ops period d = Some d' \<and> di_sequence d' = di_sequence d
    \<and> user_at es (rank (di_sequence d) es v + 1) d'"
proof -
  let ?s = "di_sequence d"
  have srt: "entries_sorted icmp es" using h by (simp add: healthy_def)
  have sv: "shows_entry ?s es v" using v by (simp add: at_entry_def)
  note lv = shows_less [OF sv]
  have rank: "rank ?s es v + 1 = rank ?s es (v + 1)" using rank_Suc [of ?s es v] sv by simp
  define d1 where "d1 = (if \<not> di_forward d then
      d\<lparr>di_forward := True, di_iter := (if \<not> i_valid ops (di_iter d) then i_seek_first ops (di_iter d)
        else i_next ops (di_iter d))\<rparr>
      else d\<lparr>di_saved_key := ExtractUserKey (i_key ops (di_iter d)), di_iter := i_next ops (di_iter d)\<rparr>)"
  have f: "di_sequence d1 = ?s" "di_forward d1" by (simp_all add: d1_def)
  obtain q where q: "rep (di_iter d1) es q" "di_saved_key d1 = user_key (es ! v)"
    "q = v + 1 \<or> before_user ?s es v q"
  proof (cases "di_forward d")
    case True
    then have r: "rep (di_iter d) es v" using v by (simp add: at_entry_def)
    show thesis using that [of "v + 1"] rep_next [OF r lv] rep_key [OF r lv] True by (simp add: d1_def)
  next
    case False
    then obtain p where p: "rep (di_iter d) es p" "before_user ?s es v (if p = length es then 0 else p + 1)"
      "di_saved_key d = user_key (es ! v)" using v by (auto simp: at_entry_def)
    show thesis
    proof (cases "p = length es")
      case stop: True
      then have "\<not> i_valid ops (di_iter d)" using rep_valid [OF p(1)] by simp
      then show thesis using that [of 0] rep_first [OF p(1)] p False stop by (simp add: d1_def)
    next
      case lt: False
      then have "p < length es" using rep_bound [OF p(1)] by simp
      then show thesis using that [of "p + 1"] rep_next [OF p(1)] rep_valid [OF p(1)] p False lt by (simp add: d1_def)
    qed
  qed
  have h1: "healthy es d1" using h q(1) by (auto simp: healthy_def d1_def)
  have step: "DBIter_Next ucmp ops period d = (if \<not> i_valid ops (di_iter d1)
      then Some (d1\<lparr>di_valid := False, di_saved_key := []\<rparr>) else FindNextUserEntry ucmp ops period True d1)"
    by (simp add: DBIter_Next_def d1_def Let_def)
  have qv: "q \<le> v + 1" using q(3) by (auto simp: before_user_def)
  show ?thesis
  proof (cases "q < length es")
    case True
    have "\<exists>d'. FindNextUserEntry ucmp ops period True d1 = Some d' \<and> di_sequence d' = di_sequence d1
        \<and> user_at es (rank (di_sequence d1) es (v + 1)) d'"
    proof (rule FindNextUserEntry_finds [OF h1 q(1) True f(2)], unfold f(1) q(2))
      fix j j' assume j: "q \<le> j" "j < length es" "j' < q" "user_key (es ! j') = user_key (es ! j)"
      have "ucmp (user_key (es ! j')) (user_key (es ! v)) \<le> 0"
        using user_key_mono [OF srt, of j' v] j(3) qv lv by simp
      then show "True \<and> ucmp (user_key (es ! j)) (user_key (es ! v)) \<le> 0" using j(4) by simp
    next
      fix j assume j: "q \<le> j" "j < length es" "seen_by ?s (es ! j)"
      have "v \<le> j" using q(3) j by (auto simp: before_user_def)
      then show "ucmp (user_key (es ! v)) (user_key (es ! j)) \<le> 0" using user_key_mono [OF srt _ j(2)] by simp
    next
      fix j assume sj: "shows_entry ?s es j"
      have "v < j \<longleftrightarrow> 0 < ucmp (user_key (es ! j)) (user_key (es ! v))"
        using shows_user_less [OF srt sv sj] bytewise.cmp_swap by simp
      then show "v + 1 \<le> j \<longleftrightarrow> q \<le> j \<and> (True \<longrightarrow> 0 < ucmp (user_key (es ! j)) (user_key (es ! v)))"
        using qv by auto
    qed
    then show ?thesis using step rep_valid [OF q(1)] True f(1) rank by simp
  next
    case False
    then have "v + 1 = length es" "\<not> i_valid ops (di_iter d1)" using qv lv rep_valid [OF q(1)] by simp_all
    moreover have "healthy es (d1\<lparr>di_valid := False, di_saved_key := []\<rparr>)" using h1 by (simp add: healthy_def)
    ultimately show ?thesis
      using step f(1) rank user_at_end [of es "d1\<lparr>di_valid := False, di_saved_key := []\<rparr>"]
      by (simp add: length_user_view)
  qed
qed

lemma before_saved_key_finds:
  assumes "rep it es i" "i < length es"
  shows "\<exists>it' p. before_saved_key ucmp ops k it = Some it' \<and> rep it' es p
    \<and> (\<exists>q. q = (if p = length es then 0 else p + 1) \<and> q \<le> i
      \<and> (\<forall>j. q \<le> j \<and> j < i \<longrightarrow> \<not> ucmp (user_key (es ! j)) k < 0))"
  using assms
proof (induction i arbitrary: it)
  case 0
  have r: "rep (i_prev ops it) es (length es)" using rep_prev [OF 0] by (simp add: step_back_def)
  then have "before_saved_key ucmp ops k it = Some (i_prev ops it)"
    using rep_valid [OF r] by (subst before_saved_key.simps) (simp add: Let_def)
  then show ?case using r by auto
next
  case (Suc i)
  have r: "rep (i_prev ops it) es i" using rep_prev [OF Suc.prems] by (simp add: step_back_def)
  have i: "i < length es" using Suc.prems(2) by simp
  have v: "i_valid ops (i_prev ops it)" "i_key ops (i_prev ops it) = fst (es ! i)"
    using rep_valid [OF r] rep_key [OF r i] i by simp_all
  show ?case
  proof (cases "ucmp (user_key (es ! i)) k < 0")
    case True
    then have "before_saved_key ucmp ops k it = Some (i_prev ops it)"
      using v by (subst before_saved_key.simps) (simp add: Let_def)
    then show ?thesis using r i by (auto intro!: exI [of _ i])
  next
    case False
    then have "before_saved_key ucmp ops k it = before_saved_key ucmp ops k (i_prev ops it)"
      using v by (subst before_saved_key.simps) (simp add: Let_def)
    moreover obtain it' p q where p: "before_saved_key ucmp ops k (i_prev ops it) = Some it'" "rep it' es p"
      "q = (if p = length es then 0 else p + 1)" "q \<le> i"
      "\<And>j. q \<le> j \<Longrightarrow> j < i \<Longrightarrow> \<not> ucmp (user_key (es ! j)) k < 0" using Suc.IH [OF r i] by blast
    moreover have "\<not> ucmp (user_key (es ! j)) k < 0" if "q \<le> j" "j < Suc i" for j
      using p(5) that False by (cases "j = i") simp_all
    ultimately show ?thesis by (metis le_Suc_eq)
  qed
qed

lemma DBIter_Prev_at:
  assumes h: "healthy es d" and v: "at_entry es v d"
  shows "\<exists>d'. DBIter_Prev ucmp ops period d = Some d' \<and> di_sequence d' = di_sequence d
    \<and> user_at es (step_back (length (user_view (di_sequence d) es)) (rank (di_sequence d) es v)) d'"
proof -
  let ?s = "di_sequence d"
  have srt: "entries_sorted icmp es" using h by (simp add: healthy_def)
  have sv: "shows_entry ?s es v" using v by (simp add: at_entry_def)
  note lv = shows_less [OF sv]
  have found: ?thesis
    if d1: "DBIter_Prev ucmp ops period d = FindPrevUserEntry ucmp ops period d1" "healthy es d1" "\<not> di_forward d1"
      "di_sequence d1 = ?s" and p: "rep (di_iter d1) es p" "q = (if p = length es then 0 else p + 1)"
      and eq: "\<And>j. shows_entry ?s es j \<Longrightarrow> j < q \<longleftrightarrow> j < v" for d1 p q
    using FindPrevUserEntry_finds [OF d1(2,3) p] d1(1,4) rank_cong [of ?s es q v] eq by simp
  show ?thesis
  proof (cases "di_forward d")
    case False
    then obtain p where p: "rep (di_iter d) es p" "before_user ?s es v (if p = length es then 0 else p + 1)"
      using v by (auto simp: at_entry_def)
    show ?thesis
    proof (rule found [OF _ h False refl p(1) refl])
      fix j assume "shows_entry ?s es j"
      then have "seen_by ?s (es ! j)" by (simp add: shows_entry_def)
      then show "j < (if p = length es then 0 else p + 1) \<longleftrightarrow> j < v"
        using p(2) unfolding before_user_def by (meson not_le order_less_le_trans)
    qed (use False in \<open>simp add: DBIter_Prev_def\<close>)
  next
    case True
    then have r: "rep (di_iter d) es v" using v by (simp add: at_entry_def)
    let ?k = "user_key (es ! v)"
    obtain it p q where p: "before_saved_key ucmp ops ?k (di_iter d) = Some it" "rep it es p"
      "q = (if p = length es then 0 else p + 1)" "q \<le> v"
      "\<And>j. q \<le> j \<Longrightarrow> j < v \<Longrightarrow> \<not> ucmp (user_key (es ! j)) ?k < 0"
      using before_saved_key_finds [OF r lv, of ?k] by blast
    have eq: "j < q \<longleftrightarrow> j < v" if sj: "shows_entry ?s es j" for j
      using shows_user_less [OF srt sj sv] p(4) p(5) [of j] by (cases "q \<le> j") auto
    have k: "ExtractUserKey (i_key ops (di_iter d)) = ?k" using rep_key [OF r lv] by simp
    show ?thesis
    proof (cases "p = length es")
      case stop: True
      let ?d = "d\<lparr>di_iter := it, di_valid := False, di_saved_key := [], di_saved_value := []\<rparr>"
      have "\<not> i_valid ops it" using rep_valid [OF p(2)] stop by simp
      then have "DBIter_Prev ucmp ops period d = Some ?d"
        using True p(1) k by (simp add: DBIter_Prev_def Let_def)
      moreover have "rank ?s es v = 0"
        using rank_cong [of ?s es v 0] eq p(3) stop by simp
      moreover have "healthy es ?d" using h p(2) by (auto simp: healthy_def)
      ultimately show ?thesis using user_at_end [of es ?d] by (simp add: step_back_def)
    next
      case False
      let ?d = "d\<lparr>di_saved_key := ?k, di_iter := it, di_forward := False\<rparr>"
      have val: "i_valid ops it" using rep_valid [OF p(2)] rep_bound [OF p(2)] False by simp
      have h1: "healthy es ?d" using h p(2) by (auto simp: healthy_def)
      show ?thesis
      proof (rule found [OF _ h1 _ _ _ p(3) eq])
        show "DBIter_Prev ucmp ops period d = FindPrevUserEntry ucmp ops period ?d"
          using True p(1) k val by (simp add: DBIter_Prev_def Let_def)
      qed (use p(2) in simp_all)
    qed
  qed
qed

lemma seen_after_target:
  assumes "internal_key (fst e)" "s \<le> kMaxSequenceNumber" "seen_by s e"
  shows "icmp (fst e) (InternalKey target s kValueTypeForSeek) < 0 \<longleftrightarrow> ucmp (user_key e) target < 0"
proof -
  obtain u n t where e: "fst e = InternalKey u n t" "n \<le> kMaxSequenceNumber" using assms(1) by (auto simp: internal_key_def)
  have "n \<le> s" using assms(3) e by (simp add: seen_by_def Pack_drop)
  then have "PackSequenceAndType n t \<le> PackSequenceAndType s kValueTypeForSeek" by (rule Pack_le_seek [OF _ assms(2)])
  then show ?thesis using e by (auto simp: InternalKeyComparator_Compare_eq Let_def not_less)
qed

lemma DBIter_Seek_at:
  assumes h: "healthy es d" and s: "di_sequence d \<le> kMaxSequenceNumber"
  shows "\<exists>d'. DBIter_Seek ucmp ops period target d = Some d' \<and> di_sequence d' = di_sequence d
    \<and> user_at es (lower_bound ucmp target (user_view (di_sequence d) es)) d'"
proof -
  let ?s = "di_sequence d" and ?view = "user_view (di_sequence d) es"
  let ?k = "InternalKey target ?s kValueTypeForSeek"
  let ?i = "lower_bound icmp ?k es"
  obtain p where p: "rep (di_iter d) es p" using h by (auto simp: healthy_def)
  have srt: "entries_sorted icmp es" using h by (simp add: healthy_def)
  have key: "internal_key (fst (es ! j))" if "j < length es" for j using h that by (simp add: healthy_def)
  define d1 where "d1 = d\<lparr>di_forward := True, di_saved_value := [], di_saved_key := ?k, di_iter := i_seek ops ?k (di_iter d)\<rparr>"
  have seek: "DBIter_Seek ucmp ops period target d = (if i_valid ops (di_iter d1)
      then FindNextUserEntry ucmp ops period False d1 else Some (d1\<lparr>di_valid := False\<rparr>))"
    by (simp add: DBIter_Seek_def d1_def Let_def InternalKey_def)
  have r: "rep (di_iter d1) es ?i" using rep_seek [OF p, of ?k] by (simp add: d1_def)
  have h1: "healthy es d1" using h r by (auto simp: healthy_def d1_def)
  have f: "di_sequence d1 = ?s" "di_forward d1" by (simp_all add: d1_def)
  have at: "j < ?i \<longleftrightarrow> icmp (fst (es ! j)) ?k < 0" if "j < length es" for j
    unfolding lower_bound_cut using cut_nth [OF srt down_less that] by simp
  have seen: "j < ?i \<longleftrightarrow> ucmp (user_key (es ! j)) target < 0" if "j < length es" "seen_by ?s (es ! j)" for j
    using at [OF that(1)] seen_after_target [OF key [OF that(1)] s that(2)] by simp
  have "rank ?s es ?i = lower_bound ucmp target ?view"
    unfolding lower_bound_cut [of ucmp]
  proof (rule bound_unique [of "length ?view"])
    fix a assume "a < length ?view"
    then obtain v where v: "shows_entry ?s es v" "rank ?s es v = a" by (rule user_view_nth)
    have "a < cut_pos (\<lambda>a. ucmp a target < 0) ?view \<longleftrightarrow> ucmp (fst (?view ! a)) target < 0"
      using bytewise_order.cut_nth [OF user_view_sorted [OF srt] bytewise_order.down_less, of a] rank_nth(1) [OF v(1)] v(2)
      by simp
    also have "\<dots> \<longleftrightarrow> v < ?i" using seen [OF shows_less [OF v(1)]] v rank_nth(2) [OF v(1)] by (simp add: shows_entry_def)
    finally show "a < rank ?s es ?i \<longleftrightarrow> a < cut_pos (\<lambda>a. ucmp a target < 0) ?view"
      using rank_less [OF v(1), of ?i] v(2) by simp
  next
    show "rank ?s es ?i \<le> length ?view"
      unfolding length_user_view using rank_mono [OF rep_bound [OF r]] .
  qed (rule cut_le)
  note rank = this
  show ?thesis
  proof (cases "?i < length es")
    case True
    have "\<exists>d'. FindNextUserEntry ucmp ops period False d1 = Some d' \<and> di_sequence d' = di_sequence d1
        \<and> user_at es (rank (di_sequence d1) es ?i) d'"
    proof (rule FindNextUserEntry_finds [OF h1 r True f(2)], unfold f(1))
      fix j j' assume j: "?i \<le> j" "j < length es" "j' < ?i" "user_key (es ! j') = user_key (es ! j)" "seen_by ?s (es ! j')"
      have "ucmp (user_key (es ! j)) target < 0" using seen [of j'] j True by simp
      then have "icmp (fst (es ! j)) ?k < 0" by (intro icmp_user_less) simp
      then have False using at [OF j(2)] j(1) by simp
      then show "False \<and> ucmp (user_key (es ! j)) (di_saved_key d1) \<le> 0" ..
    qed simp_all
    then show ?thesis using seek rep_valid [OF r] True f(1) rank by simp
  next
    case False
    then have "?i = length es" using rep_bound [OF r] by simp
    moreover have "healthy es (d1\<lparr>di_valid := False\<rparr>)" using h1 by (simp add: healthy_def)
    ultimately show ?thesis using seek rep_valid [OF r] f(1) rank user_at_end [of es "d1\<lparr>di_valid := False\<rparr>"]
      by (simp add: length_user_view)
  qed
qed

lemma user_at_cases:
  assumes "user_at es a d"
  shows "healthy es d" "di_valid d \<longleftrightarrow> a < length (user_view (di_sequence d) es)"
    "a < length (user_view (di_sequence d) es) \<Longrightarrow> \<exists>v. at_entry es v d \<and> rank (di_sequence d) es v = a"
  using assms unfolding user_at_def at_entry_def by (auto split: if_splits)

lemma dbiter_iterator: "sorted_iterator ucmp (DBIter_ops ucmp ops period) dbiter_rep"
proof unfold_locales
  fix x view a assume "dbiter_rep x view a"
  then obtain d es where x: "x = Some d" "view = user_view (di_sequence d) es" and s: "di_sequence d \<le> kMaxSequenceNumber"
    and at: "user_at es a d" by (auto simp: dbiter_rep_def)
  note c = user_at_cases [OF at]
  have srt: "entries_sorted icmp es" using c(1) by (simp add: healthy_def)
  show "entries_sorted ucmp view" using user_view_sorted [OF srt] x(2) by simp
  show "a \<le> length view" using at x(2) by (simp add: user_at_def)
  show "i_valid (DBIter_ops ucmp ops period) x \<longleftrightarrow> a < length view" using c(2) x by (simp add: DBIter_ops_def)
  show "i_status (DBIter_ops ucmp ops period) x = Status_OK"
    using c(1) x(1) rep_status by (auto simp: DBIter_ops_def DBIter_status_def healthy_def ok_def)
  show "dbiter_rep (i_seek_first (DBIter_ops ucmp ops period) x) view 0"
    using dbiter_rep_moved [where f = "DBIter_SeekToFirst ucmp ops period" and d = d, OF DBIter_SeekToFirst_at [OF c(1)] s] x by (simp add: DBIter_ops_def)
  show "dbiter_rep (i_seek_last (DBIter_ops ucmp ops period) x) view (step_back (length view) (length view))"
    using dbiter_rep_moved [where f = "DBIter_SeekToLast ucmp ops period" and d = d, OF DBIter_SeekToLast_at [OF c(1)] s] x by (simp add: DBIter_ops_def)
  show "dbiter_rep (i_seek (DBIter_ops ucmp ops period) target x) view (lower_bound ucmp target view)" for target
    using dbiter_rep_moved [where f = "DBIter_Seek ucmp ops period target" and d = d, OF DBIter_Seek_at [OF c(1) s] s] x by (simp add: DBIter_ops_def)
  assume lt: "a < length view"
  then obtain v where v: "at_entry es v d" "rank (di_sequence d) es v = a" using c(3) x(2) by auto
  have sv: "shows_entry (di_sequence d) es v" using v(1) by (simp add: at_entry_def)
  show "i_key (DBIter_ops ucmp ops period) x = fst (view ! a)" "i_value (DBIter_ops ucmp ops period) x = snd (view ! a)"
    using forward_key_value [OF c(1) v(1)] rank_nth(2) [OF sv] v(2) x by (simp_all add: DBIter_ops_def)
  show "dbiter_rep (i_next (DBIter_ops ucmp ops period) x) view (a + 1)"
    using dbiter_rep_moved [where f = "DBIter_Next ucmp ops period" and d = d, OF DBIter_Next_at [OF c(1) v(1)] s] x v(2) by (simp add: DBIter_ops_def)
  show "dbiter_rep (i_prev (DBIter_ops ucmp ops period) x) view (step_back (length view) a)"
    using dbiter_rep_moved [where f = "DBIter_Prev ucmp ops period" and d = d, OF DBIter_Prev_at [OF c(1) v(1)] s] x v(2) by (simp add: DBIter_ops_def)
qed

lemma dbiter_new:
  assumes "rep it es i" "\<And>e. e \<in> set es \<Longrightarrow> internal_key (fst e)" "s \<le> kMaxSequenceNumber"
  shows "dbiter_rep (Some (DBIter_new period it s seed)) (user_view s es) (length (user_view s es))"
proof -
  let ?d = "DBIter_new period it s seed"
  have f: "di_sequence ?d = s" "di_iter ?d = it" "di_status ?d = Status_OK" "\<not> di_valid ?d"
    "di_rnd ?d = Random_Next (Random_new seed)"
    by (simp_all add: DBIter_new_def RandomCompactionPeriod_def Random_Uniform_def Let_def)
  have "healthy es ?d"
    unfolding healthy_def f using assms(1,2) rep_sorted [OF assms(1)] good_seed_Next [OF good_seed_new] by blast
  from user_at_end [OF this f(4)] show ?thesis using f(1) assms(3) unfolding dbiter_rep_def by auto
qed

end

text \<open>The iterator over a table of the store, with the default sampling period.\<close>

interpretation table_view: internal_iterator
    "TwoLevel_ops (AnyBlockIter_ops icmp) (AnyBlockIter_ops icmp) (plain_reader crc cs t options)"
    "table.tl_rep crc cs t options" 2097152 for crc cs t options
  by unfold_locales simp_all

text \<open>
  What the view is, stated without positions: a user key has the value \<open>x\<close> in it
  when \<open>x\<close> is the value of the newest entry of the key that \<open>s\<close> sees.
\<close>

lemma user_view_member:
  "(u, x) \<in> set (user_view s es) \<longleftrightarrow> (\<exists>i. shows_entry s es i \<and> u = user_key (es ! i) \<and> x = snd (es ! i))"
  unfolding user_view_def by (auto dest: shows_less)


definition demo_versions :: entries where
  "demo_versions = [(InternalKey [1] 5 kTypeValue, [50]), (InternalKey [1] 3 kTypeValue, [30]),
     (InternalKey [2] 6 kTypeDeletion, []), (InternalKey [2] 2 kTypeValue, [20]),
     (InternalKey [3] 9 kTypeValue, [90]), (InternalKey [3] 1 kTypeValue, [10])]"


end
