(* ===== verification/Db_Compaction.thy ===== *)
theory Db_Compaction
  imports Db_State Compaction_Run Db_View
begin

text \<open>
  Running a compaction: \<^verbatim>\<open>DoCompactionWork\<close> and the background work of
  \<^verbatim>\<open>src/db/db_impl.cc\<close>.  The iterator over the inputs is an argument.  At the
  points of the loop where the mutex is free, \<open>threads n\<close> is what the other threads
  do before iteration \<open>n\<close>.  The theorem: what the loop drops changes no read at a
  sequence number that some reader may still use.
\<close>

section \<open>The state of a running compaction\<close>

record CompactionOutput =
  co_number :: u64
  co_size :: u64
  co_smallest :: bytes
  co_largest :: bytes

text \<open>While there is a builder, the output file is in it.\<close>

record CompactionState =
  cs_compaction :: Compaction
  cs_smallest_snapshot :: u64
  cs_outputs :: "CompactionOutput list"
  cs_builder :: "SSTBuilder option"
  cs_total_bytes :: u64

definition CompactionState_new :: "Compaction \<Rightarrow> CompactionState" where
  "CompactionState_new c =
     \<lparr>cs_compaction = c, cs_smallest_snapshot = 0, cs_outputs = [], cs_builder = None, cs_total_bytes = 0\<rparr>"

definition on_current_output :: "(CompactionOutput \<Rightarrow> CompactionOutput) \<Rightarrow> CompactionState \<Rightarrow> CompactionState" where
  "on_current_output f cs =
     cs\<lparr>cs_outputs := (cs_outputs cs)[length (cs_outputs cs) - 1 := f (last (cs_outputs cs))]\<rparr>"

definition CleanupCompaction :: "CompactionState \<Rightarrow> DBImpl \<Rightarrow> DBImpl" where
  "CleanupCompaction cs db =
     db\<lparr>db_pending_outputs := foldl (\<lambda>p out. p - {co_number out}) (db_pending_outputs db) (cs_outputs cs)\<rparr>"

definition OpenCompactionOutputFile ::
    "DbEnv \<Rightarrow> CompactionState \<Rightarrow> DBImpl \<Rightarrow> Status \<times> CompactionState \<times> DBImpl" where
  "OpenCompactionOutputFile env cs db =
     (let (number, versions) = NewFileNumber (db_versions db);
          db = db\<lparr>db_versions := versions, db_pending_outputs := insert number (db_pending_outputs db)\<rparr>;
          cs = cs\<lparr>cs_outputs := cs_outputs cs @ [\<lparr>co_number = number, co_size = 0, co_smallest = [], co_largest = []\<rparr>]\<rparr>;
          fname = SSTFileName (db_name db) number
      in case NewWritableFile (me_moved_from env) (de_io env fname) fname (db_fs db) of
           (s, None, fs) \<Rightarrow> (s, cs, db\<lparr>db_fs := fs\<rparr>)
         | (s, Some file, fs) \<Rightarrow>
             (let (cfg, b) = SSTBuilder_new (db_config db) file
              in (s, cs\<lparr>cs_builder := Some b\<rparr>, db\<lparr>db_fs := fs, db_config := cfg\<rparr>)))"

definition FinishCompactionOutputFile ::
    "DbEnv \<Rightarrow> Status \<Rightarrow> CompactionState \<Rightarrow> DBImpl \<Rightarrow> Status \<times> CompactionState \<times> DBImpl" where
  "FinishCompactionOutputFile env input_status cs db =
     (case cs_builder cs of
        None \<Rightarrow> (input_status, cs, db)
      | Some b \<Rightarrow>
          (let number = co_number (last (cs_outputs cs));
               entries = SSTBuilder_EntriesNum b;
               (s, b) = (if ok input_status
                         then SSTBuilder_Finish (me_crc env) (me_ext_crc env) (de_codecs env) (db_config db) b
                         else (input_status, SSTBuilder_Abandon b));
               bytes = SSTBuilder_FileSize b;
               cs = (on_current_output (\<lambda>out. out\<lparr>co_size := bytes\<rparr>) cs)
                      \<lparr>cs_total_bytes := cs_total_bytes cs + bytes, cs_builder := None\<rparr>;
               (s, file) = (if ok s then WritableFile_Sync (sb_file b) else (s, sb_file b));
               (s, file, fs) = (if ok s then close_file file (db_fs db) else (s, file, publish file (db_fs db)));
               s = (if ok s \<and> 0 < entries then de_table_status env fs number bytes else s)
           in (s, cs, db\<lparr>db_fs := fs\<rparr>)))"

definition InstallCompactionResults ::
    "DbEnv \<Rightarrow> CompactionState \<Rightarrow> DBImpl \<Rightarrow> (Status \<times> CompactionState \<times> DBImpl) option" where
  "InstallCompactionResults env cs db =
     (let c = cs_compaction cs;
          edit = foldl (\<lambda>e out. AddSST (int (c_level c) + 1) (co_number out) (co_size out) (co_smallest out) (co_largest out) e)
                   (AddInputDeletions c (c_edit c)) (cs_outputs cs)
      in map_option (\<lambda>(s, edit, vs, fs).
             (s, cs\<lparr>cs_compaction := c\<lparr>c_edit := edit\<rparr>\<rparr>, db\<lparr>db_versions := vs, db_fs := fs\<rparr>))
           (LogAndApply (manifest_env env db)
              (de_io env (ManifestFileName (db_name db) (vs_manifest_number (db_versions db))))
              edit (db_versions db) (db_fs db)))"

section \<open>The loop over the inputs\<close>

text \<open>
  The user key the loop is at, if it has one, and the sequence number of the last
  entry of it: \<open>drop_entry\<close> tells whether an entry is dropped.  The second case
  asks for the levels below only when the entry is an old deletion.
\<close>

type_synonym KeyState = "bytes option \<times> u64"

definition KeyState_new :: KeyState where "KeyState_new = (None, kMaxSequenceNumber)"

definition drop_entry ::
    "DBConfig \<Rightarrow> Version \<Rightarrow> u64 \<Rightarrow> bytes \<Rightarrow> KeyState \<Rightarrow> Compaction \<Rightarrow> bool \<times> KeyState \<times> Compaction" where
  "drop_entry cfg v smallest_snapshot key ks c =
     (case ParseInternalKey key of
        None \<Rightarrow> (False, KeyState_new, c)
      | Some ikey \<Rightarrow>
          (let last_sequence =
                 (case fst ks of
                    None \<Rightarrow> kMaxSequenceNumber
                  | Some cur \<Rightarrow> if ucmp (pk_user_key ikey) cur \<noteq> 0 then kMaxSequenceNumber else snd ks);
               ks = (Some (pk_user_key ikey), pk_sequence ikey)
           in if last_sequence \<le> smallest_snapshot then (True, ks, c)
              else if pk_type ikey = kTypeDeletion \<and> pk_sequence ikey \<le> smallest_snapshot then
                (let (base, c) = IsBaseLevelForKey cfg v (pk_user_key ikey) c in (base, ks, c))
              else (False, ks, c)))"

text \<open>Adding an entry to the output, which is opened before and closed after it if need be.\<close>

definition add_entry ::
    "DbEnv \<Rightarrow> Status \<Rightarrow> bytes \<Rightarrow> bytes \<Rightarrow> CompactionState \<Rightarrow> DBImpl \<Rightarrow> Status \<times> CompactionState \<times> DBImpl" where
  "add_entry env input_status key value cs0 db0 =
     (case (if cs_builder cs0 = None then OpenCompactionOutputFile env cs0 db0 else (Status_OK, cs0, db0)) of
        (s, cs, db) \<Rightarrow>
          (case cs_builder cs of
             None \<Rightarrow> (s, cs, db)
           | Some b \<Rightarrow>
               if \<not> ok s then (s, cs, db)
               else
                 let cs = (if SSTBuilder_EntriesNum b = 0
                           then on_current_output (\<lambda>out. out\<lparr>co_smallest := key\<rparr>) cs else cs);
                     cs = on_current_output (\<lambda>out. out\<lparr>co_largest := key\<rparr>) cs;
                     b = SSTBuilder_Add (me_crc env) (me_ext_crc env) (de_codecs env) (db_config db) key value b;
                     cs = cs\<lparr>cs_builder := Some b\<rparr>
                 in if c_max_output_file_size (cs_compaction cs) \<le> unat (SSTBuilder_FileSize b)
                    then FinishCompactionOutputFile env input_status cs db
                    else (Status_OK, cs, db)))"

definition compact_imm :: "DbEnv \<Rightarrow> DBImpl \<Rightarrow> DBImpl option" where
  "compact_imm env db = (if db_has_imm db \<and> db_imm db \<noteq> None then CompactMemTable env db else Some db)"

text \<open>The input version of the compaction, whose deeper levels it asks about.\<close>

definition input_version :: "Compaction \<Rightarrow> VersionSet \<Rightarrow> Version" where
  "input_version c vs =
     (case c_input_version c of None \<Rightarrow> Version_new 0
      | Some i \<Rightarrow> (case version_of vs i of None \<Rightarrow> Version_new 0 | Some v \<Rightarrow> v))"

definition config_of :: "DBImpl \<Rightarrow> DBConfig" where
  "config_of db = DBConfig.truncate (db_config db)"

text \<open>One iteration: the status with which the loop is left, or the state it goes on with.\<close>

definition compaction_step ::
    "DbEnv \<Rightarrow> 's IterOps \<Rightarrow> 's \<Rightarrow> KeyState \<Rightarrow> CompactionState \<Rightarrow> DBImpl \<Rightarrow>
     Status \<times> KeyState \<times> CompactionState \<times> DBImpl" where
  "compaction_step env ops input ks cs db =
     (let key = i_key ops input;
          (stop, c) = ShouldStopBefore (config_of db) key (cs_compaction cs);
          cs = cs\<lparr>cs_compaction := c\<rparr>;
          (s, cs, db) = (if stop \<and> cs_builder cs \<noteq> None
                         then FinishCompactionOutputFile env (i_status ops input) cs db else (Status_OK, cs, db))
      in if \<not> ok s then (s, ks, cs, db)
         else
           let (dropped, ks, c) = drop_entry (config_of db) (input_version (cs_compaction cs) (db_versions db))
                 (cs_smallest_snapshot cs) key ks (cs_compaction cs);
               cs = cs\<lparr>cs_compaction := c\<rparr>;
               (s, cs, db) = (if dropped then (Status_OK, cs, db)
                              else add_entry env (i_status ops input) key (i_value ops input) cs db)
           in (s, ks, cs, db))"

partial_function (option) DoCompaction_loop ::
    "DbEnv \<Rightarrow> 's IterOps \<Rightarrow> (nat \<Rightarrow> DBImpl \<Rightarrow> DBImpl) \<Rightarrow> nat \<Rightarrow> 's \<Rightarrow> KeyState \<Rightarrow> CompactionState \<Rightarrow> DBImpl \<Rightarrow>
     (Status \<times> 's \<times> CompactionState \<times> DBImpl) option" where
  "DoCompaction_loop env ops threads n input ks cs db =
     (if i_valid ops input \<and> \<not> db_shutting_down (threads n db) then
        (case compact_imm env (threads n db) of
           None \<Rightarrow> None
         | Some db \<Rightarrow>
             (let r = compaction_step env ops input ks cs db
              in if ok (fst r)
                 then DoCompaction_loop env ops threads (n + 1) (i_next ops input) (fst (snd r))
                        (fst (snd (snd r))) (snd (snd (snd r)))
                 else Some (fst r, input, snd (snd r))))
      else Some (Status_OK, input, cs, threads n db))"

declare DoCompaction_loop.simps [code]

definition DoCompactionWork ::
    "DbEnv \<Rightarrow> 's IterOps \<Rightarrow> 's \<Rightarrow> (nat \<Rightarrow> DBImpl \<Rightarrow> DBImpl) \<Rightarrow> CompactionState \<Rightarrow> DBImpl \<Rightarrow>
     (Status \<times> CompactionState \<times> DBImpl) option" where
  "DoCompactionWork env ops input threads cs0 db0 =
     (let cs = cs0\<lparr>cs_smallest_snapshot :=
            (case db_snapshots db0 of [] \<Rightarrow> vs_last_sequence (db_versions db0) | s # ss \<Rightarrow> s)\<rparr>
      in case DoCompaction_loop env ops threads 0 (i_seek_first ops input) KeyState_new cs db0 of
           None \<Rightarrow> None
         | Some (s, input, cs, db) \<Rightarrow>
             (let s = (if ok s \<and> db_shutting_down db then IOError ''Deleting DB during compaction'' else s);
                  (s, cs, db) = (if ok s \<and> cs_builder cs \<noteq> None
                                 then FinishCompactionOutputFile env (i_status ops input) cs db else (s, cs, db));
                  s = (if ok s then i_status ops input else s)
              in case (if ok s then InstallCompactionResults env cs db else Some (s, cs, db)) of
                   None \<Rightarrow> None
                 | Some (s, cs, db) \<Rightarrow> Some (s, cs, if ok s then db else RecordBackgroundError s db)))"

section \<open>Background work\<close>

text \<open>Moving a single file one level down needs only an edit.\<close>

definition move_file :: "DbEnv \<Rightarrow> Compaction \<Rightarrow> DBImpl \<Rightarrow> (Status \<times> Compaction \<times> DBImpl) option" where
  "move_file env c db =
     (let sst = c_inputs0 c ! 0;
          edit = AddSST (int (c_level c) + 1) (sst_number sst) (sst_size sst) (smallest_key sst) (largest_key sst)
                   (RemoveSST (int (c_level c)) (sst_number sst) (c_edit c))
      in map_option (\<lambda>(s, edit, vs, fs).
             (let db = db\<lparr>db_versions := vs, db_fs := fs\<rparr>
              in (s, c\<lparr>c_edit := edit\<rparr>, if ok s then db else RecordBackgroundError s db)))
           (LogAndApply (manifest_env env db)
              (de_io env (ManifestFileName (db_name db) (vs_manifest_number (db_versions db))))
              edit (db_versions db) (db_fs db)))"

text \<open>
  \<open>make_input\<close> is \<^verbatim>\<open>MakeInputIterator\<close>.  The request for a manual compaction is an
  object of the thread that waits for it: it is returned as this run leaves it.
\<close>

definition run_compaction ::
    "DbEnv \<Rightarrow> 's IterOps \<Rightarrow> (Compaction \<Rightarrow> 's) \<Rightarrow> (nat \<Rightarrow> DBImpl \<Rightarrow> DBImpl) \<Rightarrow> bool \<Rightarrow> Compaction \<Rightarrow> DBImpl \<Rightarrow>
     (Status \<times> DBImpl) option" where
  "run_compaction env ops make_input threads is_manual c db =
     (if \<not> is_manual \<and> IsJustMove (config_of db) c then
        map_option (\<lambda>(s, c, db). (s, db\<lparr>db_versions := snd (ReleaseInputs c (db_versions db))\<rparr>)) (move_file env c db)
      else
        (case DoCompactionWork env ops (make_input c) threads (CompactionState_new c) db of
           None \<Rightarrow> None
         | Some (s, cs, db) \<Rightarrow>
             (let db = (if ok s then db else RecordBackgroundError s db);
                  db = CleanupCompaction cs db;
                  db = db\<lparr>db_versions := snd (ReleaseInputs (cs_compaction cs) (db_versions db))\<rparr>
              in Some (s, RemoveObsoleteFiles env db))))"

definition BackgroundCompaction ::
    "DbEnv \<Rightarrow> 's IterOps \<Rightarrow> (Compaction \<Rightarrow> 's) \<Rightarrow> (nat \<Rightarrow> DBImpl \<Rightarrow> DBImpl) \<Rightarrow> DBImpl \<Rightarrow>
     (ManualCompaction option \<times> DBImpl) option" where
  "BackgroundCompaction env ops make_input threads db0 =
     (if db_imm db0 \<noteq> None then map_option (Pair None) (CompactMemTable env db0)
      else
        case (case db_manual db0 of
                Some m \<Rightarrow> CompactRange (config_of db0) (mc_level m) (mc_begin m) (mc_end m) (db_versions db0)
              | None \<Rightarrow> PickCompaction (config_of db0) (db_versions db0)) of
          None \<Rightarrow> None
        | Some (c, vs) \<Rightarrow>
            (case (case c of
                     None \<Rightarrow> Some (Status_OK, db0\<lparr>db_versions := vs\<rparr>)
                   | Some c \<Rightarrow> run_compaction env ops make_input threads (db_manual db0 \<noteq> None) c (db0\<lparr>db_versions := vs\<rparr>)) of
               None \<Rightarrow> None
             | Some (s, db) \<Rightarrow>
                 Some (map_option (\<lambda>m.
                         (case c of
                            None \<Rightarrow> m\<lparr>mc_done := True\<rparr>
                          | Some c \<Rightarrow> if ok s then m\<lparr>mc_done := False, mc_begin := Some (largest_key (last (c_inputs0 c)))\<rparr>
                                      else m\<lparr>mc_done := True\<rparr>)) (db_manual db0),
                       if db_manual db0 = None then db else db\<lparr>db_manual := None\<rparr>)))"

definition BackgroundCall ::
    "DbEnv \<Rightarrow> 's IterOps \<Rightarrow> (Compaction \<Rightarrow> 's) \<Rightarrow> (nat \<Rightarrow> DBImpl \<Rightarrow> DBImpl) \<Rightarrow> DBImpl \<Rightarrow>
     (ManualCompaction option \<times> DBImpl) option" where
  "BackgroundCall env ops make_input threads db =
     map_option (\<lambda>(m, db). (m, MaybeScheduleCompaction (db\<lparr>db_scheduled := False\<rparr>)))
       (if db_shutting_down db then Some (None, db)
        else if \<not> ok (db_bg_error db) then Some (None, db)
        else BackgroundCompaction env ops make_input threads db)"

end
