(* ===== verification/Db_Drop.thy ===== *)
theory Db_Drop
  imports Db_Compaction
begin

text \<open>
  What the loop of a compaction drops.  \<open>kept\<close> are the entries of the inputs the
  loop adds to its output; a read at a sequence number no older than the smallest
  snapshot finds in them, and in the levels below, what it finds in the inputs
  and the levels below.
\<close>

section \<open>The entries that are kept\<close>

fun kept :: "DBConfig \<Rightarrow> Version \<Rightarrow> u64 \<Rightarrow> entries \<Rightarrow> KeyState \<Rightarrow> Compaction \<Rightarrow> entries" where
  "kept cfg v snap [] ks c = []"
| "kept cfg v snap (e # es) ks c =
     (case drop_entry cfg v snap (fst e) ks c of
        (dropped, ks', c') \<Rightarrow> (if dropped then kept cfg v snap es ks' c' else e # kept cfg v snap es ks' c'))"

text \<open>
  A read walks the entries from the newest data to the oldest and stops at the
  first entry of the user key it sees: a value, or a deletion.
\<close>

fun read_at :: "u64 \<Rightarrow> bytes \<Rightarrow> entries \<Rightarrow> bytes option" where
  "read_at s u [] = None"
| "read_at s u (e # es) =
     (if user_key e = u \<and> seen_by s e then (if is_value e then Some (snd e) else None) else read_at s u es)"

lemma read_at_none: "(\<And>e. e \<in> set es \<Longrightarrow> user_key e \<noteq> u) \<Longrightarrow> read_at s u es = None"
  by (induction es) auto

lemma kept_subset: "set (kept cfg v snap es ks c) \<subseteq> set es"
  by (induction es arbitrary: ks c) (auto split: prod.splits)

lemma kept_sorted: "entries_sorted icmp es \<Longrightarrow> entries_sorted icmp (kept cfg v snap es ks c)"
proof (induction es arbitrary: ks c)
  case (Cons e es)
  obtain d ks' c' where d: "drop_entry cfg v snap (fst e) ks c = (d, ks', c')" by (rule prod_cases3)
  have "entries_sorted icmp (kept cfg v snap es ks' c')" using Cons by (simp add: entries_sorted_def)
  moreover have "\<forall>x\<in>set (kept cfg v snap es ks' c'). icmp (fst e) (fst x) < 0"
    using Cons.prems kept_subset [of cfg v snap es ks' c'] by (auto simp: entries_sorted_def)
  ultimately show ?case using d by (simp add: entries_sorted_def)
qed (simp add: entries_sorted_def)

section \<open>One entry\<close>

definition sequence_of :: "bytes \<times> bytes \<Rightarrow> u64" where
  "sequence_of e = drop_bit 8 (ExtractTag (fst e))"

lemma seen_sequence: "seen_by s e \<longleftrightarrow> sequence_of e \<le> s"
  by (simp add: seen_by_def sequence_of_def)

definition last_sequence :: "bytes \<Rightarrow> KeyState \<Rightarrow> u64" where
  "last_sequence u ks = (if fst ks = Some u then snd ks else kMaxSequenceNumber)"

lemma drop_entry_internal:
  assumes "internal_key (fst e)"
  shows "drop_entry cfg v snap (fst e) ks c =
    (let ks' = (Some (user_key e), sequence_of e)
     in if last_sequence (user_key e) ks \<le> snap then (True, ks', c)
        else if \<not> is_value e \<and> sequence_of e \<le> snap
        then (let (base, c) = IsBaseLevelForKey cfg v (user_key e) c in (base, ks', c))
        else (False, ks', c))"
proof -
  obtain u s t where k: "s \<le> kMaxSequenceNumber" "fst e = InternalKey u s t" using assms by (auto simp: internal_key_def)
  obtain o' q where ks: "ks = (o', q)" by (rule prod.exhaust)
  show ?thesis
    using k by (cases o'; cases t)
      (simp_all add: drop_entry_def is_value_def sequence_of_def Pack_drop Pack_type Let_def ks last_sequence_def)
qed

text \<open>The positions \<^verbatim>\<open>IsBaseLevelForKey\<close> keeps are right for the keys still to come.\<close>

definition base_ready :: "DBConfig \<Rightarrow> Version \<Rightarrow> entries \<Rightarrow> Compaction \<Rightarrow> bool" where
  "base_ready cfg v es c \<longleftrightarrow>
     (\<forall>e\<in>set es. ptrs_ok (user_key e) (c_level c + 2) (num_levels cfg) v (c_level_ptrs c))"

definition held_below :: "DBConfig \<Rightarrow> Version \<Rightarrow> nat \<Rightarrow> bytes \<Rightarrow> bool" where
  "held_below cfg v level u \<longleftrightarrow>
     (\<exists>l f. level + 2 \<le> l \<and> l < num_levels cfg \<and> f \<in> set (v_ssts v ! l) \<and> may_hold f u)"

lemma user_keys_mono:
  assumes "entries_sorted icmp (e # es)" "x \<in> set es"
  shows "ucmp (user_key e) (user_key x) \<le> 0"
  using assms by (intro icmp_user_le) (simp add: entries_sorted_def less_imp_le)

lemma IsBaseLevelForKey_ready:
  assumes "levels_ok (num_levels cfg) v" "base_ready cfg v (e # es) c" "entries_sorted icmp (e # es)"
    and "IsBaseLevelForKey cfg v (user_key e) c = (base, c')"
  shows "base \<longleftrightarrow> \<not> held_below cfg v (c_level c) (user_key e)" "c_level c' = c_level c" "base_ready cfg v es c'"
proof -
  obtain ptrs where r: "IsBaseLevel_loop (user_key e) (v_ssts v) [c_level c + 2..<num_levels cfg] (c_level_ptrs c) = (base, ptrs)"
    and c': "c' = c\<lparr>c_level_ptrs := ptrs\<rparr>"
    using assms(4) unfolding IsBaseLevelForKey_def by (auto simp: Let_def split: prod.splits)
  have p: "ptrs_ok (user_key e) (c_level c + 2) (num_levels cfg) v (c_level_ptrs c)"
    using assms(2) by (simp add: base_ready_def)
  note res = IsBaseLevel_loop_result [OF assms(1) _ _ p r]
  show "base \<longleftrightarrow> \<not> held_below cfg v (c_level c) (user_key e)" using res by (auto simp: held_below_def)
  show "c_level c' = c_level c" using c' by simp
  show "base_ready cfg v es c'"
    unfolding base_ready_def
  proof
    fix x assume "x \<in> set es"
    then have "ucmp (user_key e) (user_key x) \<le> 0" using user_keys_mono [OF assms(3)] by blast
    then show "ptrs_ok (user_key x) (c_level c' + 2) (num_levels cfg) v (c_level_ptrs c')"
      using res c' ptrs_ok_mono by auto
  qed
qed

lemma drop_entry_result:
  assumes "levels_ok (num_levels cfg) v" "base_ready cfg v (e # es) c" "entries_sorted icmp (e # es)"
    and "internal_key (fst e)" "drop_entry cfg v snap (fst e) ks c = (d, ks', c')"
  shows "ks' = (Some (user_key e), sequence_of e)" "c_level c' = c_level c" "base_ready cfg v es c'"
    "d \<longleftrightarrow> last_sequence (user_key e) ks \<le> snap
       \<or> \<not> is_value e \<and> sequence_of e \<le> snap \<and> \<not> held_below cfg v (c_level c) (user_key e)"
proof -
  obtain base c1 where b: "IsBaseLevelForKey cfg v (user_key e) c = (base, c1)" by (rule prod.exhaust)
  note r = IsBaseLevelForKey_ready [OF assms(1-3) b]
  have tl: "base_ready cfg v es c" using assms(2) by (simp add: base_ready_def)
  have "(d, ks', c') = (let ks' = (Some (user_key e), sequence_of e)
     in if last_sequence (user_key e) ks \<le> snap then (True, ks', c)
        else if \<not> is_value e \<and> sequence_of e \<le> snap then (base, ks', c1) else (False, ks', c))"
    using drop_entry_internal [OF assms(4), of cfg v snap ks c] assms(5) unfolding Let_def b by simp
  then show "ks' = (Some (user_key e), sequence_of e)" "c_level c' = c_level c" "base_ready cfg v es c'"
    "d \<longleftrightarrow> last_sequence (user_key e) ks \<le> snap
       \<or> \<not> is_value e \<and> sequence_of e \<le> snap \<and> \<not> held_below cfg v (c_level c) (user_key e)"
    using r tl by (auto simp: Let_def split: if_splits)
qed

section \<open>Reads are the same\<close>

lemma same_user_sequence:
  assumes "entries_sorted icmp (e # es)" "x \<in> set es" "user_key x = user_key e"
  shows "sequence_of x \<le> sequence_of e"
proof -
  have "icmp (fst e) (fst x) < 0" using assms(1,2) by (simp add: entries_sorted_def)
  then have "ExtractTag (fst x) < ExtractTag (fst e)"
    using assms(3) by (auto simp: InternalKeyComparator_Compare_eq Let_def split: if_splits)
  then have "unat (ExtractTag (fst x)) div 2 ^ 8 \<le> unat (ExtractTag (fst e)) div 2 ^ 8"
    by (intro div_le_mono) (simp add: word_less_nat_alt)
  then show ?thesis by (simp only: sequence_of_def word_le_nat_alt unat_drop_bit_div)
qed

text \<open>Once an entry of the user key that the oldest reader sees was met, the rest of the key goes.\<close>

lemma kept_none:
  assumes "levels_ok (num_levels cfg) v" "base_ready cfg v es c" "entries_sorted icmp es"
    and "\<forall>e\<in>set es. internal_key (fst e)"
    and "\<forall>e\<in>set es. ucmp u (user_key e) \<le> 0" "last_sequence u ks \<le> snap"
    and "\<forall>e\<in>set es. user_key e = u \<longrightarrow> sequence_of e \<le> last_sequence u ks"
  shows "\<forall>e\<in>set (kept cfg v snap es ks c). user_key e \<noteq> u"
  using assms(2-7)
proof (induction es arbitrary: ks c)
  case (Cons e es)
  obtain d ks' c' where d: "drop_entry cfg v snap (fst e) ks c = (d, ks', c')" by (rule prod_cases3)
  note r = drop_entry_result [OF assms(1) Cons.prems(1,2) _ d]
  have ik: "internal_key (fst e)" using Cons.prems(3) by simp
  have srt: "entries_sorted icmp es" using Cons.prems(2) by (simp add: entries_sorted_def)
  show ?case
  proof (cases "user_key e = u")
    case True
    have "d" using r(4) [OF ik] Cons.prems(5) True by simp
    moreover have "\<forall>x\<in>set (kept cfg v snap es ks' c'). user_key x \<noteq> u"
    proof (rule Cons.IH [OF r(3) [OF ik] srt])
      have last: "last_sequence u ks' = sequence_of e" using r(1) [OF ik] True by (simp add: last_sequence_def)
      have "sequence_of e \<le> last_sequence u ks" using Cons.prems(6) True by simp
      then show "last_sequence u ks' \<le> snap" using last Cons.prems(5) by simp
      show "\<forall>x\<in>set es. user_key x = u \<longrightarrow> sequence_of x \<le> last_sequence u ks'"
        using same_user_sequence [OF Cons.prems(2)] last True by simp
    qed (use Cons.prems(3,4) in simp_all)
    ultimately show ?thesis using d by simp
  next
    case False
    then have lt: "ucmp u (user_key e) < 0" using Cons.prems(4) Bytewise_eq_0 by (fastforce simp: order.order_iff_strict)
    have "user_key x \<noteq> u" if "x \<in> set es" for x
      using bytewise.cmp_less_le_trans [OF lt user_keys_mono [OF Cons.prems(2) that]] bytewise.cmp_refl by auto
    then show ?thesis using False d kept_subset [of cfg v snap es ks' c'] by auto
  qed
qed simp

lemma kept_reads:
  assumes "levels_ok (num_levels cfg) v" "base_ready cfg v es c" "entries_sorted icmp es"
    and "\<forall>e\<in>set es. internal_key (fst e)"
    and "snap \<le> s" "snap < kMaxSequenceNumber" "last_sequence u ks = kMaxSequenceNumber \<or> s < last_sequence u ks"
    and lower: "\<forall>e\<in>set lower. held_below cfg v (c_level c) (user_key e)"
  shows "read_at s u (kept cfg v snap es ks c @ lower) = read_at s u (es @ lower)"
  using assms(2-4,7) lower
proof (induction es arbitrary: ks c)
  case (Cons e es)
  obtain d ks' c' where d: "drop_entry cfg v snap (fst e) ks c = (d, ks', c')" by (rule prod_cases3)
  have ik: "internal_key (fst e)" using Cons.prems(3) by simp
  have srt: "entries_sorted icmp es" using Cons.prems(2) by (simp add: entries_sorted_def)
  note r = drop_entry_result [OF assms(1) Cons.prems(1,2) ik d]
  have below: "\<forall>e\<in>set lower. held_below cfg v (c_level c') (user_key e)" using Cons.prems(5) r(2) by simp
  have rest: "read_at s u (kept cfg v snap es ks' c' @ lower) = read_at s u (es @ lower)"
    if "last_sequence u ks' = kMaxSequenceNumber \<or> s < last_sequence u ks'"
    using Cons.IH [OF r(3) srt _ that below] Cons.prems(3) by simp
  show ?case
  proof (cases "user_key e = u")
    case False
    then have "last_sequence u ks' = kMaxSequenceNumber" using r(1) by (simp add: last_sequence_def)
    then show ?thesis using rest d False by simp
  next
    case u: True
    have last: "last_sequence u ks' = sequence_of e" using r(1) u by (simp add: last_sequence_def)
    have "\<not> last_sequence u ks \<le> snap" using Cons.prems(4) assms(5,6) by auto
    then have dd: "d \<longleftrightarrow> \<not> is_value e \<and> sequence_of e \<le> snap \<and> \<not> held_below cfg v (c_level c) u"
      using r(4) u by simp
    show ?thesis
    proof (cases d)
      case False
      then show ?thesis
      proof (cases "seen_by s e")
        case unseen: False
        then have "s < last_sequence u ks'" using last by (simp add: seen_sequence)
        then show ?thesis using rest d False unseen by simp
      qed (simp add: d u)
    next
      case True
      then have e: "\<not> is_value e" "sequence_of e \<le> snap" "\<not> held_below cfg v (c_level c) u" using dd by auto
      then have seen: "seen_by s e" using assms(5) by (simp add: seen_sequence)
      have "\<forall>x\<in>set (kept cfg v snap es ks' c'). user_key x \<noteq> u"
      proof (rule kept_none [OF assms(1) r(3) srt])
        show "\<forall>x\<in>set es. ucmp u (user_key x) \<le> 0" using user_keys_mono [OF Cons.prems(2)] u by simp
        show "\<forall>x\<in>set es. user_key x = u \<longrightarrow> sequence_of x \<le> last_sequence u ks'"
          using same_user_sequence [OF Cons.prems(2)] last u by simp
      qed (use Cons.prems(3) e last in simp_all)
      moreover have "user_key x \<noteq> u" if "x \<in> set lower" for x using Cons.prems(5) that e(3) by auto
      ultimately have "read_at s u (kept cfg v snap es ks' c' @ lower) = None"
        by (intro read_at_none) auto
      then show ?thesis using d True u seen e(1) by simp
    qed
  qed
qed simp

lemma base_ready_new:
  assumes "levels_ok (num_levels cfg) v" "c_level_ptrs c = replicate (num_levels cfg) 0"
  shows "base_ready cfg v es c"
  using assms by (simp add: base_ready_def ptrs_ok_def passed_def)


definition demo_inputs :: entries where
  "demo_inputs = [(InternalKey [1] 9 kTypeDeletion, []), (InternalKey [1] 4 kTypeValue, [40]),
     (InternalKey [3] 8 kTypeDeletion, []), (InternalKey [3] 7 kTypeValue, [70]), (InternalKey [5] 6 kTypeValue, [60])]"

definition demo_deeper :: entries where
  "demo_deeper = [(InternalKey [2] 3 kTypeValue, [30]), (InternalKey [3] 2 kTypeValue, [20])]"


end
