(* ===== verification/Spec2Isabelle.thy ===== *)
theory Spec2Isabelle
  imports Write_Batch Filter_Block Compaction_Run Iter_Merger Db_Drop
begin

text \<open>
  DeltaDB, a log-structured key-value store in C++ (a redesign of LevelDB).  A
  write goes as a batch into the write-ahead log and from there into a sorted
  table in memory; a full memory table becomes an immutable table file (SST) of
  level 0, and compactions merge the files of a level into the next one.  The
  set of files is a version; edits of it are logged in a manifest.  Reads look in
  the memory tables and then in the files, newest first, and see the entries up to
  a sequence number.

  The development is a shallow embedding: every class is a \<open>record\<close> of its fields,
  every method a function on it, in the order the code has them, named
  \<open>Class_Method\<close> where the bare name would clash.  Byte strings are lists of
  \<open>8 word\<close>; numbers that are stored, wrap or are compared at their width are
  \<open>32 word\<close> and \<open>64 word\<close>; lengths and indices are \<open>nat\<close>.  A \<^verbatim>\<open>Status\<close> is a value, a
  loop that could run for ever is a \<open>partial_function (option)\<close> whose \<open>None\<close> is
  "did not return", and the theorems about such loops prove that they return.

  \<^bold>\<open>Utilities\<close> (\<^verbatim>\<open>src/utils\<close>).
    \<^item> \<open>Delta_Prelude\<close>: byte strings, the collections of simplification rules, words.
    \<^item> \<open>Coding\<close> (\<^verbatim>\<open>coding.cc\<close>): fixed-width numbers, varints, length-prefixed strings;
      the lemmas are round trips for every value and rejection of every strict prefix.
    \<^item> \<open>Comparator\<close> (\<^verbatim>\<open>comparator.cc\<close>): the locales \<open>key_comparator\<close> and
      \<open>short_comparator\<close> are the abstract class, the bytewise comparator interprets them.
    \<^item> \<open>Dbformat\<close> (\<^verbatim>\<open>dbformat.cc\<close>): internal keys, their order, lookup keys; the
      internal comparator interprets the same locales.
    \<^item> \<open>Status\<close>, \<open>Util\<close> (decimal parser, hash, random generator), \<open>Config\<close> (the
      settings the code reads, and the limiter as a step relation), \<open>Bloom\<close>
      (locale \<open>filter_policy\<close>), \<open>Arena\<close> (over any allocator of blocks that returns
      fresh, aligned memory) and \<open>Skiplist\<close> (any comparator; nodes are numbered).

  \<^bold>\<open>Log\<close> (\<^verbatim>\<open>src/wal\<close>).
    \<^item> \<open>Files\<close>: the buffered file wrappers over a script of what \<^verbatim>\<open>write\<close>, \<^verbatim>\<open>read\<close> and
      \<^verbatim>\<open>fdatasync\<close> answer, short writes and errors included.
    \<^item> \<open>Wal_Format\<close>, \<open>Wal_Writer\<close>, \<open>Wal_Reader\<close>: the fragments of records in blocks of
      32 KB, the writer and the reader with its resynchronisation.
    \<^item> \<open>Wal_Log\<close>: what the reader returns on a log cut at any byte, and that it only
      accepts records whose checksum matches.

  \<^bold>\<open>Memory\<close> (\<^verbatim>\<open>src/db\<close>): \<open>Memtable\<close> refines a history of entries, \<open>Write_Batch\<close> builds,
  appends, iterates and inserts batches.

  \<^bold>\<open>Tables\<close> (\<^verbatim>\<open>src/table\<close>).
    \<^item> \<open>Iterators\<close>: the virtual functions of an iterator as a record of operations, the
      contract of a sorted iterator as the locale \<open>sorted_iterator\<close> (a cursor in a list of
      entries), the wrapper that caches key and validity.
    \<^item> \<open>Block\<close>, \<open>Block_Iterator\<close>: prefix-compressed blocks and their iterator.
    \<^item> \<open>Iter_Merger\<close>, \<open>Two_Level\<close>: iterators over iterators; each keeps the contract when
      its parts do, and is interpreted on the blocks and tables of the store.
    \<^item> \<open>Filter_Block\<close>, \<open>Sst_Format\<close>, \<open>Sst_Builder\<close>, \<open>Sst_Table\<close>: the file format, the builder and
      the reader of a table; \<open>Sst_Roundtrip\<close> composes them.

  \<^bold>\<open>Versions\<close> (\<^verbatim>\<open>src/db/version_set.cc\<close>, \<^verbatim>\<open>version_edit.cc\<close>, \<^verbatim>\<open>filename.cc\<close>).
    \<^item> \<open>Version_Edit\<close>, \<open>Filename\<close>: edits and their encoding; file names and the atomic switch
      of \<^verbatim>\<open>CURRENT\<close> over a file system whose calls may fail.
    \<^item> \<open>Version_Files\<close>, \<open>Version_Get\<close>: the searches in a version, lookups and seek statistics.
    \<^item> \<open>Version_Builder\<close>: applying edits refines set operations on every level.
    \<^item> \<open>Version_Set\<close>: counters, reference counts of versions, the manifest.
    \<^item> \<open>Compaction\<close>, \<open>Compaction_Run\<close>: choosing the inputs of a compaction and the state it
      keeps while it runs.

  \<^bold>\<open>Database\<close> (\<^verbatim>\<open>src/db/db_iter.cc\<close>, \<^verbatim>\<open>db_impl.cc\<close>).
    \<^item> \<open>Db_Iter\<close>, \<open>Db_View\<close>: the user's iterator over any sorted internal iterator, and that it
      is a cursor in the list of user keys with their newest visible values.
    \<^item> \<open>Db_State\<close>: the object \<^verbatim>\<open>DBImpl\<close>, writing a memory table to a file, deleting files
      nobody needs, scheduling.
    \<^item> \<open>Db_Compaction\<close>, \<open>Db_Drop\<close>: the loop of a compaction and the background work; what
      the loop drops changes no read that is still possible.

  \<^bold>\<open>Parameters.\<close>  The crc32c library is a pair of functions with the law that extending
  a checksum is the checksum of the longer string (\<open>crc_extends\<close>); the compression
  libraries are functions with the law that what they compress they restore
  (\<open>sound_codecs\<close>); \<^verbatim>\<open>new char[]\<close> is a function (\<open>allocator_ok\<close>); system calls take their
  results from a script.  Each property with such a hypothesis has a witness with
  concrete functions.

  \<^bold>\<open>Not modelled.\<close>  The asynchronous logger, the thread pool and the locks (the operations
  are atomic steps), the XML reader of the configuration, directory listing, clock
  and the interactive program.
\<close>

end
